(* ===== verification/Prelude.thy ===== *)
theory Prelude
  imports Main "HOL-Library.Word" "HOL-Library.Code_Target_Nat"
begin

text \<open>
  Shared vocabulary of the development: the collections of rewrite rules the component
  theories extend, and the generic facts on lists, slices and options they use.

  \<^item> \<open>scan_bounds\<close> collects the facts that a scanner stays inside its buffer;
  \<^item> \<open>node_simps\<close> collects the structural equations of query trees;
  \<^item> \<open>label_simps\<close> collects the bit-level equations of node labels.

  Go slices \<open>b[i:]\<close> and \<open>b[i:j]\<close> are \<open>drop i b\<close> and \<open>take (j - i) (drop i b)\<close>; the
  component theories prove that every slice the code takes is in range.
\<close>

named_theorems scan_bounds \<open>scanners stay inside their buffer\<close>
named_theorems node_simps \<open>structural equations of query trees\<close>
named_theorems label_simps \<open>bit-level equations of node labels\<close>

section \<open>Lists\<close>

lemma size_list_filter_le: "size_list f (filter P xs) \<le> size_list f xs"
  by (induction xs) auto

lemma size_list_member: "x \<in> set xs \<Longrightarrow> f x < size_list f xs + n"
  by (induction xs) auto

end
