(* ===== verification/Go_Text.thy ===== *)
theory Go_Text
  imports Prelude
begin

text \<open>
  The part of Go's standard library the query code is written with: \<open>unicode/utf8\<close>
  (\<open>DecodeRune\<close>, the encoding behind \<open>string([]rune)\<close>), \<open>unicode\<close> (\<open>IsSpace\<close>,
  \<open>IsLetter\<close>) and \<open>strings\<close>. A Go string or byte slice is an Isabelle \<open>string\<close>: a
  \<open>char\<close> is one byte. A rune is a natural number.

  The main result is the round trip \<open>encode_decode\<close>: on well-formed UTF-8 the bytes that
  \<open>DecodeRune\<close> consumed are the encoding of the rune it returned, so a scanner that
  collects runes and turns them back into a string returns the input bytes unchanged.
\<close>

type_synonym rune = nat

abbreviation RuneError :: rune where
  "RuneError \<equiv> 65533"

section \<open>unicode/utf8\<close>

text \<open>
  \<open>utf8.DecodeRune\<close>: the first rune of a buffer and its width in bytes. An empty buffer
  gives width 0; an ill-formed prefix gives \<open>RuneError\<close> with width 1. The bounds on the
  second byte are those of the accept ranges of the library.
\<close>

definition second_lo :: "nat \<Rightarrow> nat" where
  "second_lo p0 = (if p0 = 224 then 160 else if p0 = 240 then 144 else 128)"

definition second_hi :: "nat \<Rightarrow> nat" where
  "second_hi p0 = (if p0 = 237 then 159 else if p0 = 244 then 143 else 191)"

definition is_cont :: "nat \<Rightarrow> bool" where
  "is_cont b \<longleftrightarrow> 128 \<le> b \<and> b \<le> 191"

fun decode_fourth :: "nat \<Rightarrow> nat \<Rightarrow> nat \<Rightarrow> string \<Rightarrow> rune \<times> nat" where
  "decode_fourth p0 p1 p2 [] = (RuneError, 1)"
| "decode_fourth p0 p1 p2 (b3 # bs) =
     (if is_cont (of_char b3)
      then ((p0 mod 8) * 262144 + (p1 mod 64) * 4096 + (p2 mod 64) * 64 + of_char b3 mod 64, 4)
      else (RuneError, 1))"

fun decode_third :: "nat \<Rightarrow> nat \<Rightarrow> string \<Rightarrow> rune \<times> nat" where
  "decode_third p0 p1 [] = (RuneError, 1)"
| "decode_third p0 p1 (b2 # bs) =
     (if \<not> is_cont (of_char b2) then (RuneError, 1)
      else if p0 < 240 then ((p0 mod 16) * 4096 + (p1 mod 64) * 64 + of_char b2 mod 64, 3)
      else decode_fourth p0 p1 (of_char b2) bs)"

fun decode_second :: "nat \<Rightarrow> string \<Rightarrow> rune \<times> nat" where
  "decode_second p0 [] = (RuneError, 1)"
| "decode_second p0 (b1 # bs) =
     (if of_char b1 < second_lo p0 \<or> second_hi p0 < of_char b1 then (RuneError, 1)
      else if p0 < 224 then ((p0 mod 32) * 64 + of_char b1 mod 64, 2)
      else decode_third p0 (of_char b1) bs)"

fun DecodeRune :: "string \<Rightarrow> rune \<times> nat" where
  "DecodeRune [] = (RuneError, 0)"
| "DecodeRune (b0 # bs) =
     (if (of_char b0 :: nat) < 128 then (of_char b0, 1)
      else if (of_char b0 :: nat) < 194 \<or> 244 < (of_char b0 :: nat) then (RuneError, 1)
      else decode_second (of_char b0) bs)"

declare DecodeRune.simps(2) [simp del]

text \<open>\<open>utf8.EncodeRune\<close>, the conversion of one rune in \<open>string([]rune)\<close>.\<close>

definition EncodeRune :: "rune \<Rightarrow> string" where
  "EncodeRune r =
     (if r \<le> 127 then [char_of r]
      else if r \<le> 2047 then [char_of (192 + r div 64), char_of (128 + r mod 64)]
      else if 1114111 < r \<or> (55296 \<le> r \<and> r \<le> 57343) then
        [char_of (239 :: nat), char_of (191 :: nat), char_of (189 :: nat)]
      else if r \<le> 65535 then
        [char_of (224 + r div 4096), char_of (128 + r div 64 mod 64), char_of (128 + r mod 64)]
      else
        [char_of (240 + r div 262144), char_of (128 + r div 4096 mod 64),
         char_of (128 + r div 64 mod 64), char_of (128 + r mod 64)])"

definition string_of_runes :: "rune list \<Rightarrow> string" where
  "string_of_runes rs = concat (map EncodeRune rs)"

lemma string_of_runes_simps [simp]:
  "string_of_runes [] = []"
  "string_of_runes (r # rs) = EncodeRune r @ string_of_runes rs"
  "string_of_runes (rs @ rs') = string_of_runes rs @ string_of_runes rs'"
  by (simp_all add: string_of_runes_def)

lemma of_char_bound [simp]: "(of_char c :: nat) < 256"
  by (rule nat_of_char_less_256)

lemma decode_fourth_width: "snd (decode_fourth p0 p1 p2 bs) \<in> {1..Suc (Suc (Suc (length bs)))}"
  by (cases bs) simp_all

lemma decode_third_width: "snd (decode_third p0 p1 bs) \<in> {1..Suc (Suc (length bs))}"
  using decode_fourth_width by (cases bs) simp_all

lemma decode_second_width: "snd (decode_second p0 bs) \<in> {1..Suc (length bs)}"
  using decode_third_width by (cases bs) simp_all

lemma DecodeRune_width:
  "buf \<noteq> [] \<Longrightarrow> 1 \<le> snd (DecodeRune buf) \<and> snd (DecodeRune buf) \<le> length buf"
  using decode_second_width by (cases buf) (simp_all add: DecodeRune.simps(2))

lemma DecodeRune_advance:
  assumes "DecodeRune buf = (r, n)" and "buf \<noteq> []"
  shows "0 < n" and "n \<le> length buf"
  using DecodeRune_width [OF assms(2)] assms(1) by auto

lemma DecodeRune_shrinks:
  "DecodeRune buf = (r, n) \<Longrightarrow> buf \<noteq> [] \<Longrightarrow> length (drop n buf) < length buf"
  using DecodeRune_advance [of buf r n] by simp

lemma DecodeRune_proper:
  assumes "DecodeRune buf = (r, n)" and "r \<noteq> RuneError"
  shows "0 < n \<and> n \<le> length buf \<and> buf \<noteq> []"
  using assms DecodeRune_advance [of buf r n] by (cases "buf = []"; simp)

lemma DecodeRune_ascii: "(of_char b :: nat) < 128 \<Longrightarrow> DecodeRune (b # bs) = (of_char b, 1)"
  by (simp add: DecodeRune.simps(2))

lemma EncodeRune_ascii: "(of_char b :: nat) < 128 \<Longrightarrow> EncodeRune (of_char b) = [b]"
  by (simp add: EncodeRune_def)

text \<open>
  Well-formed UTF-8: decoding never falls back on the replacement rune of width 1.
\<close>

function valid_utf8 :: "string \<Rightarrow> bool" where
  "valid_utf8 buf =
     (if buf = [] then True
      else case DecodeRune buf of (r, n) \<Rightarrow>
        if r = RuneError \<and> n = 1 then False else valid_utf8 (drop n buf))"
  by pat_completeness auto
termination
  by (relation "measure length") (auto dest: DecodeRune_shrinks [OF sym])

declare valid_utf8.simps [simp del]

lemma valid_utf8_Nil [simp]: "valid_utf8 []"
  by (simp add: valid_utf8.simps)

lemma valid_utf8_step:
  assumes "valid_utf8 buf" and "buf \<noteq> []" and "DecodeRune buf = (r, n)"
  shows "\<not> (r = RuneError \<and> n = 1)" and "valid_utf8 (drop n buf)"
  using assms(1) by (subst (asm) valid_utf8.simps, simp add: assms(2,3) split: if_splits)+

text \<open>The three multi-byte forms: the code point of the payload bits encodes to the same bytes.\<close>

lemma digit_div_mod:
  "(c :: nat) < n \<Longrightarrow> (q * n + c) div n = q"
  "(c :: nat) < n \<Longrightarrow> (q * n + c) mod n = c"
  by simp_all

lemma EncodeRune_two:
  assumes "2 \<le> a" "a < 32" "b < 64"
  shows "EncodeRune (a * 64 + b) = [char_of (192 + a), char_of (128 + b)]"
proof -
  have "\<not> a * 64 + b \<le> 127" "a * 64 + b \<le> 2047"
    using assms by linarith+
  then show ?thesis by (simp add: EncodeRune_def digit_div_mod assms)
qed

lemma EncodeRune_three:
  assumes "a < 16" "b < 64" "c < 64" and "a = 0 \<Longrightarrow> 32 \<le> b" and "a = 13 \<Longrightarrow> b < 32"
  shows "EncodeRune (a * 4096 + b * 64 + c) =
           [char_of (224 + a), char_of (128 + b), char_of (128 + c)]"
proof -
  define r where "r = a * 4096 + b * 64 + c"
  have r: "r = (a * 64 + b) * 64 + c" by (simp add: r_def algebra_simps)
  then have d1: "r div 64 = a * 64 + b" and m1: "r mod 64 = c"
    using assms by (simp_all only: digit_div_mod)
  then have d2: "r div 64 mod 64 = b" and "r div 64 div 64 = a"
    using assms by (simp_all only: digit_div_mod)
  then have d3: "r div 4096 = a" by (simp add: div_mult2_eq [symmetric])
  have "1 \<le> a \<or> 32 \<le> b" using assms(4) by linarith
  then have lo: "2048 \<le> r" using r_def by linarith
  have "a \<le> 12 \<or> a = 13 \<and> b < 32 \<or> 14 \<le> a" using assms(5) by linarith
  then have sur: "r < 55296 \<or> 57343 < r" using r_def assms by linarith
  have hi: "r \<le> 65535" using r_def assms by linarith
  have "EncodeRune r = [char_of (224 + a), char_of (128 + b), char_of (128 + c)]"
    using lo hi sur by (auto simp: EncodeRune_def d2 d3 m1)
  then show ?thesis by (simp add: r_def)
qed

lemma EncodeRune_four:
  assumes "a < 5" "b < 64" "c < 64" "d < 64" and "a = 0 \<Longrightarrow> 16 \<le> b" and "a = 4 \<Longrightarrow> b < 16"
  shows "EncodeRune (a * 262144 + b * 4096 + c * 64 + d) =
           [char_of (240 + a), char_of (128 + b), char_of (128 + c), char_of (128 + d)]"
proof -
  define r where "r = a * 262144 + b * 4096 + c * 64 + d"
  have r: "r = ((a * 64 + b) * 64 + c) * 64 + d" by (simp add: r_def algebra_simps)
  then have d1: "r div 64 = (a * 64 + b) * 64 + c" and m1: "r mod 64 = d"
    using assms by (simp_all only: digit_div_mod)
  then have m2: "r div 64 mod 64 = c" and d2: "r div 64 div 64 = a * 64 + b"
    using assms by (simp_all only: digit_div_mod)
  have d2': "r div 4096 = a * 64 + b" using d2 by (simp add: div_mult2_eq [symmetric])
  then have m3: "r div 4096 mod 64 = b" and d3: "r div 4096 div 64 = a"
    using assms by (simp_all only: digit_div_mod)
  have d3': "r div 262144 = a" using d3 by (simp add: div_mult2_eq [symmetric])
  have "1 \<le> a \<or> 16 \<le> b" using assms(5) by linarith
  then have lo: "65536 \<le> r" using r_def by linarith
  have "a \<le> 3 \<or> a = 4 \<and> b < 16" using assms(1,6) by linarith
  then have hi: "r \<le> 1114111" using r_def assms by linarith
  have "EncodeRune r = [char_of (240 + a), char_of (128 + b), char_of (128 + c), char_of (128 + d)]"
    using lo hi by (simp add: EncodeRune_def m1 m2 m3 d3')
  then show ?thesis by (simp add: r_def)
qed

lemma byte_offset:
  assumes "k \<le> (of_char b :: nat)" "(of_char b :: nat) < k + m" "k mod m = 0"
  shows "(of_char b :: nat) = k + of_char b mod m" and "(of_char b :: nat) mod m < m"
    and "char_of (k + of_char b mod m) = b"
proof -
  obtain x where x: "of_char b = k + x" "x < m"
    using assms le_Suc_ex by (metis add_less_cancel_left)
  then have "of_char b mod m = x" using assms(3) by (metis add_0 mod_add_left_eq mod_less)
  then show "(of_char b :: nat) = k + of_char b mod m" and "(of_char b :: nat) mod m < m"
    using x by simp_all
  then show "char_of (k + of_char b mod m) = b" by (metis char_of_char)
qed

text \<open>Decoding a well-formed prefix, one form at a time, and encoding it back.\<close>

lemma cont_offset:
  assumes "is_cont (of_char b)"
  shows "(of_char b :: nat) mod 64 < 64" and "char_of (128 + (of_char b :: nat) mod 64) = b"
  using byte_offset [of 128 b 64] assms by (simp_all add: is_cont_def)

lemma second_is_cont:
  "second_lo p0 \<le> b \<Longrightarrow> b \<le> second_hi p0 \<Longrightarrow> is_cont b"
  by (auto simp: second_lo_def second_hi_def is_cont_def split: if_splits)

lemma decode_fourth_encode:
  assumes dec: "decode_fourth (of_char b0) (of_char b1) (of_char b2) bs = (r, n)" and "n \<noteq> 1"
    and b0: "240 \<le> (of_char b0 :: nat)" "(of_char b0 :: nat) \<le> 244"
    and b1: "second_lo (of_char b0) \<le> of_char b1" "of_char b1 \<le> second_hi (of_char b0)"
    and b2: "is_cont (of_char b2)"
  shows "EncodeRune r = take n (b0 # b1 # b2 # bs)"
proof -
  obtain b3 bs' where bs: "bs = b3 # bs'" and b3: "is_cont (of_char b3)" and n: "n = 4"
    and r: "r = (of_char b0 mod 8) * 262144 + (of_char b1 mod 64) * 4096
              + (of_char b2 mod 64) * 64 + of_char b3 mod 64"
    using dec \<open>n \<noteq> 1\<close> by (cases bs) (auto split: if_splits)
  note o0 = byte_offset [of 240 b0 8]
  have a: "(of_char b0 :: nat) = 240 + of_char b0 mod 8" "char_of (240 + (of_char b0 :: nat) mod 8) = b0"
    using o0 b0 by simp_all
  have b1c: "is_cont (of_char b1)" using b1 by (rule second_is_cont)
  have b1o: "(of_char b1 :: nat) = 128 + of_char b1 mod 64"
    using byte_offset(1) [of 128 b1 64] b1c by (simp add: is_cont_def)
  have lo: "of_char b0 mod 8 = (0 :: nat) \<Longrightarrow> 16 \<le> (of_char b1 :: nat) mod 64"
    using a(1) b1(1) b1o by (simp add: second_lo_def)
  have hi: "of_char b0 mod 8 = (4 :: nat) \<Longrightarrow> (of_char b1 :: nat) mod 64 < 16"
    using a(1) b1(2) b1o by (simp add: second_hi_def)
  have "(of_char b0 :: nat) mod 8 < 5" using a(1) b0 by linarith
  from EncodeRune_four [OF this cont_offset(1) [OF b1c] cont_offset(1) [OF b2] cont_offset(1) [OF b3] lo hi]
  show ?thesis using a(2) cont_offset(2) [OF b1c] cont_offset(2) [OF b2] cont_offset(2) [OF b3]
    by (simp add: r n bs)
qed

lemma decode_third_encode:
  assumes dec: "decode_third (of_char b0) (of_char b1) bs = (r, n)" and "n \<noteq> 1"
    and b0: "224 \<le> (of_char b0 :: nat)" "(of_char b0 :: nat) \<le> 244"
    and b1: "second_lo (of_char b0) \<le> of_char b1" "of_char b1 \<le> second_hi (of_char b0)"
  shows "EncodeRune r = take n (b0 # b1 # bs)"
proof -
  obtain b2 bs' where bs: "bs = b2 # bs'" and b2: "is_cont (of_char b2)"
    using dec \<open>n \<noteq> 1\<close> by (cases bs) (auto split: if_splits)
  show ?thesis
  proof (cases "(of_char b0 :: nat) < 240")
    case True
    have n: "n = 3" and r: "r = (of_char b0 mod 16) * 4096 + (of_char b1 mod 64) * 64 + of_char b2 mod 64"
      using dec b2 True by (simp_all add: bs)
    have a: "(of_char b0 :: nat) = 224 + of_char b0 mod 16" "(of_char b0 :: nat) mod 16 < 16"
      "char_of (224 + (of_char b0 :: nat) mod 16) = b0"
      using byte_offset [of 224 b0 16] b0(1) True by simp_all
    have b1c: "is_cont (of_char b1)" using b1 by (rule second_is_cont)
    have b1o: "(of_char b1 :: nat) = 128 + of_char b1 mod 64"
      using byte_offset(1) [of 128 b1 64] b1c by (simp add: is_cont_def)
    have lo: "of_char b0 mod 16 = (0 :: nat) \<Longrightarrow> 32 \<le> (of_char b1 :: nat) mod 64"
      using a(1) b1(1) b1o by (simp add: second_lo_def)
    have hi: "of_char b0 mod 16 = (13 :: nat) \<Longrightarrow> (of_char b1 :: nat) mod 64 < 32"
      using a(1) b1(2) b1o by (simp add: second_hi_def)
    from EncodeRune_three [OF a(2) cont_offset(1) [OF b1c] cont_offset(1) [OF b2] lo hi]
    show ?thesis using a(3) cont_offset(2) [OF b1c] cont_offset(2) [OF b2]
      by (simp add: r n bs)
  next
    case False
    then have "decode_fourth (of_char b0) (of_char b1) (of_char b2) bs' = (r, n)"
      using dec b2 by (simp add: bs)
    from decode_fourth_encode [OF this \<open>n \<noteq> 1\<close> _ b0(2) b1 b2] False
    show ?thesis by (simp add: bs)
  qed
qed

lemma decode_second_encode:
  assumes dec: "decode_second (of_char b0) bs = (r, n)" and "n \<noteq> 1"
    and b0: "194 \<le> (of_char b0 :: nat)" "(of_char b0 :: nat) \<le> 244"
  shows "EncodeRune r = take n (b0 # bs)"
proof -
  obtain b1 bs' where bs: "bs = b1 # bs'"
    and b1: "second_lo (of_char b0) \<le> of_char b1" "of_char b1 \<le> second_hi (of_char b0)"
    using dec \<open>n \<noteq> 1\<close> by (cases bs) (auto split: if_splits)
  show ?thesis
  proof (cases "(of_char b0 :: nat) < 224")
    case True
    have n: "n = 2" and r: "r = (of_char b0 mod 32) * 64 + of_char b1 mod 64"
      using dec b1 True by (simp_all add: bs)
    have a: "(of_char b0 :: nat) = 192 + of_char b0 mod 32" "(of_char b0 :: nat) mod 32 < 32"
      "char_of (192 + (of_char b0 :: nat) mod 32) = b0"
      using byte_offset [of 192 b0 32] b0(1) True by simp_all
    have b1c: "is_cont (of_char b1)" using b1 by (rule second_is_cont)
    have "2 \<le> (of_char b0 :: nat) mod 32" using a(1) b0(1) by linarith
    from EncodeRune_two [OF this a(2) cont_offset(1) [OF b1c]]
    show ?thesis using a(3) cont_offset(2) [OF b1c] by (simp add: r n bs)
  next
    case False
    then have "decode_third (of_char b0) (of_char b1) bs' = (r, n)"
      using dec b1 by (simp add: bs)
    from decode_third_encode [OF this \<open>n \<noteq> 1\<close> _ b0(2) b1] False
    show ?thesis by (simp add: bs)
  qed
qed

lemma decode_second_error: "decode_second p0 bs = (r, 1) \<Longrightarrow> r = RuneError"
proof (cases bs)
  case (Cons b1 bs1)
  then show "decode_second p0 bs = (r, 1) \<Longrightarrow> r = RuneError"
    by (cases bs1; cases "tl bs1") (auto split: if_splits)
qed simp

lemma encode_decode:
  assumes "DecodeRune buf = (r, n)" and "buf \<noteq> []" and "\<not> (r = RuneError \<and> n = 1)"
  shows "EncodeRune r = take n buf"
proof -
  obtain b0 bs where buf: "buf = b0 # bs" using assms(2) by (cases buf) auto
  show ?thesis
  proof (cases "(of_char b0 :: nat) < 128")
    case True
    then show ?thesis using assms(1) by (auto simp: buf DecodeRune_ascii EncodeRune_ascii)
  next
    case False
    have "\<not> ((of_char b0 :: nat) < 194 \<or> 244 < (of_char b0 :: nat))"
      using assms(1,3) False by (auto simp: buf DecodeRune.simps(2))
    moreover from this have dec: "decode_second (of_char b0) bs = (r, n)"
      using assms(1) False by (simp add: buf DecodeRune.simps(2))
    moreover have "n \<noteq> 1" using decode_second_error dec assms(3) by blast
    ultimately show ?thesis using decode_second_encode [OF dec] by (simp add: buf)
  qed
qed

text \<open>One step of a loop that collects runes from well-formed UTF-8.\<close>

lemma collect_rune:
  assumes "valid_utf8 buf" and "buf \<noteq> []" and "DecodeRune buf = (r, n)"
  shows "EncodeRune r = take n buf" and "valid_utf8 (drop n buf)"
  using encode_decode [OF assms(3,2)] valid_utf8_step [OF assms] by simp_all

text \<open>The runes of a string, as a \<open>for range\<close> loop or \<open>[]rune(s)\<close> enumerates them.\<close>

function runes :: "string \<Rightarrow> rune list" where
  "runes s = (if s = [] then [] else case DecodeRune s of (r, n) \<Rightarrow> r # runes (drop n s))"
  by pat_completeness auto
termination
  by (relation "measure length") (auto dest: DecodeRune_shrinks [OF sym])

declare runes.simps [simp del]

lemma runes_Nil [simp]: "runes [] = []"
  by (simp add: runes.simps)

lemma runes_ascii: "(of_char b :: nat) < 128 \<Longrightarrow> runes (b # s) = of_char b # runes s"
  by (subst runes.simps) (simp add: DecodeRune_ascii)

lemma DecodeRune_small:
  assumes "DecodeRune buf = (r, n)" and "r < 128"
  shows "n = 1" and "buf = char_of r # drop 1 buf"
proof -
  have ne: "r \<noteq> RuneError" using assms(2) by simp
  note p = DecodeRune_proper [OF assms(1) ne]
  have "take n buf = [char_of r]"
    using encode_decode [OF assms(1)] p ne assms(2) by (simp add: EncodeRune_def)
  then have "length (take n buf) = 1" by simp
  then show n: "n = 1" using p by simp
  show "buf = char_of r # drop 1 buf"
    using \<open>take n buf = [char_of r]\<close> n by (metis append_Cons append_Nil append_take_drop_id)
qed

lemma char_of_delimiters [simp]:
  "char_of (45 :: nat) = CHR ''-''" "char_of (58 :: nat) = CHR '':''"
  "char_of (92 :: nat) = CHR 0x5C" "char_of (40 :: nat) = CHR ''(''" "char_of (41 :: nat) = CHR '')''"
  by code_simp+

subsection \<open>Decoding looks at no byte beyond the rune\<close>

abbreviation high :: "char \<Rightarrow> bool" where
  "high c \<equiv> 128 \<le> (of_char c :: nat)"

lemma decode_fourth_local:
  assumes "decode_fourth p0 p1 p2 bs = (r, n)" and "n \<noteq> 1"
  shows "\<exists>b3. n = 4 \<and> take 1 bs = [b3] \<and> high b3 \<and> decode_fourth p0 p1 p2 (b3 # x) = (r, n)"
  using assms by (cases bs) (auto simp: is_cont_def split: if_splits)

lemma decode_third_local:
  assumes "decode_third p0 p1 bs = (r, n)" and "n \<noteq> 1"
  shows "list_all high (take (n - 2) bs) \<and> decode_third p0 p1 (take (n - 2) bs @ x) = (r, n)"
proof -
  obtain b2 bs' where bs: "bs = b2 # bs'" and c: "is_cont (of_char b2)"
    using assms by (cases bs) (auto split: if_splits)
  show ?thesis
  proof (cases "p0 < 240")
    case True
    with assms(1) bs c show ?thesis by (auto simp: is_cont_def)
  next
    case False
    with assms(1) bs c have "decode_fourth p0 p1 (of_char b2) bs' = (r, n)" by simp
    from decode_fourth_local [OF this assms(2)] obtain b3 where
      "n = 4" "take 1 bs' = [b3]" "high b3" "decode_fourth p0 p1 (of_char b2) (b3 # x) = (r, n)"
      by blast
    with False bs c show ?thesis by (cases bs') (auto simp: is_cont_def)
  qed
qed

lemma decode_second_local:
  assumes "decode_second p0 bs = (r, n)" and "n \<noteq> 1"
  shows "list_all high (take (n - 1) bs) \<and> decode_second p0 (take (n - 1) bs @ x) = (r, n)"
proof -
  obtain b1 bs' where bs: "bs = b1 # bs'"
    and b1: "\<not> (of_char b1 < second_lo p0 \<or> second_hi p0 < of_char b1)"
    using assms by (cases bs) (auto split: if_splits)
  have h: "high b1" using b1 by (auto simp: second_lo_def split: if_splits)
  show ?thesis
  proof (cases "p0 < 224")
    case True
    with assms(1) bs b1 h show ?thesis by auto
  next
    case False
    with assms(1) bs b1 have dec: "decode_third p0 (of_char b1) bs' = (r, n)" by simp
    have "2 < n" using dec assms(2) decode_third_width [of p0 "of_char b1" bs']
      by (cases bs'; cases "tl bs'") (auto split: if_splits)
    then have "take (n - 1) bs = b1 # take (n - 2) bs'"
      by (simp add: bs numeral_2_eq_2 take_Cons split: nat.split) (metis Suc_diff_Suc Suc_lessD diff_Suc_1 nat.inject)
    with False b1 h decode_third_local [OF dec assms(2), of x] show ?thesis by simp
  qed
qed

lemma DecodeRune_local:
  assumes "DecodeRune buf = (r, n)" and "\<not> (r = RuneError \<and> n = 1)" and "buf \<noteq> []"
  shows "DecodeRune (take n buf @ x) = (r, n)" and "128 \<le> r \<Longrightarrow> list_all high (take n buf)"
proof -
  obtain b0 bs where buf: "buf = b0 # bs" using assms(3) by (cases buf) auto
  have "DecodeRune (take n buf @ x) = (r, n) \<and> (128 \<le> r \<longrightarrow> list_all high (take n buf))"
  proof (cases "high b0")
    case False
    with assms(1) show ?thesis by (auto simp: buf DecodeRune_ascii)
  next
    case True
    have ok: "\<not> ((of_char b0 :: nat) < 194 \<or> 244 < (of_char b0 :: nat))"
      using assms(1,2) True by (auto simp: buf DecodeRune.simps(2))
    with assms(1) True have dec: "decode_second (of_char b0) bs = (r, n)"
      by (simp add: buf DecodeRune.simps(2))
    have n1: "n \<noteq> 1" using decode_second_error dec assms(2) by blast
    have "0 < n" using DecodeRune_advance(1) [OF assms(1,3)] .
    then have "take n buf = b0 # take (n - 1) bs" by (cases n) (simp_all add: buf)
    with decode_second_local [OF dec n1, of x] True ok show ?thesis
      by (auto simp: DecodeRune.simps(2))
  qed
  then show "DecodeRune (take n buf @ x) = (r, n)" "128 \<le> r \<Longrightarrow> list_all high (take n buf)"
    by auto
qed

lemma string_of_runes_runes: "valid_utf8 s \<Longrightarrow> string_of_runes (runes s) = s"
proof (induction s rule: runes.induct)
  case (1 s)
  obtain r n where d: "DecodeRune s = (r, n)" by fastforce
  show ?case
  proof (cases "s = []")
    case False
    note c = collect_rune [OF "1.prems" False d]
    from "1.IH" [OF False d [symmetric]] c(2) have "string_of_runes (runes (drop n s)) = drop n s"
      by simp
    with False c(1) d show ?thesis by (subst runes.simps) simp
  qed simp
qed

section \<open>unicode\<close>

text \<open>\<open>unicode.IsSpace\<close>: the Latin-1 spaces and the code points of the White\_Space property.\<close>

definition unicode_IsSpace :: "rune \<Rightarrow> bool" where
  "unicode_IsSpace r \<longleftrightarrow>
     (9 \<le> r \<and> r \<le> 13) \<or> r = 32 \<or> r = 133 \<or> r = 160 \<or> r = 5760 \<or> (8192 \<le> r \<and> r \<le> 8202) \<or>
     r = 8232 \<or> r = 8233 \<or> r = 8239 \<or> r = 8287 \<or> r = 12288"

text \<open>
  \<open>unicode.IsLetter\<close>: the ranges of the general category L above ASCII in Unicode 13.0,
  the version of Go 1.19.
\<close>

definition letter_ranges :: "(nat \<times> nat) list" where
  "letter_ranges =
  [(170, 170), (181, 181), (186, 186), (192, 214), (216, 246), (248, 705), (710, 721), (736,
   740), (748, 748), (750, 750), (880, 884), (886, 887), (890, 893), (895, 895), (902, 902),
   (904, 906), (908, 908), (910, 929), (931, 1013), (1015, 1153), (1162, 1327), (1329, 1366),
   (1369, 1369), (1376, 1416), (1488, 1514), (1519, 1522), (1568, 1610), (1646, 1647), (1649,
   1747), (1749, 1749), (1765, 1766), (1774, 1775), (1786, 1788), (1791, 1791), (1808, 1808),
   (1810, 1839), (1869, 1957), (1969, 1969), (1994, 2026), (2036, 2037), (2042, 2042), (2048,
   2069), (2074, 2074), (2084, 2084), (2088, 2088), (2112, 2136), (2144, 2154), (2208, 2228),
   (2230, 2247), (2308, 2361), (2365, 2365), (2384, 2384), (2392, 2401), (2417, 2432), (2437,
   2444), (2447, 2448), (2451, 2472), (2474, 2480), (2482, 2482), (2486, 2489), (2493, 2493),
   (2510, 2510), (2524, 2525), (2527, 2529), (2544, 2545), (2556, 2556), (2565, 2570), (2575,
   2576), (2579, 2600), (2602, 2608), (2610, 2611), (2613, 2614), (2616, 2617), (2649, 2652),
   (2654, 2654), (2674, 2676), (2693, 2701), (2703, 2705), (2707, 2728), (2730, 2736), (2738,
   2739), (2741, 2745), (2749, 2749), (2768, 2768), (2784, 2785), (2809, 2809), (2821, 2828),
   (2831, 2832), (2835, 2856), (2858, 2864), (2866, 2867), (2869, 2873), (2877, 2877), (2908,
   2909), (2911, 2913), (2929, 2929), (2947, 2947), (2949, 2954), (2958, 2960), (2962, 2965),
   (2969, 2970), (2972, 2972), (2974, 2975), (2979, 2980), (2984, 2986), (2990, 3001), (3024,
   3024), (3077, 3084), (3086, 3088), (3090, 3112), (3114, 3129), (3133, 3133), (3160, 3162),
   (3168, 3169), (3200, 3200), (3205, 3212), (3214, 3216), (3218, 3240), (3242, 3251), (3253,
   3257), (3261, 3261), (3294, 3294), (3296, 3297), (3313, 3314), (3332, 3340), (3342, 3344),
   (3346, 3386), (3389, 3389), (3406, 3406), (3412, 3414), (3423, 3425), (3450, 3455), (3461,
   3478), (3482, 3505), (3507, 3515), (3517, 3517), (3520, 3526), (3585, 3632), (3634, 3635),
   (3648, 3654), (3713, 3714), (3716, 3716), (3718, 3722), (3724, 3747), (3749, 3749), (3751,
   3760), (3762, 3763), (3773, 3773), (3776, 3780), (3782, 3782), (3804, 3807), (3840, 3840),
   (3904, 3911), (3913, 3948), (3976, 3980), (4096, 4138), (4159, 4159), (4176, 4181), (4186,
   4189), (4193, 4193), (4197, 4198), (4206, 4208), (4213, 4225), (4238, 4238), (4256, 4293),
   (4295, 4295), (4301, 4301), (4304, 4346), (4348, 4680), (4682, 4685), (4688, 4694), (4696,
   4696), (4698, 4701), (4704, 4744), (4746, 4749), (4752, 4784), (4786, 4789), (4792, 4798),
   (4800, 4800), (4802, 4805), (4808, 4822), (4824, 4880), (4882, 4885), (4888, 4954), (4992,
   5007), (5024, 5109), (5112, 5117), (5121, 5740), (5743, 5759), (5761, 5786), (5792, 5866),
   (5873, 5880), (5888, 5900), (5902, 5905), (5920, 5937), (5952, 5969), (5984, 5996), (5998,
   6000), (6016, 6067), (6103, 6103), (6108, 6108), (6176, 6264), (6272, 6276), (6279, 6312),
   (6314, 6314), (6320, 6389), (6400, 6430), (6480, 6509), (6512, 6516), (6528, 6571), (6576,
   6601), (6656, 6678), (6688, 6740), (6823, 6823), (6917, 6963), (6981, 6987), (7043, 7072),
   (7086, 7087), (7098, 7141), (7168, 7203), (7245, 7247), (7258, 7293), (7296, 7304), (7312,
   7354), (7357, 7359), (7401, 7404), (7406, 7411), (7413, 7414), (7418, 7418), (7424, 7615),
   (7680, 7957), (7960, 7965), (7968, 8005), (8008, 8013), (8016, 8023), (8025, 8025), (8027,
   8027), (8029, 8029), (8031, 8061), (8064, 8116), (8118, 8124), (8126, 8126), (8130, 8132),
   (8134, 8140), (8144, 8147), (8150, 8155), (8160, 8172), (8178, 8180), (8182, 8188), (8305,
   8305), (8319, 8319), (8336, 8348), (8450, 8450), (8455, 8455), (8458, 8467), (8469, 8469),
   (8473, 8477), (8484, 8484), (8486, 8486), (8488, 8488), (8490, 8493), (8495, 8505), (8508,
   8511), (8517, 8521), (8526, 8526), (8579, 8580), (11264, 11310), (11312, 11358), (11360,
   11492), (11499, 11502), (11506, 11507), (11520, 11557), (11559, 11559), (11565, 11565),
   (11568, 11623), (11631, 11631), (11648, 11670), (11680, 11686), (11688, 11694), (11696,
   11702), (11704, 11710), (11712, 11718), (11720, 11726), (11728, 11734), (11736, 11742),
   (11823, 11823), (12293, 12294), (12337, 12341), (12347, 12348), (12353, 12438), (12445,
   12447), (12449, 12538), (12540, 12543), (12549, 12591), (12593, 12686), (12704, 12735),
   (12784, 12799), (13312, 19903), (19968, 40956), (40960, 42124), (42192, 42237), (42240,
   42508), (42512, 42527), (42538, 42539), (42560, 42606), (42623, 42653), (42656, 42725),
   (42775, 42783), (42786, 42888), (42891, 42943), (42946, 42954), (42997, 43009), (43011,
   43013), (43015, 43018), (43020, 43042), (43072, 43123), (43138, 43187), (43250, 43255),
   (43259, 43259), (43261, 43262), (43274, 43301), (43312, 43334), (43360, 43388), (43396,
   43442), (43471, 43471), (43488, 43492), (43494, 43503), (43514, 43518), (43520, 43560),
   (43584, 43586), (43588, 43595), (43616, 43638), (43642, 43642), (43646, 43695), (43697,
   43697), (43701, 43702), (43705, 43709), (43712, 43712), (43714, 43714), (43739, 43741),
   (43744, 43754), (43762, 43764), (43777, 43782), (43785, 43790), (43793, 43798), (43808,
   43814), (43816, 43822), (43824, 43866), (43868, 43881), (43888, 44002), (44032, 55203),
   (55216, 55238), (55243, 55291), (63744, 64109), (64112, 64217), (64256, 64262), (64275,
   64279), (64285, 64285), (64287, 64296), (64298, 64310), (64312, 64316), (64318, 64318),
   (64320, 64321), (64323, 64324), (64326, 64433), (64467, 64829), (64848, 64911), (64914,
   64967), (65008, 65019), (65136, 65140), (65142, 65276), (65313, 65338), (65345, 65370),
   (65382, 65470), (65474, 65479), (65482, 65487), (65490, 65495), (65498, 65500), (65536,
   65547), (65549, 65574), (65576, 65594), (65596, 65597), (65599, 65613), (65616, 65629),
   (65664, 65786), (66176, 66204), (66208, 66256), (66304, 66335), (66349, 66368), (66370,
   66377), (66384, 66421), (66432, 66461), (66464, 66499), (66504, 66511), (66560, 66717),
   (66736, 66771), (66776, 66811), (66816, 66855), (66864, 66915), (67072, 67382), (67392,
   67413), (67424, 67431), (67584, 67589), (67592, 67592), (67594, 67637), (67639, 67640),
   (67644, 67644), (67647, 67669), (67680, 67702), (67712, 67742), (67808, 67826), (67828,
   67829), (67840, 67861), (67872, 67897), (67968, 68023), (68030, 68031), (68096, 68096),
   (68112, 68115), (68117, 68119), (68121, 68149), (68192, 68220), (68224, 68252), (68288,
   68295), (68297, 68324), (68352, 68405), (68416, 68437), (68448, 68466), (68480, 68497),
   (68608, 68680), (68736, 68786), (68800, 68850), (68864, 68899), (69248, 69289), (69296,
   69297), (69376, 69404), (69415, 69415), (69424, 69445), (69552, 69572), (69600, 69622),
   (69635, 69687), (69763, 69807), (69840, 69864), (69891, 69926), (69956, 69956), (69959,
   69959), (69968, 70002), (70006, 70006), (70019, 70066), (70081, 70084), (70106, 70106),
   (70108, 70108), (70144, 70161), (70163, 70187), (70272, 70278), (70280, 70280), (70282,
   70285), (70287, 70301), (70303, 70312), (70320, 70366), (70405, 70412), (70415, 70416),
   (70419, 70440), (70442, 70448), (70450, 70451), (70453, 70457), (70461, 70461), (70480,
   70480), (70493, 70497), (70656, 70708), (70727, 70730), (70751, 70753), (70784, 70831),
   (70852, 70853), (70855, 70855), (71040, 71086), (71128, 71131), (71168, 71215), (71236,
   71236), (71296, 71338), (71352, 71352), (71424, 71450), (71680, 71723), (71840, 71903),
   (71935, 71942), (71945, 71945), (71948, 71955), (71957, 71958), (71960, 71983), (71999,
   71999), (72001, 72001), (72096, 72103), (72106, 72144), (72161, 72161), (72163, 72163),
   (72192, 72192), (72203, 72242), (72250, 72250), (72272, 72272), (72284, 72329), (72349,
   72349), (72384, 72440), (72704, 72712), (72714, 72750), (72768, 72768), (72818, 72847),
   (72960, 72966), (72968, 72969), (72971, 73008), (73030, 73030), (73056, 73061), (73063,
   73064), (73066, 73097), (73112, 73112), (73440, 73458), (73648, 73648), (73728, 74649),
   (74880, 75075), (77824, 78894), (82944, 83526), (92160, 92728), (92736, 92766), (92880,
   92909), (92928, 92975), (92992, 92995), (93027, 93047), (93053, 93071), (93760, 93823),
   (93952, 94026), (94032, 94032), (94099, 94111), (94176, 94177), (94179, 94179), (94208,
   100343), (100352, 101589), (101632, 101640), (110592, 110878), (110928, 110930), (110948,
   110951), (110960, 111355), (113664, 113770), (113776, 113788), (113792, 113800), (113808,
   113817), (119808, 119892), (119894, 119964), (119966, 119967), (119970, 119970), (119973,
   119974), (119977, 119980), (119982, 119993), (119995, 119995), (119997, 120003), (120005,
   120069), (120071, 120074), (120077, 120084), (120086, 120092), (120094, 120121), (120123,
   120126), (120128, 120132), (120134, 120134), (120138, 120144), (120146, 120485), (120488,
   120512), (120514, 120538), (120540, 120570), (120572, 120596), (120598, 120628), (120630,
   120654), (120656, 120686), (120688, 120712), (120714, 120744), (120746, 120770), (120772,
   120779), (123136, 123180), (123191, 123197), (123214, 123214), (123584, 123627), (124928,
   125124), (125184, 125251), (125259, 125259), (126464, 126467), (126469, 126495), (126497,
   126498), (126500, 126500), (126503, 126503), (126505, 126514), (126516, 126519), (126521,
   126521), (126523, 126523), (126530, 126530), (126535, 126535), (126537, 126537), (126539,
   126539), (126541, 126543), (126545, 126546), (126548, 126548), (126551, 126551), (126553,
   126553), (126555, 126555), (126557, 126557), (126559, 126559), (126561, 126562), (126564,
   126564), (126567, 126570), (126572, 126578), (126580, 126583), (126585, 126588), (126590,
   126590), (126592, 126601), (126603, 126619), (126625, 126627), (126629, 126633), (126635,
   126651), (131072, 173789), (173824, 177972), (177984, 178205), (178208, 183969), (183984,
   191456), (194560, 195101), (196608, 201546)]"

definition is_ascii_letter :: "rune \<Rightarrow> bool" where
  "is_ascii_letter r \<longleftrightarrow> (65 \<le> r \<and> r \<le> 90) \<or> (97 \<le> r \<and> r \<le> 122)"

definition unicode_IsLetter :: "rune \<Rightarrow> bool" where
  "unicode_IsLetter r \<longleftrightarrow>
     (if r < 128 then is_ascii_letter r
      else list_ex (\<lambda>(lo, hi). lo \<le> r \<and> r \<le> hi) letter_ranges)"

lemma RuneError_not_space [simp]: "\<not> unicode_IsSpace RuneError"
  by (simp add: unicode_IsSpace_def)

section \<open>strings\<close>

text \<open>
  \<open>strings.ToLower\<close>. Above ASCII only the two code points whose lower case is an ASCII
  letter are mapped (U+0130 to \<open>i\<close>, U+212A to \<open>k\<close>): every caller compares the result with
  an ASCII word, or applies it to a field name, which is ASCII.
\<close>

definition lower_rune :: "rune \<Rightarrow> rune" where
  "lower_rune r =
     (if 65 \<le> r \<and> r \<le> 90 then r + 32 else if r = 304 then 105 else if r = 8490 then 107 else r)"

definition strings_ToLower :: "string \<Rightarrow> string" where
  "strings_ToLower s = string_of_runes (map lower_rune (runes s))"

text \<open>
  \<open>strings.EqualFold(s, t)\<close> against an ASCII word: besides the other case, simple folding
  relates \<open>s\<close> to U+017F and \<open>k\<close> to U+212A.
\<close>

definition fold_rune :: "rune \<Rightarrow> rune" where
  "fold_rune r =
     (if 65 \<le> r \<and> r \<le> 90 then r + 32 else if r = 383 then 115 else if r = 8490 then 107 else r)"

definition strings_EqualFold :: "string \<Rightarrow> string \<Rightarrow> bool" where
  "strings_EqualFold s t \<longleftrightarrow> map fold_rune (runes s) = map fold_rune (runes t)"

text \<open>\<open>strings.TrimSpace(s) == ""\<close>: every rune is a space.\<close>

definition is_blank :: "string \<Rightarrow> bool" where
  "is_blank s \<longleftrightarrow> list_all unicode_IsSpace (runes s)"

definition strings_HasPrefix :: "string \<Rightarrow> string \<Rightarrow> bool" where
  "strings_HasPrefix s p \<longleftrightarrow> take (length p) s = p"

text \<open>\<open>strings.Index\<close> with a one-byte needle, \<open>strings.Split\<close> with a one-byte separator and
  \<open>strings.Join\<close>.\<close>

fun strings_IndexByte :: "string \<Rightarrow> char \<Rightarrow> nat option" where
  "strings_IndexByte [] c = None"
| "strings_IndexByte (b # s) c = (if b = c then Some 0 else map_option Suc (strings_IndexByte s c))"

fun strings_Split :: "string \<Rightarrow> char \<Rightarrow> string list" where
  "strings_Split [] c = [[]]"
| "strings_Split (b # s) c =
     (if b = c then [] # strings_Split s c
      else case strings_Split s c of [] \<Rightarrow> [[b]] | x # xs \<Rightarrow> (b # x) # xs)"

fun strings_Join :: "string list \<Rightarrow> string \<Rightarrow> string" where
  "strings_Join [] sep = []"
| "strings_Join [s] sep = s"
| "strings_Join (s # t # ss) sep = s @ sep @ strings_Join (t # ss) sep"

fun strings_Contains :: "string \<Rightarrow> string \<Rightarrow> bool" where
  "strings_Contains [] p \<longleftrightarrow> p = []"
| "strings_Contains (b # s) p \<longleftrightarrow> strings_HasPrefix (b # s) p \<or> strings_Contains s p"

text \<open>\<open>strings.ReplaceAll(s, old, new)\<close> for a non-empty \<open>old\<close>.\<close>

function strings_ReplaceAll :: "string \<Rightarrow> string \<Rightarrow> string \<Rightarrow> string" where
  "strings_ReplaceAll s old new =
     (if s = [] \<or> old = [] then s
      else if strings_HasPrefix s old then new @ strings_ReplaceAll (drop (length old) s) old new
      else hd s # strings_ReplaceAll (tl s) old new)"
  by pat_completeness auto
termination
  by (relation "measure (\<lambda>(s, old, new). length s)") auto

declare strings_ReplaceAll.simps [simp del]

lemma strings_Split_nonempty [simp]: "strings_Split s c \<noteq> []"
  by (induction s) (auto split: list.split)

lemma strings_Join_Split: "strings_Join (strings_Split s c) [c] = s"
proof (induction s)
  case (Cons b s)
  obtain x xs where "strings_Split s c = x # xs"
    using strings_Split_nonempty by (metis neq_Nil_conv)
  with Cons show ?case by (cases xs) auto
qed simp

lemma strings_Split_no_sep: "\<forall>p \<in> set (strings_Split s c). c \<notin> set p"
  by (induction s) (auto split: list.splits)

lemma strings_Split_Join:
  "ps \<noteq> [] \<Longrightarrow> \<forall>p \<in> set ps. c \<notin> set p \<Longrightarrow> strings_Split (strings_Join ps [c]) c = ps"
proof (induction ps "[c]" rule: strings_Join.induct)
  case (2 s)
  have "c \<notin> set s \<Longrightarrow> strings_Split s c = [s]" by (induction s) auto
  with 2 show ?case by simp
next
  case (3 s t ss)
  have "c \<notin> set s \<Longrightarrow> strings_Split (s @ c # rest) c = s # strings_Split rest c" for rest
    by (induction s) auto
  with 3 show ?case by simp
qed simp

lemma strings_IndexByte_None: "strings_IndexByte s c = None \<longleftrightarrow> c \<notin> set s"
  by (induction s) auto

lemma strings_IndexByte_Some:
  "strings_IndexByte s c = Some i \<Longrightarrow> i < length s \<and> s ! i = c \<and> c \<notin> set (take i s)"
  by (induction s arbitrary: i) (auto split: if_splits)

end
