(* ===== verification/Query_Types.thy ===== *)
theory Query_Types
  imports Go_Text
begin

text \<open>
  The data of the query language (\<open>internal/search/query\<close>: the node types of
  \<open>parser.go\<close>, \<open>labels.go\<close>, \<open>range.go\<close>, \<open>fields.go\<close>, the search types of \<open>types.go\<close>), the
  traversals of \<open>visitor.go\<close> and the tree predicates of \<open>validate.go\<close> that the parser uses.

  A Go \<open>Node\<close> interface value is a \<open>node\<close>; a nil interface is modelled by \<open>None\<close> of
  \<open>node option\<close> where the code allows nil. A visitor calls its callbacks in traversal
  order, so a traversal is the list of those calls and a callback with captured state is a
  fold over that list.
\<close>

unbundle bit_operations_syntax

section \<open>Labels (labels.go)\<close>

type_synonym labels = "16 word"

abbreviation None_label :: labels where "None_label \<equiv> 0"
abbreviation Literal :: labels where "Literal \<equiv> 2"
abbreviation Regexp :: labels where "Regexp \<equiv> 4"
abbreviation Quoted :: labels where "Quoted \<equiv> 8"
abbreviation HeuristicParensAsPatterns :: labels where "HeuristicParensAsPatterns \<equiv> 16"
abbreviation HeuristicDanglingParens :: labels where "HeuristicDanglingParens \<equiv> 32"
abbreviation HeuristicHoisted :: labels where "HeuristicHoisted \<equiv> 64"
abbreviation Structural :: labels where "Structural \<equiv> 128"
abbreviation IsPredicate :: labels where "IsPredicate \<equiv> 256"
abbreviation IsAlias :: labels where "IsAlias \<equiv> 512"
abbreviation Standard :: labels where "Standard \<equiv> 1024"

definition IsSet :: "labels \<Rightarrow> labels \<Rightarrow> bool" where
  "IsSet l label \<longleftrightarrow> l AND label \<noteq> 0"

definition Set_label :: "labels \<Rightarrow> labels \<Rightarrow> labels" where
  "Set_label l label = l OR label"

definition Unset_label :: "labels \<Rightarrow> labels \<Rightarrow> labels" where
  "Unset_label l label = l AND NOT label"

section \<open>Ranges (range.go) and nodes (parser.go)\<close>

record position =
  Line :: int
  Column :: int

record src_range =
  Start :: position
  End :: position

definition newRange :: "nat \<Rightarrow> nat \<Rightarrow> src_range" where
  "newRange start end_pos =
     \<lparr>Start = \<lparr>Line = 0, Column = int start\<rparr>, End = \<lparr>Line = 0, Column = int end_pos\<rparr>\<rparr>"

record annotation =
  ann_Labels :: labels
  ann_Range :: src_range

text \<open>The zero value of \<open>Annotation\<close>.\<close>

definition zero_annotation :: annotation where
  "zero_annotation = \<lparr>ann_Labels = 0, ann_Range = newRange 0 0\<rparr>"

record pattern =
  pat_Value :: string
  pat_Negated :: bool
  pat_Annotation :: annotation

record parameter =
  par_Field :: string
  par_Value :: string
  par_Negated :: bool
  par_Annotation :: annotation

datatype OperatorKind = Or | And | Concat

datatype node =
    Pattern pattern
  | Parameter parameter
  | Operator OperatorKind "node list" annotation

text \<open>\<open>Parameter{}\<close>, the empty group.\<close>

definition zero_parameter :: parameter where
  "zero_parameter =
     \<lparr>par_Field = [], par_Value = [], par_Negated = False, par_Annotation = zero_annotation\<rparr>"

datatype SearchType =
    SearchTypeRegex
  | SearchTypeLiteral
  | SearchTypeStructural
  | SearchTypeLucky
  | SearchTypeStandard
  | SearchTypeKeyword

section \<open>Fields (fields.go)\<close>

abbreviation (input) FieldDefault :: string where "FieldDefault \<equiv> ''''"
abbreviation (input) FieldCase :: string where "FieldCase \<equiv> ''case''"
abbreviation (input) FieldRepo :: string where "FieldRepo \<equiv> ''repo''"
abbreviation (input) FieldFile :: string where "FieldFile \<equiv> ''file''"
abbreviation (input) FieldFork :: string where "FieldFork \<equiv> ''fork''"
abbreviation (input) FieldArchived :: string where "FieldArchived \<equiv> ''archived''"
abbreviation (input) FieldLang :: string where "FieldLang \<equiv> ''lang''"
abbreviation (input) FieldType :: string where "FieldType \<equiv> ''type''"
abbreviation (input) FieldRepoHasFile :: string where "FieldRepoHasFile \<equiv> ''repohasfile''"
abbreviation (input) FieldRepoHasCommitAfter :: string where
  "FieldRepoHasCommitAfter \<equiv> ''repohascommitafter''"
abbreviation (input) FieldPatternType :: string where "FieldPatternType \<equiv> ''patterntype''"
abbreviation (input) FieldContent :: string where "FieldContent \<equiv> ''content''"
abbreviation (input) FieldVisibility :: string where "FieldVisibility \<equiv> ''visibility''"
abbreviation (input) FieldRev :: string where "FieldRev \<equiv> ''rev''"
abbreviation (input) FieldContext :: string where "FieldContext \<equiv> ''context''"
abbreviation (input) FieldBefore :: string where "FieldBefore \<equiv> ''before''"
abbreviation (input) FieldAfter :: string where "FieldAfter \<equiv> ''after''"
abbreviation (input) FieldAuthor :: string where "FieldAuthor \<equiv> ''author''"
abbreviation (input) FieldCommitter :: string where "FieldCommitter \<equiv> ''committer''"
abbreviation (input) FieldMessage :: string where "FieldMessage \<equiv> ''message''"
abbreviation (input) FieldIndex :: string where "FieldIndex \<equiv> ''index''"
abbreviation (input) FieldCount :: string where "FieldCount \<equiv> ''count''"
abbreviation (input) FieldTimeout :: string where "FieldTimeout \<equiv> ''timeout''"
abbreviation (input) FieldCombyRule :: string where "FieldCombyRule \<equiv> ''rule''"
abbreviation (input) FieldSelect :: string where "FieldSelect \<equiv> ''select''"

definition allFields :: "string list" where
  "allFields =
     [FieldCase, FieldRepo, ''r'', FieldContext, ''g'', FieldFile, ''f'', ''path'', FieldFork,
      FieldArchived, FieldLang, ''l'', ''language'', FieldType, FieldPatternType, FieldContent,
      FieldVisibility, FieldRepoHasFile, FieldRepoHasCommitAfter, FieldBefore, ''until'',
      FieldAfter, ''since'', FieldAuthor, FieldCommitter, FieldMessage, ''m'', ''msg'',
      FieldIndex, FieldCount, FieldTimeout, FieldCombyRule, FieldRev, ''revision'', FieldSelect]"

definition aliases :: "(string \<times> string) list" where
  "aliases =
     [(''r'', FieldRepo), (''f'', FieldFile), (''path'', FieldFile), (''l'', FieldLang),
      (''language'', FieldLang), (''since'', FieldAfter), (''until'', FieldBefore),
      (''m'', FieldMessage), (''msg'', FieldMessage), (''revision'', FieldRev)]"

definition resolveFieldAlias :: "string \<Rightarrow> string" where
  "resolveFieldAlias field =
     (case map_of aliases field of Some canonical \<Rightarrow> canonical | None \<Rightarrow> field)"

section \<open>Predicate registry (predicate.go)\<close>

datatype predicate_kind =
    RepoContainsFilePredicate
  | RepoContainsPathPredicate
  | RepoContainsContentPredicate
  | RepoContainsCommitAfterPredicate
  | RepoHasDescriptionPredicate
  | RepoHasTagPredicate
  | RepoHasKVPPredicate
  | RepoHasKeyPredicate
  | RepoHasMetaPredicate
  | RepoHasTopicPredicate
  | RepoContainsPredicate
  | FileContainsContentPredicate
  | FileHasOwnerPredicate

type_synonym predicate_table = "(string \<times> predicate_kind) list"
type_synonym predicate_registry = "(string \<times> predicate_table) list"

definition DefaultPredicateRegistry :: predicate_registry where
  "DefaultPredicateRegistry =
     [(FieldRepo,
       [(''contains.file'', RepoContainsFilePredicate),
        (''has.file'', RepoContainsFilePredicate),
        (''contains.path'', RepoContainsPathPredicate),
        (''has.path'', RepoContainsPathPredicate),
        (''contains.content'', RepoContainsContentPredicate),
        (''has.content'', RepoContainsContentPredicate),
        (''contains.commit.after'', RepoContainsCommitAfterPredicate),
        (''has.commit.after'', RepoContainsCommitAfterPredicate),
        (''has.description'', RepoHasDescriptionPredicate),
        (''has.tag'', RepoHasTagPredicate),
        (''has'', RepoHasKVPPredicate),
        (''has.key'', RepoHasKeyPredicate),
        (''has.meta'', RepoHasMetaPredicate),
        (''has.topic'', RepoHasTopicPredicate),
        (''contains'', RepoContainsPredicate)]),
      (FieldFile,
       [(''contains.content'', FileContainsContentPredicate),
        (''has.content'', FileContainsContentPredicate),
        (''has.owner'', FileHasOwnerPredicate)])]"

section \<open>Errors\<close>

text \<open>
  The errors of parsing and partitioning, one constructor per message of the source.
  \<open>Panicked\<close> is a run-time panic; \<open>OutOfFuel\<close> marks a parser run that used up the bound on
  its recursion depth, and is proved unreachable from \<open>Parse\<close>.
\<close>

datatype query_error =
    ExpectedOperand nat
  | UnsupportedError
  | UnclearParentheses
  | NotBeforeExpression
  | NotBeforeNegatedField string string
  | UnterminatedLiteral rune
  | UnterminatedEscape
  | UnrecognizedEscape
  | UnbalancedExpression
  | ShortBuffer
  | ImpureLiteral bool
  | HoistNotSingle
  | HoistNotOperator
  | HoistPartition
  | HoistUnnatural
  | HoistInner node
  | Panicked
  | OutOfFuel

section \<open>Visitors (visitor.go) and tree predicates (validate.go)\<close>

datatype visit_call =
    CallOperator OperatorKind "node list"
  | CallParameter parameter
  | CallPattern pattern

text \<open>\<open>Visitor.Visit\<close> on each node of a list: the callbacks in call order.\<close>

fun visit_calls :: "node list \<Rightarrow> visit_call list" where
  "visit_calls [] = []"
| "visit_calls (Operator k operands a # ns) =
     CallOperator k operands # visit_calls operands @ visit_calls ns"
| "visit_calls (Parameter p # ns) = CallParameter p # visit_calls ns"
| "visit_calls (Pattern p # ns) = CallPattern p # visit_calls ns"

definition VisitParameter :: "node list \<Rightarrow> parameter list" where
  "VisitParameter nodes =
     concat (map (\<lambda>c. case c of CallParameter p \<Rightarrow> [p] | _ \<Rightarrow> []) (visit_calls nodes))"

definition VisitPattern :: "node list \<Rightarrow> pattern list" where
  "VisitPattern nodes =
     concat (map (\<lambda>c. case c of CallPattern p \<Rightarrow> [p] | _ \<Rightarrow> []) (visit_calls nodes))"

definition VisitField :: "node list \<Rightarrow> string \<Rightarrow> parameter list" where
  "VisitField nodes field = filter (\<lambda>p. par_Field p = field) (VisitParameter nodes)"

fun Exists :: "node list \<Rightarrow> (node \<Rightarrow> bool) \<Rightarrow> bool" where
  "Exists [] fn \<longleftrightarrow> False"
| "Exists (Operator k operands a # ns) fn \<longleftrightarrow>
     (if fn (Operator k operands a) then True
      else if Exists operands fn then True else Exists ns fn)"
| "Exists (n # ns) fn \<longleftrightarrow> (if fn n then True else Exists ns fn)"

fun ForAll :: "node list \<Rightarrow> (node \<Rightarrow> bool) \<Rightarrow> bool" where
  "ForAll [] fn \<longleftrightarrow> True"
| "ForAll (Operator k operands a # ns) fn \<longleftrightarrow>
     (if \<not> fn (Operator k operands a) then False else ForAll operands fn)"
| "ForAll (n # ns) fn \<longleftrightarrow> (if \<not> fn n then False else ForAll ns fn)"

fun is_Parameter_node :: "node \<Rightarrow> bool" where
  "is_Parameter_node (Parameter p) = True"
| "is_Parameter_node _ = False"

fun is_Pattern_node :: "node \<Rightarrow> bool" where
  "is_Pattern_node (Pattern p) = True"
| "is_Pattern_node _ = False"

definition isPatternExpression :: "node list \<Rightarrow> bool" where
  "isPatternExpression nodes \<longleftrightarrow> \<not> Exists nodes is_Parameter_node"

definition containsPattern :: "node \<Rightarrow> bool" where
  "containsPattern n \<longleftrightarrow> Exists [n] is_Pattern_node"

section \<open>Subterms\<close>

text \<open>All nodes of a tree, parents first: the nodes \<open>Exists\<close> inspects.\<close>

fun subnodes :: "node list \<Rightarrow> node list" where
  "subnodes [] = []"
| "subnodes (Operator k operands a # ns) =
     Operator k operands a # subnodes operands @ subnodes ns"
| "subnodes (Parameter p # ns) = Parameter p # subnodes ns"
| "subnodes (Pattern p # ns) = Pattern p # subnodes ns"

lemma Exists_subnodes: "Exists nodes fn \<longleftrightarrow> (\<exists>n \<in> set (subnodes nodes). fn n)"
  by (induction nodes rule: subnodes.induct) auto

lemma subnodes_append [simp]: "subnodes (xs @ ys) = subnodes xs @ subnodes ys"
  by (induction xs rule: subnodes.induct) auto

lemma visit_calls_append [simp]: "visit_calls (xs @ ys) = visit_calls xs @ visit_calls ys"
  by (induction xs rule: visit_calls.induct) auto

lemma VisitParameter_simps [simp, node_simps]:
  "VisitParameter [] = []"
  "VisitParameter (Operator k operands a # ns) = VisitParameter operands @ VisitParameter ns"
  "VisitParameter (Parameter p # ns) = p # VisitParameter ns"
  "VisitParameter (Pattern q # ns) = VisitParameter ns"
  "VisitParameter (xs @ ys) = VisitParameter xs @ VisitParameter ys"
  by (simp_all add: VisitParameter_def)

lemma VisitPattern_simps [simp, node_simps]:
  "VisitPattern [] = []"
  "VisitPattern (Operator k operands a # ns) = VisitPattern operands @ VisitPattern ns"
  "VisitPattern (Parameter p # ns) = VisitPattern ns"
  "VisitPattern (Pattern q # ns) = q # VisitPattern ns"
  "VisitPattern (xs @ ys) = VisitPattern xs @ VisitPattern ys"
  by (simp_all add: VisitPattern_def)

lemma VisitField_append [simp]:
  "VisitField (xs @ ys) field = VisitField xs field @ VisitField ys field"
  by (simp add: VisitField_def)

lemma isPatternExpression_no_parameters:
  "isPatternExpression nodes \<longleftrightarrow> VisitParameter nodes = []"
  unfolding isPatternExpression_def
  by (induction nodes rule: visit_calls.induct) auto

lemma isPatternExpression_simps [simp]:
  "isPatternExpression []"
  "isPatternExpression (Pattern q # ns) \<longleftrightarrow> isPatternExpression ns"
  "\<not> isPatternExpression (Parameter p # ns)"
  "isPatternExpression (Operator k operands a # ns) \<longleftrightarrow>
     isPatternExpression operands \<and> isPatternExpression ns"
  by (simp_all add: isPatternExpression_no_parameters)

lemma isPatternExpression_append [simp]:
  "isPatternExpression (xs @ ys) \<longleftrightarrow> isPatternExpression xs \<and> isPatternExpression ys"
  by (simp add: isPatternExpression_no_parameters)

end
