(* ===== verification/Query_Scan.thy ===== *)
theory Query_Scan
  imports Query_Types
begin

text \<open>
  The scanners of \<open>internal/search/query/parser.go\<close>: \<open>skipSpace\<close>, \<open>ScanAnyPattern\<close>,
  \<open>ScanBalancedPattern\<close>, \<open>ScanPredicate\<close>, \<open>ScanBalancedParens\<close>, \<open>ScanDelimited\<close>,
  \<open>ScanField\<close> and \<open>ScanValue\<close>. Each reads runes from the front of a byte buffer and returns
  what it scanned and how many bytes it consumed. A loop of the source is a recursive
  function over the remaining buffer that carries the loop's variables.

  Shown here: every scanner stays inside its buffer; on well-formed UTF-8 what a pattern
  scanner returns is exactly the bytes it consumed; a balanced pattern is balanced; quoting
  and \<open>ScanDelimited\<close> are inverse; and \<open>ScanField\<close> accepts exactly the declared field syntax.
\<close>

section \<open>Definitions\<close>

abbreviation r_lparen :: rune where "r_lparen \<equiv> 40"
abbreviation r_rparen :: rune where "r_rparen \<equiv> 41"
abbreviation r_backslash :: rune where "r_backslash \<equiv> 92"
abbreviation r_minus :: rune where "r_minus \<equiv> 45"
abbreviation r_colon :: rune where "r_colon \<equiv> 58"
abbreviation r_dot :: rune where "r_dot \<equiv> 46"
abbreviation r_dquote :: rune where "r_dquote \<equiv> 34"
abbreviation r_squote :: rune where "r_squote \<equiv> 39"
abbreviation r_slash :: rune where "r_slash \<equiv> 47"

definition isSpace :: "string \<Rightarrow> bool" where
  "isSpace buf = unicode_IsSpace (fst (DecodeRune buf))"

function skipSpace_loop :: "string \<Rightarrow> nat \<Rightarrow> nat" where
  "skipSpace_loop buf count =
     (if buf = [] then count
      else case DecodeRune buf of (r, advance) \<Rightarrow>
        if \<not> unicode_IsSpace r then count
        else skipSpace_loop (drop advance buf) (count + advance))"
  by pat_completeness auto
termination
  by (relation "measure (\<lambda>(buf, _). length buf)") (auto dest: DecodeRune_shrinks [OF sym])

definition skipSpace :: "string \<Rightarrow> nat" where
  "skipSpace buf = skipSpace_loop buf 0"

function ScanAnyPattern_loop :: "string \<Rightarrow> nat \<Rightarrow> rune list \<Rightarrow> rune list \<times> nat" where
  "ScanAnyPattern_loop buf count result =
     (if buf = [] then (result, count)
      else case DecodeRune buf of (r, advance) \<Rightarrow>
        if unicode_IsSpace r then (result, count)
        else ScanAnyPattern_loop (drop advance buf) (count + advance) (result @ [r]))"
  by pat_completeness auto
termination
  by (relation "measure (\<lambda>(buf, _, _). length buf)") (auto dest: DecodeRune_shrinks [OF sym])

definition ScanAnyPattern :: "string \<Rightarrow> string \<times> nat" where
  "ScanAnyPattern buf =
     (case ScanAnyPattern_loop buf 0 [] of (result, count) \<Rightarrow> (string_of_runes result, count))"

subsection \<open>Fields\<close>

function ScanField_loop :: "string \<Rightarrow> nat \<Rightarrow> rune list \<Rightarrow> (rune list \<times> nat) option" where
  "ScanField_loop buf count result =
     (if buf = [] then None
      else case DecodeRune buf of (r, advance) \<Rightarrow>
        if is_ascii_letter r
        then ScanField_loop (drop advance buf) (count + advance) (result @ [r])
        else if r = r_colon \<and> (hd result \<noteq> r_minus \<or> 1 < length result)
        then Some (result, count + advance)
        else None)"
  by pat_completeness auto
termination
  by (relation "measure (\<lambda>(buf, _, _). length buf)") (auto dest: DecodeRune_shrinks [OF sym])

definition ScanField :: "string \<Rightarrow> string \<times> bool \<times> nat" where
  "ScanField buf =
     (case DecodeRune buf of (r, advance) \<Rightarrow>
        if r \<noteq> r_minus \<and> \<not> is_ascii_letter r then ([], False, 0)
        else case ScanField_loop (drop advance buf) advance [r] of
          None \<Rightarrow> ([], False, 0)
        | Some (result, count) \<Rightarrow>
            let field = string_of_runes result;
                negated = (hd field = CHR ''-'');
                field = (if negated then tl field else field)
            in if strings_ToLower field \<in> set allFields then (field, negated, count)
               else ([], False, 0))"

subsection \<open>Balanced patterns\<close>

definition lookahead :: "string \<Rightarrow> string \<Rightarrow> bool" where
  "lookahead buf v \<longleftrightarrow>
     (if length buf < length v then False else strings_EqualFold (take (length v) buf) v)"

definition keepScanning :: "string \<Rightarrow> bool" where
  "keepScanning buf \<longleftrightarrow>
     (if fst (ScanField buf) \<noteq> [] then False
      else if lookahead buf ''and '' \<or> lookahead buf ''or '' \<or> lookahead buf ''not '' then False
      else True)"

function ScanBalancedPattern_loop ::
    "string \<Rightarrow> nat \<Rightarrow> int \<Rightarrow> rune list \<Rightarrow> (rune list \<times> nat \<times> int) option" where
  "ScanBalancedPattern_loop buf count balanced result =
     (if buf = [] then Some (result, count, balanced)
      else case DecodeRune buf of (r, advance) \<Rightarrow>
        let rest = drop advance buf; count' = count + advance in
        if unicode_IsSpace r \<and> balanced = 0 then Some (result, count, balanced)
        else if r = r_lparen then
          (if \<not> keepScanning rest then None
           else ScanBalancedPattern_loop rest count' (balanced + 1) (result @ [r]))
        else if r = r_rparen then
          (if balanced - 1 < 0 then Some (result, count, 0)
           else ScanBalancedPattern_loop rest count' (balanced - 1) (result @ [r]))
        else if unicode_IsSpace r then
          (if \<not> keepScanning rest then None
           else ScanBalancedPattern_loop rest count' balanced (result @ [r]))
        else if r = r_backslash then
          (if rest \<noteq> [] then
             (case DecodeRune rest of (r', advance') \<Rightarrow>
                ScanBalancedPattern_loop (drop advance' rest) (count' + advance') balanced
                  (result @ [r_backslash, r']))
           else ScanBalancedPattern_loop rest count' balanced (result @ [r]))
        else ScanBalancedPattern_loop rest count' balanced (result @ [r]))"
  by pat_completeness auto
termination
proof (relation "measure (\<lambda>(buf, _, _, _). length buf)", goal_cases)
  case 1
  show ?case by simp
qed (use DecodeRune_advance in \<open>fastforce simp: Let_def dest: sym\<close>)+

definition ScanBalancedPattern :: "string \<Rightarrow> string \<times> nat \<times> bool" where
  "ScanBalancedPattern buf =
     (if \<not> keepScanning buf then ([], 0, False)
      else case ScanBalancedPattern_loop buf 0 0 [] of
        None \<Rightarrow> ([], 0, False)
      | Some (result, count, balanced) \<Rightarrow> (string_of_runes result, count, balanced = 0))"

subsection \<open>Values\<close>

text \<open>The loop of \<open>ScanValue\<close>; its local \<open>balanced\<close> counter is written and never read.\<close>

function ScanValue_loop :: "bool \<Rightarrow> string \<Rightarrow> nat \<Rightarrow> rune list \<Rightarrow> rune list \<times> nat" where
  "ScanValue_loop allowDangling buf count result =
     (if buf = [] then (result, count)
      else case DecodeRune buf of (r, advance) \<Rightarrow>
        let rest = drop advance buf; count' = count + advance in
        if unicode_IsSpace r then (result, count)
        else if r = r_lparen \<or> r = r_rparen then
          (if allowDangling then ScanValue_loop allowDangling rest count' (result @ [r])
           else (result, count))
        else if r = r_backslash \<and> rest \<noteq> [] then
          (case DecodeRune rest of (r', advance') \<Rightarrow>
             ScanValue_loop allowDangling (drop advance' rest) (count' + advance')
               (result @ [r_backslash, r']))
        else ScanValue_loop allowDangling rest count' (result @ [r]))"
  by pat_completeness auto
termination
proof (relation "measure (\<lambda>(_, buf, _, _). length buf)", goal_cases)
  case 1
  show ?case by simp
qed (use DecodeRune_advance in \<open>fastforce simp: Let_def dest: sym\<close>)+

definition ScanValue :: "string \<Rightarrow> bool \<Rightarrow> string \<times> nat" where
  "ScanValue buf allowDangling =
     (case ScanValue_loop allowDangling buf 0 [] of (result, count) \<Rightarrow>
        (string_of_runes result, count))"

subsection \<open>Predicates\<close>

function ScanPredicateName_loop :: "string \<Rightarrow> nat \<Rightarrow> string \<times> nat" where
  "ScanPredicateName_loop buf advance =
     (case DecodeRune (drop advance buf) of (r, i) \<Rightarrow>
        if r = RuneError then ([], advance)
        else if \<not> (unicode_IsLetter r \<or> r = r_dot) then (take advance buf, advance)
        else ScanPredicateName_loop buf (advance + i))"
  by pat_completeness auto
termination
  by (relation "measure (\<lambda>(buf, advance). length buf - advance)")
     (auto dest!: DecodeRune_proper [OF sym])

definition ScanPredicateName :: "string \<Rightarrow> predicate_table \<Rightarrow> (string \<times> nat) option" where
  "ScanPredicateName buf lookup =
     (case ScanPredicateName_loop buf 0 of (predicateName, advance) \<Rightarrow>
        if map_of lookup predicateName = None then None else Some (predicateName, advance))"

function ScanBalancedParens_loop ::
    "string \<Rightarrow> nat \<Rightarrow> int \<Rightarrow> rune list \<Rightarrow> (rune list \<times> nat) option" where
  "ScanBalancedParens_loop buf count balance result =
     (case DecodeRune buf of (r, advance) \<Rightarrow>
        if r = RuneError then None
        else
          let rest = drop advance buf; count' = count + advance; result' = result @ [r];
              balance' = (if r = r_lparen then balance + 1
                          else if r = r_rparen then balance - 1 else balance);
              (r', advance') = (if r = r_backslash then DecodeRune rest else (0, 0));
              result'' = (if r = r_backslash then result' @ [r'] else result')
          in if balance' = 0 then Some (result'', count' + advance')
             else ScanBalancedParens_loop (drop advance' rest) (count' + advance') balance' result'')"
  by pat_completeness auto
termination
  by (relation "measure (\<lambda>(buf, _, _, _). length buf)")
     (auto dest!: DecodeRune_proper [OF sym])

text \<open>
  \<open>ScanBalancedParens\<close> panics on a buffer that does not start with an opening parenthesis;
  the outer option is that panic.
\<close>

definition ScanBalancedParens :: "string \<Rightarrow> (string \<times> nat) option option" where
  "ScanBalancedParens buf =
     (case DecodeRune buf of (r, advance) \<Rightarrow>
        if r \<noteq> r_lparen then None
        else Some (case ScanBalancedParens_loop (drop advance buf) advance 1 [r] of
                     None \<Rightarrow> None
                   | Some (result, count) \<Rightarrow> Some (string_of_runes result, count)))"

definition ScanPredicate ::
    "string \<Rightarrow> string \<Rightarrow> predicate_registry \<Rightarrow> (string \<times> nat) option option" where
  "ScanPredicate field buf lookup =
     (case map_of lookup (resolveFieldAlias field) of
        None \<Rightarrow> Some None
      | Some fieldRegistry \<Rightarrow>
          (case ScanPredicateName buf fieldRegistry of
             None \<Rightarrow> Some None
           | Some (predicateName, nameAdvance) \<Rightarrow>
               let buf' = drop nameAdvance buf in
               if buf' = [] \<or> hd buf' \<noteq> CHR ''('' then Some None
               else (case ScanBalancedParens buf' of
                       None \<Rightarrow> None
                     | Some None \<Rightarrow> Some None
                     | Some (Some (params, paramsAdvance)) \<Rightarrow>
                         Some (Some (predicateName @ params, nameAdvance + paramsAdvance)))))"

subsection \<open>Delimited values\<close>

text \<open>The inner switch of \<open>ScanDelimited\<close>: what an escaped rune contributes.\<close>

definition escape_runes :: "bool \<Rightarrow> rune \<Rightarrow> rune \<Rightarrow> rune list option" where
  "escape_runes strict delimiter r =
     (if r = 97 \<or> r = 98 \<or> r = 102 \<or> r = 118 then Some [r_backslash, r]
      else if r = 110 then Some [10]
      else if r = 114 then Some [13]
      else if r = 116 then Some [9]
      else if r = r_backslash \<or> r = delimiter then Some [r]
      else if strict then None
      else Some [r_backslash, r])"

text \<open>
  The loop of \<open>ScanDelimited\<close>. The outer \<open>advance\<close> of the source is shadowed inside
  \<open>next\<close> and stays 0, so \<open>len(buf[advance:]) > 0\<close> tests the remaining buffer.
\<close>

function ScanDelimited_loop ::
    "bool \<Rightarrow> rune \<Rightarrow> string \<Rightarrow> nat \<Rightarrow> rune \<Rightarrow> rune list \<Rightarrow> query_error + (rune list \<times> nat \<times> rune)" where
  "ScanDelimited_loop strict delimiter buf count prev result =
     (if buf = [] then Inr (result, count, prev)
      else case DecodeRune buf of (r, advance) \<Rightarrow>
        let rest = drop advance buf; count' = count + advance in
        if r = delimiter then Inr (result, count', r)
        else if r = r_backslash then
          (if rest \<noteq> [] then
             (case DecodeRune rest of (r', advance') \<Rightarrow>
                (case escape_runes strict delimiter r' of
                   None \<Rightarrow> Inl UnrecognizedEscape
                 | Some out \<Rightarrow>
                     if drop advance' rest = [] then Inl (UnterminatedLiteral delimiter)
                     else ScanDelimited_loop strict delimiter (drop advance' rest)
                            (count' + advance') r' (result @ out)))
           else Inl UnterminatedEscape)
        else ScanDelimited_loop strict delimiter rest count' r (result @ [r]))"
  by pat_completeness auto
termination
proof (relation "measure (\<lambda>(_, _, buf, _, _, _). length buf)", goal_cases)
  case 1
  show ?case by simp
qed (use DecodeRune_advance in \<open>fastforce simp: Let_def dest: sym\<close>)+

definition ScanDelimited :: "string \<Rightarrow> bool \<Rightarrow> rune \<Rightarrow> query_error + (string \<times> nat)" where
  "ScanDelimited buf strict delimiter =
     (case DecodeRune buf of (r, advance) \<Rightarrow>
        if r \<noteq> delimiter then Inl Panicked
        else case ScanDelimited_loop strict delimiter (drop advance buf) advance r [] of
          Inl e \<Rightarrow> Inl e
        | Inr (result, count, prev) \<Rightarrow>
            if prev \<noteq> delimiter \<or> (prev = delimiter \<and> count = 1)
            then Inl (UnterminatedLiteral delimiter)
            else Inr (string_of_runes result, count))"

lemmas scan_loop_simps =
  skipSpace_loop.simps ScanAnyPattern_loop.simps ScanField_loop.simps
  ScanBalancedPattern_loop.simps ScanValue_loop.simps ScanPredicateName_loop.simps
  ScanBalancedParens_loop.simps ScanDelimited_loop.simps

declare scan_loop_simps [simp del]

section \<open>Consumed prefixes\<close>

text \<open>A step of a scanning loop extends the consumed prefix by one decoded rune.\<close>

lemma take_step:
  assumes "buf \<noteq> []" and "DecodeRune buf = (r, n)" and "m \<le> length (drop n buf)"
  shows "n + m \<le> length buf" and "take (n + m) buf = take n buf @ take m (drop n buf)"
    and "drop (n + m) buf = drop m (drop n buf)"
  using DecodeRune_advance [OF assms(2,1)] assms(3)
  by (simp_all add: take_add) (simp add: add.commute)

lemma skipSpace_loop_spec:
  "\<exists>n. skipSpace_loop buf count = count + n \<and> n \<le> length buf \<and>
       (drop n buf = [] \<or> \<not> isSpace (drop n buf))"
proof (induction buf count rule: skipSpace_loop.induct)
  case (1 buf count)
  obtain r a where d: "DecodeRune buf = (r, a)" by fastforce
  show ?case
  proof (cases "buf \<noteq> [] \<and> unicode_IsSpace r")
    case True
    with "1.IH" [OF _ d [symmetric]] obtain n where
      n: "skipSpace_loop (drop a buf) (count + a) = count + a + n" "n \<le> length (drop a buf)"
         "drop n (drop a buf) = [] \<or> \<not> isSpace (drop n (drop a buf))"
      by auto
    show ?thesis
      by (rule exI [of _ "a + n"])
         (use True d n take_step [OF _ d n(2)] in \<open>simp add: skipSpace_loop.simps [of buf]\<close>)
  next
    case False
    then show ?thesis
      by (intro exI [of _ 0]) (auto simp: skipSpace_loop.simps [of buf] d isSpace_def)
  qed
qed

lemma ScanAnyPattern_loop_spec:
  assumes "ScanAnyPattern_loop buf count result = (rs, c)"
  shows "\<exists>n rs'. c = count + n \<and> n \<le> length buf \<and> rs = result @ rs' \<and>
          list_all (\<lambda>r. \<not> unicode_IsSpace r) rs' \<and>
          (drop n buf = [] \<or> isSpace (drop n buf)) \<and>
          (valid_utf8 buf \<longrightarrow> string_of_runes rs' = take n buf)"
  using assms
proof (induction buf count result rule: ScanAnyPattern_loop.induct)
  case (1 buf count result)
  obtain r a where d: "DecodeRune buf = (r, a)" by fastforce
  show ?case
  proof (cases "buf \<noteq> [] \<and> \<not> unicode_IsSpace r")
    case True
    with "1.IH" [OF _ d [symmetric]] "1.prems" d obtain n rs' where
      n: "c = count + a + n" "n \<le> length (drop a buf)" "rs = (result @ [r]) @ rs'"
         "list_all (\<lambda>r. \<not> unicode_IsSpace r) rs'"
         "drop n (drop a buf) = [] \<or> isSpace (drop n (drop a buf))"
         "valid_utf8 (drop a buf) \<longrightarrow> string_of_runes rs' = take n (drop a buf)"
      by (auto simp: ScanAnyPattern_loop.simps [of buf])
    show ?thesis
      by (rule exI [of _ "a + n"], rule exI [of _ "r # rs'"])
         (use True n take_step [OF _ d n(2)] collect_rune [OF _ _ d] in auto)
  next
    case False
    then show ?thesis using "1.prems"
      by (intro exI [of _ 0]) (auto simp: ScanAnyPattern_loop.simps [of buf] d isSpace_def split: if_splits)
  qed
qed
text \<open>
  The two steps of an escape sequence, read as one: the consumed prefix grows by both runes.
\<close>

lemma take_escape:
  assumes "buf \<noteq> []" and d: "DecodeRune buf = (r, n)"
    and "drop n buf \<noteq> []" and d': "DecodeRune (drop n buf) = (r', n')"
    and "m \<le> length (drop n' (drop n buf))"
  shows "n + n' + m \<le> length buf"
    and "drop (n + n' + m) buf = drop m (drop n' (drop n buf))"
    and "valid_utf8 buf \<Longrightarrow>
           take (n + n' + m) buf = EncodeRune r @ EncodeRune r' @ take m (drop n' (drop n buf))"
    and "valid_utf8 buf \<Longrightarrow> valid_utf8 (drop n' (drop n buf))"
proof -
  note inner = take_step [OF assms(3) d' assms(5)]
  note outer = take_step [OF assms(1) d inner(1)]
  show "n + n' + m \<le> length buf" "drop (n + n' + m) buf = drop m (drop n' (drop n buf))"
    using inner outer by (simp_all add: add.assoc)
  assume v: "valid_utf8 buf"
  note c = collect_rune [OF v assms(1) d]
  note c' = collect_rune [OF c(2) assms(3) d']
  show "take (n + n' + m) buf = EncodeRune r @ EncodeRune r' @ take m (drop n' (drop n buf))"
    using inner(2) outer(2) c(1) c'(1) by (simp add: add.assoc)
  show "valid_utf8 (drop n' (drop n buf))" by (rule c'(2))
qed

lemma ScanValue_loop_spec:
  assumes "ScanValue_loop allowDangling buf count result = (rs, c)"
  shows "\<exists>n rs'. c = count + n \<and> n \<le> length buf \<and> rs = result @ rs' \<and>
          (valid_utf8 buf \<longrightarrow> string_of_runes rs' = take n buf)"
  using assms
proof (induction allowDangling buf count result rule: ScanValue_loop.induct)
  case (1 allowDangling buf count result)
  obtain r a where d: "DecodeRune buf = (r, a)" by fastforce
  obtain r' a' where d': "DecodeRune (drop a buf) = (r', a')" by fastforce
  let ?stop = "buf = [] \<or> unicode_IsSpace r \<or> ((r = r_lparen \<or> r = r_rparen) \<and> \<not> allowDangling)"
  consider "?stop" | (esc) "\<not> ?stop" "r = r_backslash" "drop a buf \<noteq> []"
    | (plain) "\<not> ?stop" "r \<noteq> r_backslash \<or> drop a buf = []"
    by blast
  then show ?case
  proof cases
    case 1
    with "1.prems" d show ?thesis
      by (intro exI [of _ 0]) (auto simp: ScanValue_loop.simps [of _ buf] Let_def split: if_splits)
  next
    case esc
    with "1.prems" d d' have
      "ScanValue_loop allowDangling (drop a' (drop a buf)) (count + a + a') (result @ [r_backslash, r'])
         = (rs, c)"
      by (auto simp: ScanValue_loop.simps [of _ buf] Let_def)
    with "1.IH"(2) [OF _ d [symmetric] refl refl _ _ _ d' [symmetric]] esc obtain n rs' where
      n: "c = count + a + a' + n" "n \<le> length (drop a' (drop a buf))"
         "rs = (result @ [r_backslash, r']) @ rs'"
         "valid_utf8 (drop a' (drop a buf)) \<longrightarrow> string_of_runes rs' = take n (drop a' (drop a buf))"
      by auto
    show ?thesis
      by (rule exI [of _ "a + a' + n"], rule exI [of _ "r_backslash # r' # rs'"])
         (use esc n take_escape [OF _ d esc(3) d' n(2)] in \<open>auto simp del: drop_drop\<close>)
  next
    case plain
    with "1.prems" d have step: 
      "ScanValue_loop allowDangling (drop a buf) (count + a) (result @ [r]) = (rs, c)"
      by (auto simp: ScanValue_loop.simps [of _ buf] Let_def split: if_splits)
    with "1.IH"(1,3) [OF _ d [symmetric] refl refl] plain obtain n rs' where
      n: "c = count + a + n" "n \<le> length (drop a buf)" "rs = (result @ [r]) @ rs'"
         "valid_utf8 (drop a buf) \<longrightarrow> string_of_runes rs' = take n (drop a buf)"
      by (cases "r = r_lparen \<or> r = r_rparen") auto
    show ?thesis
      by (rule exI [of _ "a + n"], rule exI [of _ "r # rs'"])
         (use plain n take_step [OF _ d n(2)] collect_rune [OF _ _ d] in auto)
  qed
qed

text \<open>
  Reading parentheses off a rune list, skipping escaped runes: the nesting depth after the
  list, or \<open>None\<close> where a closing parenthesis has no partner.
\<close>

fun paren_depth :: "int \<Rightarrow> rune list \<Rightarrow> int option" where
  "paren_depth d [] = Some d"
| "paren_depth d [r] =
     (if r = r_lparen then Some (d + 1)
      else if r = r_rparen then (if d \<le> 0 then None else Some (d - 1)) else Some d)"
| "paren_depth d (r # r' # rs) =
     (if r = r_backslash then paren_depth d rs
      else if r = r_lparen then paren_depth (d + 1) (r' # rs)
      else if r = r_rparen then (if d \<le> 0 then None else paren_depth (d - 1) (r' # rs))
      else paren_depth d (r' # rs))"

lemma paren_depth_Cons:
  "r \<noteq> r_backslash \<Longrightarrow> paren_depth d (r # rs) =
     (if r = r_lparen then paren_depth (d + 1) rs
      else if r = r_rparen then (if d \<le> 0 then None else paren_depth (d - 1) rs)
      else paren_depth d rs)"
  by (cases rs) auto

lemma ScanBalancedPattern_loop_spec:
  assumes "ScanBalancedPattern_loop buf count b result = Some (rs, c, b')" and "0 \<le> b"
  shows "\<exists>n rs'. c = count + n \<and> n \<le> length buf \<and> rs = result @ rs' \<and>
          paren_depth b rs' = Some b' \<and> 0 \<le> b' \<and>
          (valid_utf8 buf \<longrightarrow> string_of_runes rs' = take n buf)"
  using assms
proof (induction buf count b result rule: ScanBalancedPattern_loop.induct)
  case (1 buf count b result)
  obtain r a where d: "DecodeRune buf = (r, a)" by fastforce
  obtain r' a' where d': "DecodeRune (drop a buf) = (r', a')" by fastforce
  let ?stop = "buf = [] \<or> (unicode_IsSpace r \<and> b = 0) \<or> (r \<noteq> r_lparen \<and> r = r_rparen \<and> b - 1 < 0)"
  consider (stop) "?stop"
    | (esc) "\<not> ?stop" "r = r_backslash" "drop a buf \<noteq> []"
    | (last) "\<not> ?stop" "r = r_backslash" "drop a buf = []"
    | (plain) "\<not> ?stop" "r \<noteq> r_backslash"
    by blast
  then show ?case
  proof cases
    case stop
    with "1.prems" d show ?thesis
      by (intro exI [of _ 0])
         (auto simp: ScanBalancedPattern_loop.simps [of buf] Let_def split: if_splits)
  next
    case esc
    have nsp: "\<not> unicode_IsSpace r_backslash" by (simp add: unicode_IsSpace_def)
    from "1.prems" d d' esc nsp have
      "ScanBalancedPattern_loop (drop a' (drop a buf)) (count + a + a') b (result @ [r_backslash, r'])
         = Some (rs, c, b')"
      by (auto simp: ScanBalancedPattern_loop.simps [of buf] Let_def)
    with "1.IH"(4) [OF _ d [symmetric] refl refl _ _ _ _ _ _ d' [symmetric]] esc nsp "1.prems"(2)
    obtain n rs' where
      n: "c = count + a + a' + n" "n \<le> length (drop a' (drop a buf))"
         "rs = (result @ [r_backslash, r']) @ rs'" "paren_depth b rs' = Some b'" "0 \<le> b'"
         "valid_utf8 (drop a' (drop a buf)) \<longrightarrow> string_of_runes rs' = take n (drop a' (drop a buf))"
      by auto
    show ?thesis
      by (rule exI [of _ "a + a' + n"], rule exI [of _ "r_backslash # r' # rs'"])
         (use esc n take_escape [OF _ d esc(3) d' n(2)] in \<open>auto simp del: drop_drop\<close>)
  next
    case last
    have nsp: "\<not> unicode_IsSpace r_backslash" by (simp add: unicode_IsSpace_def)
    from "1.prems" d last nsp have "rs = result @ [r]" "c = count + a" "b' = b"
      by (auto simp: ScanBalancedPattern_loop.simps [of buf] Let_def
            ScanBalancedPattern_loop.simps [of "[]"])
    then show ?thesis using last "1.prems"(2) take_step [OF _ d, of 0] collect_rune [OF _ _ d]
      by (intro exI [of _ a] exI [of _ "[r]"]) auto
  next
    case plain
    define b1 where "b1 = (if r = r_lparen then b + 1 else if r = r_rparen then b - 1 else b)"
    from "1.prems" d plain have
      step: "ScanBalancedPattern_loop (drop a buf) (count + a) b1 (result @ [r]) = Some (rs, c, b')"
      by (auto simp: ScanBalancedPattern_loop.simps [of buf] Let_def b1_def split: if_splits)
    have "0 \<le> b1" using plain "1.prems"(2) by (auto simp: b1_def)
    have "\<exists>n rs'. c = count + a + n \<and> n \<le> length (drop a buf) \<and> rs = (result @ [r]) @ rs' \<and>
          paren_depth b1 rs' = Some b' \<and> 0 \<le> b' \<and>
          (valid_utf8 (drop a buf) \<longrightarrow> string_of_runes rs' = take n (drop a buf))"
      using "1.IH"(1,2,3,6) [OF _ d [symmetric] refl refl] "1.prems" d plain step \<open>0 \<le> b1\<close>
      by (auto simp: ScanBalancedPattern_loop.simps [of buf] Let_def b1_def split: if_splits)
    then obtain n rs' where
      n: "c = count + a + n" "n \<le> length (drop a buf)" "rs = (result @ [r]) @ rs'"
         "paren_depth b1 rs' = Some b'" "0 \<le> b'"
         "valid_utf8 (drop a buf) \<longrightarrow> string_of_runes rs' = take n (drop a buf)"
      by blast
    have "paren_depth b (r # rs') = Some b'"
      using n(4) plain by (auto simp: paren_depth_Cons b1_def)
    then show ?thesis
      by (intro exI [of _ "a + n"] exI [of _ "r # rs'"])
         (use plain n take_step [OF _ d n(2)] collect_rune [OF _ _ d] in auto)
  qed
qed

abbreviation letter :: "char \<Rightarrow> bool" where
  "letter c \<equiv> is_ascii_letter (of_char c)"

lemma is_ascii_letter_small: "is_ascii_letter r \<Longrightarrow> r < 128"
  by (auto simp: is_ascii_letter_def)

lemma ScanField_loop_sound:
  assumes "ScanField_loop buf count result = Some (rs, c)"
  shows "\<exists>ls rest. buf = ls @ CHR '':'' # rest \<and> list_all letter ls \<and>
           rs = result @ map of_char ls \<and> c = count + length ls + 1 \<and>
           (hd rs \<noteq> r_minus \<or> 1 < length rs)"
  using assms
proof (induction buf count result rule: ScanField_loop.induct)
  case (1 buf count result)
  obtain r a where d: "DecodeRune buf = (r, a)" by fastforce
  have ne: "buf \<noteq> []" using "1.prems" by (auto simp: ScanField_loop.simps [of buf])
  show ?case
  proof (cases "is_ascii_letter r")
    case True
    note sm = DecodeRune_small [OF d is_ascii_letter_small [OF True]]
    from "1.prems" d ne True have
      "ScanField_loop (drop a buf) (count + a) (result @ [r]) = Some (rs, c)"
      by (simp add: ScanField_loop.simps [of buf])
    from "1.IH" [OF ne d [symmetric] True this] obtain ls rest where
      n: "drop a buf = ls @ CHR '':'' # rest" "list_all letter ls"
         "rs = (result @ [r]) @ map of_char ls" "c = count + a + length ls + 1"
         "hd rs \<noteq> r_minus \<or> 1 < length rs" by blast
    have rc: "of_char (char_of r :: char) = r"
      using is_ascii_letter_small [OF True] by (simp add: of_char_of)
    show ?thesis
      by (rule exI [of _ "char_of r # ls"], rule exI [of _ rest])
         (use sm n rc True in auto)
  next
    case False
    with "1.prems" d ne have "r = r_colon" "rs = result" "c = count + a"
        "hd rs \<noteq> r_minus \<or> 1 < length rs"
      by (auto simp: ScanField_loop.simps [of buf] split: if_splits)
    with DecodeRune_small [OF d] show ?thesis
      by (intro exI [of _ "[]"] exI [of _ "drop 1 buf"]) auto
  qed
qed

lemma ScanField_loop_complete:
  assumes "list_all letter ls" and "hd (result @ map of_char ls) \<noteq> r_minus \<or> 1 < length result + length ls"
  shows "ScanField_loop (ls @ CHR '':'' # rest) count result =
           Some (result @ map of_char ls, count + length ls + 1)"
  using assms
proof (induction ls arbitrary: count result)
  case Nil
  then show ?case by (simp add: ScanField_loop.simps [of "_ # _"] DecodeRune_ascii is_ascii_letter_def)
next
  case (Cons l ls)
  then have "(of_char l :: nat) < 128" using is_ascii_letter_small by simp
  with Cons.IH [of "result @ [of_char l]" "Suc count"] Cons.prems show ?case
    by (cases ls) (auto simp: ScanField_loop.simps [of "_ # _"] DecodeRune_ascii)
qed

text \<open>The syntax \<open>(-?)field:\<close> of a recognised field, and what \<open>ScanField\<close> returns for it.\<close>

definition field_syntax :: "bool \<Rightarrow> string \<Rightarrow> string" where
  "field_syntax negated field = (if negated then ''-'' else []) @ field @ '':''"

definition recognised_field :: "string \<Rightarrow> bool" where
  "recognised_field field \<longleftrightarrow>
     field \<noteq> [] \<and> list_all letter field \<and> strings_ToLower field \<in> set allFields"

lemma string_of_letters: "list_all letter ls \<Longrightarrow> string_of_runes (map of_char ls) = ls"
proof (induction ls)
  case (Cons l ls)
  then have "(of_char l :: nat) < 128" using is_ascii_letter_small by simp
  with Cons show ?case by (simp add: EncodeRune_ascii)
qed simp

lemma letter_not_minus: "letter c \<Longrightarrow> c \<noteq> CHR ''-''"
  by (auto simp: is_ascii_letter_def)

lemma ScanField_complete:
  assumes "recognised_field field"
  shows "ScanField (field_syntax negated field @ rest) =
           (field, negated, length (field_syntax negated field))"
proof -
  from assms obtain l ls where f: "field = l # ls" and l: "letter l" "list_all letter ls"
    and low: "strings_ToLower field \<in> set allFields"
    by (cases field) (auto simp: recognised_field_def)
  have al: "(of_char l :: nat) < 128" using is_ascii_letter_small [OF l(1)] .
  have am: "of_char l \<noteq> r_minus" using l(1) by (auto simp: is_ascii_letter_def)
  note str = string_of_letters [OF l(2)] EncodeRune_ascii [OF al]
  show ?thesis
  proof (cases negated)
    case True
    have "ScanField_loop (field @ CHR '':'' # rest) 1 [r_minus] =
            Some ([r_minus] @ map of_char field, 1 + length field + 1)"
      by (rule ScanField_loop_complete) (use l f in auto)
    moreover have "EncodeRune r_minus = ''-''" by (simp add: EncodeRune_def)
    ultimately show ?thesis using True low l str
      by (simp add: field_syntax_def ScanField_def DecodeRune_ascii f Let_def)
  next
    case False
    have "ScanField_loop (ls @ CHR '':'' # rest) 1 [of_char l] =
            Some ([of_char l] @ map of_char ls, 1 + length ls + 1)"
      by (rule ScanField_loop_complete) (use l am in auto)
    with False low l str letter_not_minus [OF l(1)] show ?thesis
      by (simp add: field_syntax_def ScanField_def DecodeRune_ascii f Let_def al)
  qed
qed

lemma ScanField_sound:
  assumes "ScanField buf = (field, negated, n)" and "field \<noteq> []"
  shows "recognised_field field" and "n = length (field_syntax negated field)"
    and "buf = field_syntax negated field @ drop n buf"
proof -
  obtain r a where d: "DecodeRune buf = (r, a)" by fastforce
  have r: "r = r_minus \<or> is_ascii_letter r"
    using assms d by (auto simp: ScanField_def split: if_splits)
  then have nfail: "\<not> (r \<noteq> r_minus \<and> \<not> is_ascii_letter r)" and small: "r < 128"
    using is_ascii_letter_small by auto
  note sm = DecodeRune_small [OF d small]
  obtain rs c where loop: "ScanField_loop (drop 1 buf) 1 [r] = Some (rs, c)"
    using assms d r sm by (cases "ScanField_loop (drop 1 buf) 1 [r]") (auto simp: ScanField_def)
  from ScanField_loop_sound [OF loop] obtain ls rest where
    n: "drop 1 buf = ls @ CHR '':'' # rest" "list_all letter ls" "rs = r # map of_char ls"
       "c = 1 + length ls + 1" "r \<noteq> r_minus \<or> ls \<noteq> []" by auto
  have enc: "EncodeRune r = [char_of r]" using small by (simp add: EncodeRune_def)
  have str: "string_of_runes rs = char_of r # ls"
    using n(2,3) enc string_of_letters by simp
  have res: "(field, negated, n) =
      (let negated = (char_of r = CHR ''-''); field = (if negated then ls else char_of r # ls)
       in if strings_ToLower field \<in> set allFields then (field, negated, c) else ([], False, 0))"
    using assms(1) nfail loop by (auto simp: ScanField_def d sm(1) str Let_def split: if_splits)
  have bf: "buf = char_of r # ls @ CHR '':'' # rest" using sm(2) n(1) by metis
  have lr: "is_ascii_letter r \<Longrightarrow> letter (char_of r) \<and> char_of r \<noteq> CHR ''-''"
    using small by (auto simp: of_char_of is_ascii_letter_def dest: arg_cong [of _ _ "of_char :: char \<Rightarrow> nat"])
  show "recognised_field field" "n = length (field_syntax negated field)"
      "buf = field_syntax negated field @ drop n buf"
    using res r lr n(2,4,5) bf assms(2)
    by (auto simp: Let_def recognised_field_def field_syntax_def split: if_splits)
qed

section \<open>Delimited values\<close>

lemma ScanDelimited_loop_bounds:
  assumes "ScanDelimited_loop strict delimiter buf count prev result = Inr (rs, c, q)"
  shows "count \<le> c \<and> c \<le> count + length buf"
  using assms
proof (induction strict delimiter buf count prev result rule: ScanDelimited_loop.induct)
  case (1 strict delimiter buf count prev result)
  obtain r a where d: "DecodeRune buf = (r, a)" by fastforce
  obtain r' a' where d': "DecodeRune (drop a buf) = (r', a')" by fastforce
  show ?case
  proof (cases "buf = [] \<or> r = delimiter")
    case True
    with "1.prems" d DecodeRune_advance [OF d] show ?thesis
      by (cases "buf = []") (auto simp: ScanDelimited_loop.simps [of _ _ buf]
            ScanDelimited_loop.simps [of _ _ "[]"] Let_def)
  next
    case False
    then have ne: "buf \<noteq> []" and nd: "r \<noteq> delimiter" by auto
    note w = DecodeRune_advance [OF d ne]
    show ?thesis
    proof (cases "r = r_backslash")
      case True
      with "1.prems" d d' ne nd obtain out where
        esc: "drop a buf \<noteq> []" "escape_runes strict delimiter r' = Some out"
             "drop a' (drop a buf) \<noteq> []"
        and rec: "ScanDelimited_loop strict delimiter (drop a' (drop a buf)) (count + a + a') r'
               (result @ out) = Inr (rs, c, q)"
        by (auto simp: ScanDelimited_loop.simps [of _ _ buf] Let_def split: if_splits option.splits)
      from "1.IH"(1) [OF ne d [symmetric] refl refl nd True esc(1) d' [symmetric] esc(2,3) rec]
      show ?thesis using w DecodeRune_advance [OF d' esc(1)] by auto
    next
      case F: False
      with "1.prems" d ne nd have
        rec: "ScanDelimited_loop strict delimiter (drop a buf) (count + a) r (result @ [r]) = Inr (rs, c, q)"
        by (simp add: ScanDelimited_loop.simps [of _ _ buf] Let_def)
      from "1.IH"(2) [OF ne d [symmetric] refl refl nd F rec] show ?thesis using w by auto
    qed
  qed
qed

lemma ScanDelimited_bounds:
  assumes "ScanDelimited buf strict delimiter = Inr (s, n)"
  shows "n \<le> length buf"
proof -
  obtain r a where d: "DecodeRune buf = (r, a)" by fastforce
  have a: "a \<le> length buf" using DecodeRune_advance(2) [OF d] d by (cases "buf = []") auto
  from assms d obtain rs c q where
    "ScanDelimited_loop strict delimiter (drop a buf) a r [] = Inr (rs, c, q)" "n = c"
    by (auto simp: ScanDelimited_def split: if_splits sum.splits prod.splits)
  with ScanDelimited_loop_bounds a show ?thesis by fastforce
qed

text \<open>Quoting a value: the delimiter around it, a backslash before each delimiter and backslash.\<close>

definition escape_char :: "char \<Rightarrow> char \<Rightarrow> string" where
  "escape_char q c = (if c = q \<or> c = CHR 0x5C then [CHR 0x5C, c] else [c])"

definition quote_body :: "char \<Rightarrow> string \<Rightarrow> string" where
  "quote_body q s = concat (map (escape_char q) s)"

definition quote_with :: "char \<Rightarrow> string \<Rightarrow> string" where
  "quote_with q s = q # quote_body q s @ [q]"

text \<open>The delimiters of the query language: double quote, single quote and slash.\<close>

definition query_delimiter :: "char \<Rightarrow> bool" where
  "query_delimiter q \<longleftrightarrow> q \<in> {CHR 0x22, CHR 0x27, CHR ''/''}"

lemma quote_body_high:
  "list_all high bs \<Longrightarrow> query_delimiter q \<Longrightarrow> quote_body q (bs @ s) = bs @ quote_body q s"
  by (induction bs) (auto simp: quote_body_def escape_char_def query_delimiter_def)

lemma ScanDelimited_loop_quote:
  assumes "valid_utf8 s" and q: "query_delimiter q"
  shows "ScanDelimited_loop strict (of_char q) (quote_body q s @ q # rest) count prev result =
           Inr (result @ runes s, count + length (quote_body q s) + 1, of_char q)"
  using assms(1)
proof (induction s arbitrary: count prev result rule: runes.induct)
  case (1 s)
  have qd: "(of_char q :: nat) \<noteq> r_backslash" "(of_char q :: nat) < 128" "q \<noteq> CHR 0x5C"
    using q by (auto simp: query_delimiter_def)
  obtain r n where d: "DecodeRune s = (r, n)" by fastforce
  show ?case
  proof (cases "s = []")
    case True
    with qd show ?thesis
      by (simp add: quote_body_def ScanDelimited_loop.simps [of _ _ "_ # _"] DecodeRune_ascii Let_def)
  next
    case False
    note v = valid_utf8_step [OF "1.prems" False d]
    note IH = "1.IH" [OF False d [symmetric] v(2)]
    have rs: "runes s = r # runes (drop n s)" using False d by (subst runes.simps) simp
    show ?thesis
    proof (cases "r < 128")
      case True
      note sm = DecodeRune_small [OF d True]
      define c where "c = (char_of r :: char)"
      have s: "s = c # drop 1 s" and n: "n = 1" and oc: "of_char c = r"
        using sm True by (simp_all add: c_def of_char_of)
      have qb: "quote_body q s = escape_char q c @ quote_body q (drop 1 s)"
        by (subst s) (simp add: quote_body_def)
      show ?thesis
      proof (cases "c = q \<or> c = CHR 0x5C")
        case True
        then have "escape_runes strict (of_char q) r = Some [r]"
          using oc q by (auto simp: escape_runes_def query_delimiter_def)
        with True qd oc \<open>r < 128\<close> show ?thesis
          by (simp add: qb escape_char_def ScanDelimited_loop.simps [of _ _ "_ # _"] DecodeRune_ascii
                Let_def IH [unfolded n One_nat_def] rs n)
      next
        case F: False
        then have "r \<noteq> of_char q" "r \<noteq> r_backslash" using oc c_def by auto
        with F qd oc \<open>r < 128\<close> show ?thesis
          by (simp add: qb escape_char_def ScanDelimited_loop.simps [of _ _ "_ # _"] DecodeRune_ascii
                Let_def IH [unfolded n One_nat_def] rs n)
      qed
    next
      case F: False
      note loc = DecodeRune_local [OF d v(1) False]
      have hi: "list_all high (take n s)" using loc(2) F by simp
      have qb: "quote_body q s = take n s @ quote_body q (drop n s)"
        using quote_body_high [OF hi q, of "drop n s"] by simp
      have n: "0 < n" "n \<le> length s" using DecodeRune_advance [OF d False] by auto
      have ne: "take n s \<noteq> []" using n False by auto
      have nr: "r \<noteq> of_char q" "r \<noteq> r_backslash" using F qd by auto
      have "ScanDelimited_loop strict (of_char q) (take n s @ quote_body q (drop n s) @ q # rest) count prev result
          = ScanDelimited_loop strict (of_char q) (quote_body q (drop n s) @ q # rest) (count + n) r (result @ [r])"
        using ne nr n loc(1)
        by (subst ScanDelimited_loop.simps) (simp add: Let_def)
      with n show ?thesis by (simp add: qb IH rs)
    qed
  qed
qed

lemma ScanDelimited_quote:
  assumes "valid_utf8 s" and q: "query_delimiter q"
  shows "ScanDelimited (quote_with q s @ rest) strict (of_char q) = Inr (s, length (quote_with q s))"
proof -
  have qd: "(of_char q :: nat) < 128" using q by (auto simp: query_delimiter_def)
  have "ScanDelimited_loop strict (of_char q) (quote_body q s @ q # rest) 1 (of_char q) [] =
          Inr ([] @ runes s, 1 + length (quote_body q s) + 1, of_char q)"
    by (rule ScanDelimited_loop_quote [OF assms])
  with qd string_of_runes_runes [OF assms(1)] show ?thesis
    by (simp add: ScanDelimited_def quote_with_def DecodeRune_ascii)
qed

section \<open>Bounds of the remaining scanners\<close>

lemma skipSpace_le [scan_bounds]: "skipSpace buf \<le> length buf"
  using skipSpace_loop_spec [of buf 0] by (auto simp: skipSpace_def)

lemma skipSpace_stops: "drop (skipSpace buf) buf = [] \<or> \<not> isSpace (drop (skipSpace buf) buf)"
  using skipSpace_loop_spec [of buf 0] by (auto simp: skipSpace_def)

lemma ScanAnyPattern_bounds [scan_bounds]: "ScanAnyPattern buf = (s, n) \<Longrightarrow> n \<le> length buf"
  using ScanAnyPattern_loop_spec [of buf 0 "[]"] by (fastforce simp: ScanAnyPattern_def split: prod.splits)

lemma ScanValue_bounds [scan_bounds]: "ScanValue buf ad = (s, n) \<Longrightarrow> n \<le> length buf"
  using ScanValue_loop_spec [of ad buf 0 "[]"] by (fastforce simp: ScanValue_def split: prod.splits)

lemma ScanBalancedPattern_bounds [scan_bounds]:
  "ScanBalancedPattern buf = (s, n, ok) \<Longrightarrow> n \<le> length buf"
  using ScanBalancedPattern_loop_spec [of buf 0 0 "[]"]
  by (fastforce simp: ScanBalancedPattern_def split: if_splits option.splits prod.splits)

lemma ScanField_bounds [scan_bounds]: "ScanField buf = (f, neg, n) \<Longrightarrow> n \<le> length buf"
proof (cases "f = []")
  case True
  moreover assume "ScanField buf = (f, neg, n)"
  ultimately show ?thesis
    by (auto simp: ScanField_def Let_def strings_ToLower_def allFields_def
          split: if_splits option.splits prod.splits)
next
  case False
  moreover assume "ScanField buf = (f, neg, n)"
  ultimately have "buf = field_syntax neg f @ drop n buf" "n = length (field_syntax neg f)"
    by (auto dest: ScanField_sound)
  then show ?thesis by (metis length_append le_add1)
qed

lemma ScanField_progress: "ScanField buf = (f, neg, n) \<Longrightarrow> f \<noteq> [] \<Longrightarrow> 0 < n"
  using ScanField_sound(2) [of buf f neg n] by (simp add: field_syntax_def)

lemma ScanPredicateName_loop_bounds:
  "advance \<le> length buf \<Longrightarrow> snd (ScanPredicateName_loop buf advance) \<le> length buf"
proof (induction buf advance rule: ScanPredicateName_loop.induct)
  case (1 buf advance)
  obtain r i where d: "DecodeRune (drop advance buf) = (r, i)" by fastforce
  show ?case
  proof (cases "r = RuneError \<or> \<not> (unicode_IsLetter r \<or> r = r_dot)")
    case True
    with d 1(2) show ?thesis by (auto simp: ScanPredicateName_loop.simps [of buf advance])
  next
    case False
    with DecodeRune_proper [OF d] have "advance + i \<le> length buf" by auto
    with "1.IH" [OF d [symmetric]] False d show ?thesis
      by (auto simp: ScanPredicateName_loop.simps [of buf advance])
  qed
qed

lemma ScanBalancedParens_loop_bounds:
  "ScanBalancedParens_loop buf count balance result = Some (rs, c) \<Longrightarrow> c \<le> count + length buf"
proof (induction buf count balance result rule: ScanBalancedParens_loop.induct)
  case (1 buf count balance result)
  obtain r a where d: "DecodeRune buf = (r, a)" by fastforce
  have ne: "r \<noteq> RuneError"
    using "1.prems" d by (auto simp: ScanBalancedParens_loop.simps [of buf])
  note w = DecodeRune_proper [OF d ne]
  obtain r' a' where d': "(if r = r_backslash then DecodeRune (drop a buf) else (0, 0)) = (r', a')"
    by fastforce
  have a': "a' \<le> length (drop a buf)"
    using d' DecodeRune_advance(2) [of "drop a buf" r' a']
    by (cases "drop a buf = []") (auto split: if_splits)
  define b' where "b' = (if r = r_lparen then balance + 1
                         else if r = r_rparen then balance - 1 else balance)"
  define res where "res = (if r = r_backslash then (result @ [r]) @ [r'] else result @ [r])"
  show ?case
  proof (cases "b' = 0")
    case True
    with "1.prems" d d' ne have "c = count + a + a'"
      by (simp add: ScanBalancedParens_loop.simps [of buf] Let_def b'_def del: if_split)
    then show ?thesis using w a' by auto
  next
    case False
    with "1.prems" d d' ne have
      "ScanBalancedParens_loop (drop a' (drop a buf)) (count + a + a') b' res = Some (rs, c)"
      by (simp add: ScanBalancedParens_loop.simps [of buf] Let_def b'_def res_def del: if_split)
    from "1.IH" [OF d [symmetric] ne refl refl refl b'_def refl d' [symmetric] res_def False this]
    show ?thesis using w a' by auto
  qed
qed

lemma ScanBalancedParens_bounds:
  "ScanBalancedParens buf = Some (Some (s, n)) \<Longrightarrow> n \<le> length buf"
proof -
  assume asm: "ScanBalancedParens buf = Some (Some (s, n))"
  obtain r a where d: "DecodeRune buf = (r, a)" by fastforce
  with asm have r: "r = r_lparen" by (auto simp: ScanBalancedParens_def split: if_splits)
  have w: "0 < a \<and> a \<le> length buf \<and> buf \<noteq> []" using DecodeRune_proper [OF d] r by simp
  from asm d r obtain rs where "ScanBalancedParens_loop (drop a buf) a 1 [r] = Some (rs, n)"
    by (auto simp: ScanBalancedParens_def split: option.splits)
  from ScanBalancedParens_loop_bounds [OF this] w show ?thesis by auto
qed

lemma ScanPredicate_bounds [scan_bounds]:
  assumes "ScanPredicate field buf registry = Some (Some (s, n))"
  shows "n \<le> length buf"
proof -
  from assms obtain table name m params k where
    name: "ScanPredicateName buf table = Some (name, m)"
    and params: "ScanBalancedParens (drop m buf) = Some (Some (params, k))" and n: "n = m + k"
    by (auto simp: ScanPredicate_def Let_def split: option.splits if_splits prod.splits)
  have "m \<le> length buf"
    using name ScanPredicateName_loop_bounds [of 0 buf]
    by (auto simp: ScanPredicateName_def split: prod.splits if_splits)
  with ScanBalancedParens_bounds [OF params] n show ?thesis by simp
qed

text \<open>\<open>ScanPredicate\<close> only calls \<open>ScanBalancedParens\<close> on a buffer that starts with a parenthesis.\<close>

lemma ScanPredicate_no_panic: "ScanPredicate field buf registry \<noteq> None"
proof -
  have "ScanBalancedParens (CHR ''('' # s) \<noteq> None" for s
    by (simp add: ScanBalancedParens_def DecodeRune_ascii)
  then have "m < length buf \<Longrightarrow> hd (drop m buf) = CHR ''('' \<Longrightarrow> ScanBalancedParens (drop m buf) \<noteq> None" for m
    by (cases "drop m buf") auto
  then show ?thesis
    by (fastforce simp: ScanPredicate_def Let_def not_le split: option.splits prod.splits)
qed

section \<open>Progress\<close>

text \<open>A pattern scanner that starts at a rune it does not stop at consumes at least one byte.\<close>

lemma ScanAnyPattern_progress:
  assumes "buf \<noteq> []" and "\<not> isSpace buf" and "ScanAnyPattern buf = (s, n)"
  shows "0 < n"
proof -
  obtain r a where d: "DecodeRune buf = (r, a)" by fastforce
  have "\<not> unicode_IsSpace r" using assms(2) d by (simp add: isSpace_def)
  with assms(1,3) d obtain rs where
    "ScanAnyPattern_loop (drop a buf) a [r] = (rs, n)"
    by (auto simp: ScanAnyPattern_def ScanAnyPattern_loop.simps [of buf] split: prod.splits)
  from ScanAnyPattern_loop_spec [OF this] DecodeRune_advance(1) [OF d assms(1)] show ?thesis by auto
qed

lemma ScanValue_progress:
  assumes "buf \<noteq> []" and "\<not> isSpace buf" and "ScanValue buf ad = (s, n)"
    and "ad \<or> hd buf \<noteq> CHR ''('' \<and> hd buf \<noteq> CHR '')''"
  shows "0 < n"
proof -
  obtain r a where d: "DecodeRune buf = (r, a)" by fastforce
  obtain r' a' where d': "DecodeRune (drop a buf) = (r', a')" by fastforce
  have ns: "\<not> unicode_IsSpace r" using assms(2) d by (simp add: isSpace_def)
  have par: "ad \<or> \<not> (r = r_lparen \<or> r = r_rparen)"
    using assms(4) DecodeRune_small(2) [OF d] by (cases buf) auto
  have "\<exists>buf' c result rs. ScanValue_loop ad buf' c result = (rs, n) \<and> a \<le> c"
    using assms(1,3) d d' ns par
    by (cases "r = r_backslash \<and> drop a buf \<noteq> []")
       (auto simp: ScanValue_def ScanValue_loop.simps [of _ buf] Let_def split: prod.splits if_splits;
        metis le_add1)+
  then obtain buf' c result rs where "ScanValue_loop ad buf' c result = (rs, n)" "a \<le> c" by blast
  with ScanValue_loop_spec [OF this(1)] DecodeRune_advance(1) [OF d assms(1)] show ?thesis by auto
qed

lemma ScanBalancedPattern_progress:
  assumes "buf \<noteq> []" and "\<not> isSpace buf" and "ScanBalancedPattern buf = (s, n, True)"
    and "hd buf \<noteq> CHR '')''"
  shows "0 < n"
proof -
  obtain r a where d: "DecodeRune buf = (r, a)" by fastforce
  obtain r' a' where d': "DecodeRune (drop a buf) = (r', a')" by fastforce
  have ns: "\<not> unicode_IsSpace r" using assms(2) d by (simp add: isSpace_def)
  have par: "r \<noteq> r_rparen"
    using assms(4) DecodeRune_small(2) [OF d] by (cases buf) auto
  have "\<exists>buf' c b result rs. ScanBalancedPattern_loop buf' c b result = Some (rs, n, 0) \<and> a \<le> c \<and> 0 \<le> b"
    using assms(1,3) d d' ns par
    by (cases "r = r_backslash \<and> drop a buf \<noteq> []")
       (auto simp: ScanBalancedPattern_def ScanBalancedPattern_loop.simps [of buf] Let_def
             split: prod.splits if_splits option.splits;
        metis le_add1 order_refl zero_le_one)+
  then obtain buf' c b result rs where
    l: "ScanBalancedPattern_loop buf' c b result = Some (rs, n, 0)" "a \<le> c" "0 \<le> b" by blast
  with ScanBalancedPattern_loop_spec [OF l(1,3)] DecodeRune_advance(1) [OF d assms(1)] show ?thesis
    by auto
qed

end
