(* ===== verification/Query_Registry.thy ===== *)
theory Query_Registry
  imports Query_Scan
begin

text \<open>
  The syntax \<open>name(params)\<close> of a predicate value and the registry lookup
  (\<open>ParseAsPredicate\<close> and \<open>PredicateRegistry.Get\<close> of \<open>internal/search/query/predicate.go\<close>).

  Shown here: \<open>ParseAsPredicate\<close> inverts the syntax, and every value the scanner accepts as a
  predicate is one that it can take apart and that the registry knows.
\<close>

section \<open>Definitions\<close>

text \<open>
  \<open>ParseAsPredicate\<close> matches \<open>^[a-z.]+\((?s:.*)\)$\<close>: the name ends at the first opening
  parenthesis and the last byte closes it. \<open>None\<close> is the panic on any other value.
\<close>

definition predicate_name_char :: "char \<Rightarrow> bool" where
  "predicate_name_char c \<longleftrightarrow> 97 \<le> (of_char c :: nat) \<and> (of_char c :: nat) \<le> 122 \<or> c = CHR ''.''"

definition ParseAsPredicate :: "string \<Rightarrow> (string \<times> string) option" where
  "ParseAsPredicate v =
     (let name = takeWhile (\<lambda>c. c \<noteq> CHR ''('') v; rest = dropWhile (\<lambda>c. c \<noteq> CHR ''('') v
      in if name \<noteq> [] \<and> list_all predicate_name_char name \<and> 2 \<le> length rest \<and> last rest = CHR '')''
         then Some (name, butlast (tl rest)) else None)"

text \<open>\<open>PredicateRegistry.Get\<close>; \<open>None\<close> is the panic on a failed lookup.\<close>

definition registry_Get :: "predicate_registry \<Rightarrow> string \<Rightarrow> string \<Rightarrow> predicate_kind option" where
  "registry_Get pr field name =
     (case map_of pr field of None \<Rightarrow> None | Some table \<Rightarrow> map_of table name)"

section \<open>Scanned predicates\<close>

lemma ParseAsPredicate_syntax:
  assumes "list_all predicate_name_char name" and "name \<noteq> []"
  shows "ParseAsPredicate (name @ ''('' @ params @ '')'') = Some (name, params)"
proof -
  have lp: "\<not> predicate_name_char (CHR ''('')" by (simp add: predicate_name_char_def)
  have open_: "c \<noteq> CHR ''(''" if "c \<in> set name" for c
    using that assms(1) lp by (auto simp: list_all_iff)
  have "takeWhile (\<lambda>c. c \<noteq> CHR ''('') (name @ ''('' @ params @ '')'') = name"
    "dropWhile (\<lambda>c. c \<noteq> CHR ''('') (name @ ''('' @ params @ '')'') = ''('' @ params @ '')''"
    using open_ by (simp_all add: takeWhile_append dropWhile_append)
  then show ?thesis using assms by (simp add: ParseAsPredicate_def Let_def butlast_append)
qed

lemma ScanBalancedParens_loop_closes:
  "ScanBalancedParens_loop buf c balance result = Some (rs, n) \<Longrightarrow> 0 < balance \<Longrightarrow>
     \<exists>mid. rs = result @ mid @ [r_rparen]"
proof (induction buf c balance result rule: ScanBalancedParens_loop.induct)
  case (1 buf c balance result)
  obtain r a where d: "DecodeRune buf = (r, a)" by fastforce
  obtain r' a' where d': "DecodeRune (drop a buf) = (r', a')" by fastforce
  have ne: "r \<noteq> RuneError" using "1.prems" d by (auto simp: ScanBalancedParens_loop.simps [of buf])
  consider (close) "r = r_rparen" "balance = 1" | (escape) "r = r_backslash"
    | (other) "r \<noteq> r_backslash" "\<not> (r = r_rparen \<and> balance = 1)" by blast
  then show ?case
  proof cases
    case close
    with "1.prems" d show ?thesis by (auto simp: ScanBalancedParens_loop.simps [of buf])
  next
    case escape
    with "1.prems" d d' have rec: "ScanBalancedParens_loop (drop a' (drop a buf)) (c + a + a') balance
        (result @ [r] @ [r']) = Some (rs, n)"
      by (simp add: ScanBalancedParens_loop.simps [of buf])
    have "\<exists>mid. rs = (result @ [r] @ [r']) @ mid @ [r_rparen]"
      using "1.IH" [OF d [symmetric] ne refl refl refl refl] rec escape d' "1.prems"(2) by simp
    then show ?thesis by fastforce
  next
    case other
    define b where "b = (if r = r_lparen then balance + 1 else if r = r_rparen then balance - 1 else balance)"
    have b: "0 < b" using other "1.prems"(2) by (auto simp: b_def)
    with other "1.prems" d ne have rec: "ScanBalancedParens_loop (drop a buf) (c + a) b (result @ [r]) = Some (rs, n)"
      by (simp add: ScanBalancedParens_loop.simps [of buf] b_def [symmetric] Let_def)
    have "\<exists>mid. rs = (result @ [r]) @ mid @ [r_rparen]"
      using "1.IH" [OF d [symmetric] ne refl refl refl b_def] rec other b by simp
    then show ?thesis by fastforce
  qed
qed

lemma ScanBalancedParens_syntax:
  assumes "ScanBalancedParens buf = Some (Some (s, n))"
  shows "\<exists>params. s = ''('' @ params @ '')''"
proof -
  obtain r a where d: "DecodeRune buf = (r, a)" by fastforce
  with assms obtain rs where r: "r = r_lparen" and s: "s = string_of_runes rs"
    and loop: "ScanBalancedParens_loop (drop a buf) a 1 [r] = Some (rs, n)"
    by (auto simp: ScanBalancedParens_def split: if_splits option.splits)
  obtain mid where "rs = [r] @ mid @ [r_rparen]" using ScanBalancedParens_loop_closes [OF loop] by auto
  moreover have "EncodeRune r_lparen = ''(''" "EncodeRune r_rparen = '')''" by code_simp+
  ultimately show ?thesis using r s by simp
qed

lemma registry_names:
  "registry_Get DefaultPredicateRegistry field name = Some k \<Longrightarrow>
     name \<noteq> [] \<and> list_all predicate_name_char name"
proof -
  have "list_all (\<lambda>(f, table). list_all (\<lambda>(n, k). n \<noteq> [] \<and> list_all predicate_name_char n) table)
      DefaultPredicateRegistry" by code_simp
  then show "registry_Get DefaultPredicateRegistry field name = Some k \<Longrightarrow>
     name \<noteq> [] \<and> list_all predicate_name_char name"
    by (fastforce simp: registry_Get_def list_all_iff dest: map_of_SomeD split: option.splits)
qed

text \<open>What \<open>validatePredicate\<close> assumes of a parameter labelled as a predicate.\<close>

definition predicate_value :: "string \<Rightarrow> string \<Rightarrow> bool" where
  "predicate_value field v \<longleftrightarrow>
     (case ParseAsPredicate v of
        None \<Rightarrow> False
      | Some (name, params) \<Rightarrow>
          registry_Get DefaultPredicateRegistry (resolveFieldAlias field) name \<noteq> None)"

lemma ScanPredicate_value:
  assumes "ScanPredicate field buf DefaultPredicateRegistry = Some (Some (v, n))"
  shows "predicate_value field v"
proof -
  from assms obtain table name m params k where
    table: "map_of DefaultPredicateRegistry (resolveFieldAlias field) = Some table"
    and name: "ScanPredicateName buf table = Some (name, m)"
    and params: "ScanBalancedParens (drop m buf) = Some (Some (params, k))" and v: "v = name @ params"
    by (auto simp: ScanPredicate_def Let_def split: option.splits if_splits)
  obtain ps where "params = ''('' @ ps @ '')''" using ScanBalancedParens_syntax [OF params] by blast
  moreover have "map_of table name \<noteq> None"
    using name by (auto simp: ScanPredicateName_def split: prod.splits if_splits)
  then obtain kind where get: "registry_Get DefaultPredicateRegistry (resolveFieldAlias field) name = Some kind"
    using table by (auto simp: registry_Get_def)
  ultimately show ?thesis
    using registry_names [OF get] ParseAsPredicate_syntax [of name ps] v get by (simp add: predicate_value_def)
qed

end
