(* ===== verification/Query_Operator.thy ===== *)
theory Query_Operator
  imports Query_Registry
begin

text \<open>
  Building operator nodes: \<open>reduce\<close>, \<open>NewOperator\<close> and \<open>partitionParameters\<close> of
  \<open>internal/search/query/parser.go\<close>, and the meaning of a query tree.

  Shown here: \<open>NewOperator\<close> terminates (every pass that changes the list removes a node),
  returns at most one node, keeps every term that carries a value in its order, produces
  operators with at least two operands in a normal form, and preserves the meaning of
  conjunctions and disjunctions.
\<close>

section \<open>Definitions\<close>

fun param_empty :: "node \<Rightarrow> bool" where
  "param_empty (Parameter p) \<longleftrightarrow> par_Value p = []"
| "param_empty _ \<longleftrightarrow> False"

fun empty_leaf :: "node \<Rightarrow> bool" where
  "empty_leaf (Parameter p) \<longleftrightarrow> par_Value p = []"
| "empty_leaf (Pattern p) \<longleftrightarrow> pat_Value p = []"
| "empty_leaf (Operator k operands a) \<longleftrightarrow> False"

fun operands_of_kind :: "OperatorKind \<Rightarrow> node \<Rightarrow> node list option" where
  "operands_of_kind k (Operator k' operands a) = (if k = k' then Some operands else None)"
| "operands_of_kind k _ = None"

fun is_Operator_node :: "node \<Rightarrow> bool" where
  "is_Operator_node (Operator k operands a) = True"
| "is_Operator_node _ = False"

text \<open>
  One pass of \<open>reduce\<close>. The switch of the source on the type of \<open>right[0]\<close> reads: flatten an
  operator of the same kind; for a leaf, drop it when its value is empty, else flatten
  \<open>left[0]\<close>; in every other case reduce the rest of the right list. The code is only
  reached with non-empty lists; on an empty one it would panic, and the model returns the
  lists unchanged.
\<close>

fun reduce :: "node list \<Rightarrow> node list \<Rightarrow> OperatorKind \<Rightarrow> node list \<times> bool" where
  "reduce (l # ls) (r # rs) kind =
     (if param_empty l then (r # rs, True)
      else case operands_of_kind kind r of
        Some operands \<Rightarrow> ((l # ls) @ operands @ rs, True)
      | None \<Rightarrow>
          if empty_leaf r then ((l # ls) @ rs, True)
          else case (if is_Operator_node r then None else operands_of_kind kind l) of
            Some operands \<Rightarrow> (operands @ r # rs, True)
          | None \<Rightarrow>
              if rs = [] then ((l # ls) @ r # rs, False)
              else case reduce [r] rs kind of (reduced, changed) \<Rightarrow>
                if changed then ((l # ls) @ reduced, True) else ((l # ls) @ r # rs, False))"
| "reduce left right kind = (left @ right, False)"

declare reduce.simps(1) [simp del]

lemma reduce_unchanged: "reduce left right kind = (ns, False) \<Longrightarrow> ns = left @ right"
proof (induction left right kind arbitrary: ns rule: reduce.induct)
  case (1 l ls r rs kind)
  then show ?case by (auto simp: reduce.simps(1) split: if_splits option.splits prod.splits)
qed auto

lemma reduce_inner:
  "(case reduce [r] rs kind of (reduced, changed) \<Rightarrow>
      if changed then ([l] @ reduced, True) else ([l] @ r # rs, False)) =
   (l # fst (reduce [r] rs kind), snd (reduce [r] rs kind))"
  using reduce_unchanged [of "[r]" rs kind] by (cases "reduce [r] rs kind") auto

text \<open>The five outcomes of a pass, for the singleton left list it is always called with.\<close>

lemma reduce_cases:
  obtains (drop_left) "param_empty l" "reduce [l] (r # rs) kind = (r # rs, True)"
  | (flatten_right) operands a where "\<not> param_empty l" "r = Operator kind operands a"
      "reduce [l] (r # rs) kind = (l # operands @ rs, True)"
  | (drop_right) "\<not> param_empty l" "empty_leaf r" "reduce [l] (r # rs) kind = (l # rs, True)"
  | (flatten_left) operands a where "l = Operator kind operands a" "\<not> empty_leaf r"
      "\<not> is_Operator_node r" "reduce [l] (r # rs) kind = (operands @ r # rs, True)"
  | (inner) "\<not> param_empty l" "\<not> empty_leaf r" "operands_of_kind kind r = None"
      "is_Operator_node r \<or> operands_of_kind kind l = None"
      "reduce [l] (r # rs) kind = (l # fst (reduce [r] rs kind), snd (reduce [r] rs kind))"
proof -
  have A: "operands_of_kind kind n = Some os \<Longrightarrow> \<exists>a. n = Operator kind os a" for n os
    by (cases n) (auto split: if_splits)
  consider "param_empty l"
    | os where "\<not> param_empty l" "operands_of_kind kind r = Some os"
    | "\<not> param_empty l" "operands_of_kind kind r = None" "empty_leaf r"
    | os where "\<not> param_empty l" "operands_of_kind kind r = None" "\<not> empty_leaf r"
        "\<not> is_Operator_node r" "operands_of_kind kind l = Some os"
    | "\<not> param_empty l" "operands_of_kind kind r = None" "\<not> empty_leaf r"
        "is_Operator_node r \<or> operands_of_kind kind l = None"
    by (metis option.exhaust)
  then show thesis
  proof cases
    case 1
    then show thesis by (intro drop_left) (simp_all add: reduce.simps(1))
  next
    case (2 os)
    with A obtain a where "r = Operator kind os a" by blast
    with 2 show thesis by (intro flatten_right) (simp_all add: reduce.simps(1))
  next
    case 3
    then show thesis by (intro drop_right) (simp_all add: reduce.simps(1))
  next
    case (4 os)
    with A obtain a where "l = Operator kind os a" by blast
    with 4 show thesis by (intro flatten_left) (simp_all add: reduce.simps(1))
  next
    case 5
    then show thesis by (intro inner) (auto simp: reduce.simps(1) reduce_inner)
  qed
qed

lemma subnodes_Cons: "subnodes (n # ns) = subnodes [n] @ subnodes ns"
  by (cases n) auto

lemma reduce_shrinks:
  "reduce [l] right kind = (ns, True) \<Longrightarrow> length (subnodes ns) < length (subnodes (l # right))"
proof (induction right arbitrary: l ns)
  case (Cons r rs)
  show ?case
  proof (cases rule: reduce_cases [of l r rs kind])
    case drop_left
    with Cons.prems show ?thesis by (cases l) auto
  next
    case (flatten_right operands a)
    with Cons.prems subnodes_Cons [of l "operands @ rs"] subnodes_Cons [of l "r # rs"]
    show ?thesis by auto
  next
    case drop_right
    with Cons.prems subnodes_Cons [of l rs] subnodes_Cons [of l "r # rs"] show ?thesis
      by (cases r) auto
  next
    case (flatten_left operands a)
    with Cons.prems show ?thesis by auto
  next
    case inner
    then have "ns = l # fst (reduce [r] rs kind)" "snd (reduce [r] rs kind)"
      using Cons.prems by auto
    with Cons.IH [of r "fst (reduce [r] rs kind)"] subnodes_Cons [of l "fst (reduce [r] rs kind)"]
      subnodes_Cons [of l "r # rs"]
    show ?thesis by (cases "reduce [r] rs kind") auto
  qed
qed simp

function NewOperator :: "node list \<Rightarrow> OperatorKind \<Rightarrow> node list" where
  "NewOperator nodes kind =
     (case nodes of
        [] \<Rightarrow> []
      | [n] \<Rightarrow> [n]
      | n # m # ns \<Rightarrow>
          (case reduce [n] (m # ns) kind of (reduced, changed) \<Rightarrow>
             if changed then NewOperator reduced kind
             else [Operator kind reduced zero_annotation]))"
  by pat_completeness auto
termination
  by (relation "measure (\<lambda>(nodes, _). length (subnodes nodes))") (auto dest: reduce_shrinks [OF sym])

declare NewOperator.simps [simp del]

lemma NewOperator_Nil [simp]: "NewOperator [] kind = []"
  and NewOperator_single [simp]: "NewOperator [n] kind = [n]"
  by (simp_all add: NewOperator.simps)

text \<open>Induction along the passes of \<open>NewOperator\<close>.\<close>

lemma NewOperator_induct [case_names Nil Single Changed Stable]:
  assumes "\<And>kind. P [] kind" and "\<And>n kind. P [n] kind"
    and "\<And>n m ns kind reduced. reduce [n] (m # ns) kind = (reduced, True) \<Longrightarrow>
           NewOperator (n # m # ns) kind = NewOperator reduced kind \<Longrightarrow>
           P reduced kind \<Longrightarrow> P (n # m # ns) kind"
    and "\<And>n m ns kind. reduce [n] (m # ns) kind = (n # m # ns, False) \<Longrightarrow>
           NewOperator (n # m # ns) kind = [Operator kind (n # m # ns) zero_annotation] \<Longrightarrow>
           P (n # m # ns) kind"
  shows "P nodes kind"
proof (induction nodes kind rule: NewOperator.induct)
  case (1 nodes kind)
  show ?case
  proof (cases nodes rule: remdups_adj.cases)
    case 1
    then show ?thesis using assms(1) by simp
  next
    case (2 n)
    then show ?thesis using assms(2) by simp
  next
    case (3 n m ns)
    obtain reduced changed where red: "reduce [n] (m # ns) kind = (reduced, changed)" by fastforce
    show ?thesis
    proof (cases changed)
      case True
      with red have "NewOperator (n # m # ns) kind = NewOperator reduced kind"
        by (simp add: NewOperator.simps [of "n # m # ns"])
      with assms(3) [of n m ns kind reduced] red True "1.IH" [OF 3 refl red [symmetric] True] 3
      show ?thesis by simp
    next
      case False
      with red reduce_unchanged have "reduced = n # m # ns" by fastforce
      with red False assms(4) [of n m ns kind] 3 show ?thesis
        by (simp add: NewOperator.simps [of "n # m # ns"])
    qed
  qed
qed

section \<open>What NewOperator keeps\<close>

lemma NewOperator_length: "nodes \<noteq> [] \<Longrightarrow> length (NewOperator nodes kind) = 1"
proof (induction nodes kind rule: NewOperator_induct)
  case (Changed n m ns kind reduced)
  have "reduced \<noteq> []"
  proof (cases rule: reduce_cases [of n m ns kind])
    case (flatten_left operands a)
    with Changed show ?thesis by auto
  qed (use Changed in auto)
  with Changed show ?case by simp
qed simp_all

lemma NewOperator_eq_Nil [simp]: "NewOperator nodes kind = [] \<longleftrightarrow> nodes = []"
  using NewOperator_length [of nodes kind] by (cases "nodes = []") auto

text \<open>The leaves of a tree from left to right, and those that carry a value.\<close>

fun leaves :: "node list \<Rightarrow> node list" where
  "leaves [] = []"
| "leaves (Operator k operands a # ns) = leaves operands @ leaves ns"
| "leaves (Parameter p # ns) = Parameter p # leaves ns"
| "leaves (Pattern p # ns) = Pattern p # leaves ns"

definition terms :: "node list \<Rightarrow> node list" where
  "terms nodes = filter (\<lambda>n. \<not> empty_leaf n) (leaves nodes)"

lemma leaves_append [simp]: "leaves (xs @ ys) = leaves xs @ leaves ys"
  by (induction xs rule: leaves.induct) auto

lemma terms_append [simp]: "terms (xs @ ys) = terms xs @ terms ys"
  by (simp add: terms_def)

lemma terms_simps [simp]:
  "terms [] = []"
  "terms (Operator k operands a # ns) = terms operands @ terms ns"
  by (simp_all add: terms_def)

lemma terms_Cons: "terms (n # ns) = terms [n] @ terms ns"
  using terms_append [of "[n]" ns] by simp

lemma terms_empty_leaf: "empty_leaf n \<Longrightarrow> terms [n] = []"
  by (cases n) (auto simp: terms_def)

lemma reduce_terms: "terms (fst (reduce [l] right kind)) = terms (l # right)"
proof (induction right arbitrary: l)
  case (Cons r rs)
  show ?case
  proof (cases rule: reduce_cases [of l r rs kind])
    case drop_left
    then have "terms [l] = []" by (cases l) (auto simp: terms_def)
    with drop_left terms_Cons [of l "r # rs"] show ?thesis by simp
  next
    case (flatten_right operands a)
    then show ?thesis using terms_Cons [of l "operands @ rs"] terms_Cons [of l "r # rs"] by simp
  next
    case drop_right
    then show ?thesis
      using terms_Cons [of l rs] terms_Cons [of l "r # rs"] terms_Cons [of r rs] terms_empty_leaf
      by simp
  next
    case inner
    then show ?thesis
      using Cons.IH [of r] terms_Cons [of l "fst (reduce [r] rs kind)"] terms_Cons [of l "r # rs"]
      by simp
  qed simp
qed simp

lemma NewOperator_terms: "terms (NewOperator nodes kind) = terms nodes"
proof (induction nodes kind rule: NewOperator_induct)
  case (Changed n m ns kind reduced)
  with reduce_terms [of n "m # ns" kind] show ?case by simp
qed simp_all

text \<open>Every operator of a well-formed tree has at least two operands.\<close>

fun wf_nodes :: "node list \<Rightarrow> bool" where
  "wf_nodes [] \<longleftrightarrow> True"
| "wf_nodes (Operator k operands a # ns) \<longleftrightarrow> 2 \<le> length operands \<and> wf_nodes operands \<and> wf_nodes ns"
| "wf_nodes (n # ns) \<longleftrightarrow> wf_nodes ns"

lemma wf_nodes_append [simp]: "wf_nodes (xs @ ys) \<longleftrightarrow> wf_nodes xs \<and> wf_nodes ys"
  by (induction xs rule: wf_nodes.induct) auto

lemma wf_nodes_Cons: "wf_nodes (n # ns) \<longleftrightarrow> wf_nodes [n] \<and> wf_nodes ns"
  using wf_nodes_append [of "[n]" ns] by simp

lemma reduce_wf: "wf_nodes (l # right) \<Longrightarrow> wf_nodes (fst (reduce [l] right kind))"
proof (induction right arbitrary: l)
  case (Cons r rs)
  then have wf: "wf_nodes [l]" "wf_nodes [r]" "wf_nodes rs"
    using wf_nodes_Cons [of l "r # rs"] wf_nodes_Cons [of r rs] by blast+
  show ?case
  proof (cases rule: reduce_cases [of l r rs kind])
    case drop_left
    with wf show ?thesis using wf_nodes_Cons [of r rs] by simp
  next
    case (flatten_right operands a)
    with wf show ?thesis using wf_nodes_Cons [of l "operands @ rs"] by simp
  next
    case drop_right
    with wf show ?thesis using wf_nodes_Cons [of l rs] by simp
  next
    case (flatten_left operands a)
    with wf show ?thesis using wf_nodes_Cons [of r rs] by simp
  next
    case inner
    have "wf_nodes (r # rs)" using wf wf_nodes_Cons [of r rs] by blast
    from Cons.IH [OF this] wf show ?thesis
      using wf_nodes_Cons [of l "fst (reduce [r] rs kind)"] inner by simp
  qed
qed simp

lemma NewOperator_wf: "wf_nodes nodes \<Longrightarrow> wf_nodes (NewOperator nodes kind)"
proof (induction nodes kind rule: NewOperator_induct)
  case (Changed n m ns kind reduced)
  with reduce_wf [of n "m # ns" kind] show ?case by simp
qed simp_all

section \<open>The normal form\<close>

fun stable :: "OperatorKind \<Rightarrow> node list \<Rightarrow> bool" where
  "stable kind (l # r # rs) \<longleftrightarrow>
     \<not> param_empty l \<and> \<not> empty_leaf r \<and> operands_of_kind kind r = None \<and>
     (is_Operator_node r \<or> operands_of_kind kind l = None) \<and> stable kind (r # rs)"
| "stable kind ns \<longleftrightarrow> True"

lemma reduce_stable: "\<not> snd (reduce [l] right kind) \<longleftrightarrow> stable kind (l # right)"
proof (induction right arbitrary: l)
  case (Cons r rs)
  show ?case
  proof (cases rule: reduce_cases [of l r rs kind])
    case (flatten_left operands a)
    then show ?thesis by auto
  qed (use Cons.IH [of r] in auto)
qed simp

lemma subnodes_self: "n \<in> set ns \<Longrightarrow> n \<in> set (subnodes ns)"
  by (induction ns rule: subnodes.induct) auto

lemma subnodes_trans: "set (subnodes ns) \<subseteq> set (subnodes ms)" if "set ns \<subseteq> set (subnodes ms)"
  using that
proof (induction ns rule: subnodes.induct)
  case (2 k operands a ns)
  have "Operator k operands a \<in> set (subnodes ms) \<Longrightarrow> set operands \<subseteq> set (subnodes ms)"
    by (induction ms rule: subnodes.induct) (auto intro: subnodes_self)
  with 2 show ?case by auto
qed auto

lemma reduce_subnodes: "set (fst (reduce [l] right kind)) \<subseteq> set (subnodes (l # right))"
proof (induction right arbitrary: l)
  case (Cons r rs)
  have sub: "set (subnodes [n]) \<subseteq> set (subnodes ns)" "n \<in> set (subnodes ns)" if "n \<in> set ns" for n ns
    using that subnodes_self subnodes_trans [of "[n]" ns] by auto
  have rest: "set (subnodes (r # rs)) \<subseteq> set (subnodes (l # r # rs))"
    using subnodes_Cons [of l "r # rs"] by simp
  show ?case
  proof (cases rule: reduce_cases [of l r rs kind])
    case drop_left
    then show ?thesis using rest subnodes_self by fastforce
  next
    case (flatten_right operands a)
    then show ?thesis using subnodes_self by (auto simp: subnodes_Cons [of l "Operator kind operands a # rs"])
  next
    case drop_right
    then show ?thesis using subnodes_self [of _ "l # r # rs"] by auto
  next
    case (flatten_left operands a)
    then show ?thesis using subnodes_self by auto
  next
    case inner
    then show ?thesis using Cons.IH [of r] rest sub(2) [of l "l # r # rs"] by auto
  qed
qed (use subnodes_self in auto)

lemma NewOperator_normal:
  assumes "nodes \<noteq> []"
  shows "(\<exists>n \<in> set (subnodes nodes). NewOperator nodes kind = [n]) \<or>
         (\<exists>ops. NewOperator nodes kind = [Operator kind ops zero_annotation] \<and> 2 \<le> length ops \<and>
                stable kind ops \<and> set ops \<subseteq> set (subnodes nodes))"
  using assms
proof (induction nodes kind rule: NewOperator_induct)
  case (Single n kind)
  then show ?case using subnodes_self by auto
next
  case (Changed n m ns kind reduced)
  have ne: "reduced \<noteq> []"
    using Changed(2) NewOperator_eq_Nil [of reduced kind] NewOperator_eq_Nil [of "n # m # ns" kind] by auto
  have "set (subnodes reduced) \<subseteq> set (subnodes (n # m # ns))"
    by (rule subnodes_trans) (use reduce_subnodes [of n "m # ns" kind] Changed(1) in simp)
  with Changed(3) [OF ne] Changed(2) show ?case by (auto simp: subset_iff)
next
  case (Stable n m ns kind)
  have "stable kind (n # m # ns)" using Stable(1) reduce_stable [of n "m # ns" kind] by simp
  then show ?case using Stable(2) subnodes_self [of _ "n # m # ns"] by auto
qed simp

section \<open>Meaning\<close>

text \<open>
  The meaning of a query tree: \<open>V\<close> says which leaves hold, \<open>C\<close> what a concatenation of
  search patterns means. A concatenation that mixes patterns and parameters is read as a
  conjunction, as the planner does.
\<close>

fun sat :: "(node \<Rightarrow> bool) \<Rightarrow> (node list \<Rightarrow> bool) \<Rightarrow> node \<Rightarrow> bool" where
  "sat V C (Pattern p) \<longleftrightarrow> V (Pattern p)"
| "sat V C (Parameter p) \<longleftrightarrow> V (Parameter p)"
| "sat V C (Operator And operands a) \<longleftrightarrow> list_all (sat V C) operands"
| "sat V C (Operator Or operands a) \<longleftrightarrow> list_ex (sat V C) operands"
| "sat V C (Operator Concat operands a) \<longleftrightarrow>
     (if isPatternExpression operands then C operands else list_all (sat V C) operands)"

abbreviation sat_all :: "(node \<Rightarrow> bool) \<Rightarrow> (node list \<Rightarrow> bool) \<Rightarrow> node list \<Rightarrow> bool" where
  "sat_all V C \<equiv> list_all (sat V C)"

text \<open>A leaf with an empty value constrains nothing.\<close>

definition empty_holds :: "(node \<Rightarrow> bool) \<Rightarrow> bool" where
  "empty_holds V \<longleftrightarrow> (\<forall>n. empty_leaf n \<longrightarrow> V n)"

lemma sat_empty_leaf: "empty_holds V \<Longrightarrow> empty_leaf n \<Longrightarrow> sat V C n"
  by (cases n) (auto simp: empty_holds_def)

lemma reduce_sat_And:
  assumes "empty_holds V"
  shows "sat_all V C (fst (reduce [l] right And)) \<longleftrightarrow> sat_all V C (l # right)"
proof (induction right arbitrary: l)
  case (Cons r rs)
  have pe: "param_empty n \<Longrightarrow> empty_leaf n" for n by (cases n) auto
  show ?case
    by (cases rule: reduce_cases [of l r rs And])
       (use assms Cons.IH [of r] sat_empty_leaf pe in auto)
qed simp

lemma NewOperator_sat_And:
  assumes "empty_holds V"
  shows "sat_all V C (NewOperator nodes And) \<longleftrightarrow> sat_all V C nodes"
proof -
  have "kind = And \<Longrightarrow> sat_all V C (NewOperator nodes kind) \<longleftrightarrow> sat_all V C nodes" for kind
  proof (induction nodes kind rule: NewOperator_induct)
    case (Changed n m ns kind reduced)
    with reduce_sat_And [OF assms, of C n "m # ns"] show ?case by simp
  qed simp_all
  then show ?thesis by simp
qed

lemma reduce_sat_Or:
  assumes "list_all (\<lambda>n. \<not> empty_leaf n) (leaves (l # right))"
  shows "list_ex (sat V C) (fst (reduce [l] right Or)) \<longleftrightarrow> list_ex (sat V C) (l # right)"
  using assms
proof (induction right arbitrary: l)
  case (Cons r rs)
  have pe: "empty_leaf n \<Longrightarrow> leaves [n] = [n]" "param_empty n \<Longrightarrow> empty_leaf n" for n by (cases n; simp)+
  have lv: "leaves (l # r # rs) = leaves [l] @ leaves [r] @ leaves rs" "leaves (r # rs) = leaves [r] @ leaves rs"
    using leaves_append [of "[l]" "r # rs"] leaves_append [of "[r]" rs] by simp_all
  show ?case
    by (cases rule: reduce_cases [of l r rs Or])
       (use Cons.prems Cons.IH [of r] pe [of l] pe [of r] lv in auto)
qed simp

lemma leaves_Cons: "leaves (n # ns) = leaves [n] @ leaves ns"
  using leaves_append [of "[n]" ns] by simp

lemma reduce_leaves: "set (leaves (fst (reduce [l] right kind))) \<subseteq> set (leaves (l # right))"
proof (induction right arbitrary: l)
  case (Cons r rs)
  have lv: "leaves (l # x # xs) = leaves [l] @ leaves [x] @ leaves xs" for x xs
    using leaves_Cons [of l "x # xs"] leaves_Cons [of x xs] by simp
  show ?case
  proof (cases rule: reduce_cases [of l r rs kind])
    case drop_left
    then show ?thesis using lv leaves_Cons [of r rs] by auto
  next
    case (flatten_right operands a)
    then show ?thesis using lv leaves_Cons [of l "operands @ rs"] by auto
  next
    case drop_right
    then show ?thesis using lv leaves_Cons [of l rs] by auto
  next
    case (flatten_left operands a)
    then show ?thesis by auto
  next
    case inner
    then show ?thesis
      using Cons.IH [of r] lv leaves_Cons [of r rs] leaves_Cons [of l "fst (reduce [r] rs kind)"] by auto
  qed
qed simp

lemma NewOperator_leaves: "set (leaves (NewOperator nodes kind)) \<subseteq> set (leaves nodes)"
proof (induction nodes kind rule: NewOperator_induct)
  case (Changed n m ns kind reduced)
  with reduce_leaves [of n "m # ns" kind] show ?case by simp
qed simp_all

lemma leaves_visited:
  "Parameter p \<in> set (leaves nodes) \<longleftrightarrow> p \<in> set (VisitParameter nodes)"
  "Pattern q \<in> set (leaves nodes) \<longleftrightarrow> q \<in> set (VisitPattern nodes)"
  by (induction nodes rule: leaves.induct) auto

lemma isPatternExpression_leaves:
  "isPatternExpression nodes \<longleftrightarrow> (\<forall>n \<in> set (leaves nodes). \<not> is_Parameter_node n)"
  by (induction nodes rule: leaves.induct) auto

lemma isPatternExpression_NewOperator:
  "isPatternExpression nodes \<Longrightarrow> isPatternExpression (NewOperator nodes kind)"
  using NewOperator_leaves [of nodes kind] by (auto simp: isPatternExpression_leaves)

lemma NewOperator_sat_Or:
  assumes "list_all (\<lambda>n. \<not> empty_leaf n) (leaves nodes)"
  shows "list_ex (sat V C) (NewOperator nodes Or) \<longleftrightarrow> list_ex (sat V C) nodes"
proof -
  have "kind = Or \<Longrightarrow> list_all (\<lambda>n. \<not> empty_leaf n) (leaves nodes) \<Longrightarrow>
      list_ex (sat V C) (NewOperator nodes kind) \<longleftrightarrow> list_ex (sat V C) nodes" for kind
  proof (induction nodes kind rule: NewOperator_induct)
    case (Changed n m ns kind reduced)
    have "list_all (\<lambda>n. \<not> empty_leaf n) (leaves reduced)"
      using reduce_leaves [of n "m # ns" kind] Changed(1,5) by (auto simp: list_all_iff)
    with Changed reduce_sat_Or [of n "m # ns" V C] show ?case by simp
  qed simp_all
  with assms show ?thesis by simp
qed

section \<open>Partitioning the terms of a group\<close>

fun is_ordered_node :: "node \<Rightarrow> bool" where
  "is_ordered_node (Pattern p) = True"
| "is_ordered_node (Parameter p) = False"
| "is_ordered_node (Operator k operands a) = containsPattern (Operator k operands a)"

definition partitionParameters :: "node list \<Rightarrow> node list" where
  "partitionParameters nodes =
     (let patterns = filter is_ordered_node nodes;
          unorderedParams = filter (\<lambda>n. \<not> is_ordered_node n) nodes
      in if 1 < length patterns
         then NewOperator (unorderedParams @ NewOperator patterns Concat) And
         else NewOperator (unorderedParams @ patterns) And)"

lemma partitionParameters_terms:
  "terms (partitionParameters nodes) =
     terms (filter (\<lambda>n. \<not> is_ordered_node n) nodes) @ terms (filter is_ordered_node nodes)"
  by (simp add: partitionParameters_def Let_def NewOperator_terms)

lemma partitionParameters_eq_Nil [simp]: "partitionParameters nodes = [] \<longleftrightarrow> nodes = []"
proof -
  have "filter P nodes = [] \<and> filter (\<lambda>n. \<not> P n) nodes = [] \<longleftrightarrow> nodes = []" for P
    by (induction nodes) auto
  then show ?thesis by (auto simp: partitionParameters_def Let_def)
qed

lemma wf_nodes_filter: "wf_nodes nodes \<Longrightarrow> wf_nodes (filter P nodes)"
  by (induction nodes rule: wf_nodes.induct) auto

lemma partitionParameters_wf: "wf_nodes nodes \<Longrightarrow> wf_nodes (partitionParameters nodes)"
  by (simp add: partitionParameters_def Let_def NewOperator_wf wf_nodes_filter)

lemma NewOperator_length_le: "length (NewOperator nodes kind) \<le> 1"
  using NewOperator_length [of nodes kind] by (cases "nodes = []") auto

end
