(* ===== verification/Query_Mapper.thy ===== *)
theory Query_Mapper
  imports Query_Operator
begin

text \<open>
  Tree rewriting (\<open>internal/search/query/mapper.go\<close>) and the partition of a query into
  parameters and one search pattern (\<open>processTopLevel\<close>, \<open>PartitionSearchPattern\<close> of
  \<open>validate.go\<close>).

  A \<open>Mapper\<close> of the source is an object whose three methods are called back on the nodes of
  a tree. Its overridable methods are the arguments of the model: a callback returns
  \<open>None\<close> where the source returns nil, which removes the node.
\<close>

section \<open>Mappers (mapper.go)\<close>

text \<open>
  \<open>BaseMapper.MapNodes\<close> with \<open>BaseMapper.MapOperator\<close>: the children of an operator are
  mapped and the operator is rebuilt by \<open>NewOperator\<close>.
\<close>

fun MapNodes ::
    "(parameter \<Rightarrow> node option) \<Rightarrow> (pattern \<Rightarrow> node option) \<Rightarrow> node list \<Rightarrow> node list" where
  "MapNodes fp fq [] = []"
| "MapNodes fp fq (Pattern p # ns) =
     (case fq p of Some n \<Rightarrow> n # MapNodes fp fq ns | None \<Rightarrow> MapNodes fp fq ns)"
| "MapNodes fp fq (Parameter p # ns) =
     (case fp p of Some n \<Rightarrow> n # MapNodes fp fq ns | None \<Rightarrow> MapNodes fp fq ns)"
| "MapNodes fp fq (Operator k operands a # ns) =
     NewOperator (MapNodes fp fq operands) k @ MapNodes fp fq ns"

definition MapParameter :: "node list \<Rightarrow> (parameter \<Rightarrow> node option) \<Rightarrow> node list" where
  "MapParameter nodes callback = MapNodes callback (\<lambda>p. Some (Pattern p)) nodes"

definition MapPattern :: "node list \<Rightarrow> (pattern \<Rightarrow> node option) \<Rightarrow> node list" where
  "MapPattern nodes callback = MapNodes (\<lambda>p. Some (Parameter p)) callback nodes"

definition MapField :: "node list \<Rightarrow> string \<Rightarrow> (parameter \<Rightarrow> node option) \<Rightarrow> node list" where
  "MapField nodes field callback =
     MapNodes (\<lambda>p. if par_Field p = field then callback p else Some (Parameter p))
       (\<lambda>p. Some (Pattern p)) nodes"

text \<open>\<open>OperatorMapper\<close>: an operator is replaced by the callback's nodes, joined by \<open>And\<close>.\<close>

fun MapOperator :: "node list \<Rightarrow> (OperatorKind \<Rightarrow> node list \<Rightarrow> node list) \<Rightarrow> node list" where
  "MapOperator [] callback = []"
| "MapOperator (Operator k operands a # ns) callback =
     NewOperator (callback k operands) And @ MapOperator ns callback"
| "MapOperator (n # ns) callback = n # MapOperator ns callback"

lemma MapNodes_append [simp]: "MapNodes fp fq (xs @ ys) = MapNodes fp fq xs @ MapNodes fp fq ys"
  by (induction xs rule: leaves.induct) (auto split: option.split)

text \<open>The effect of a mapper on one leaf.\<close>

fun map_leaf ::
    "(parameter \<Rightarrow> node option) \<Rightarrow> (pattern \<Rightarrow> node option) \<Rightarrow> node \<Rightarrow> node list" where
  "map_leaf fp fq (Pattern p) = (case fq p of Some n \<Rightarrow> [n] | None \<Rightarrow> [])"
| "map_leaf fp fq (Parameter p) = (case fp p of Some n \<Rightarrow> [n] | None \<Rightarrow> [])"
| "map_leaf fp fq (Operator k operands a) = []"

text \<open>
  The terms of a mapped tree are the terms of the mapped leaves: rebuilding the operators
  loses, adds and reorders nothing that carries a value.
\<close>

lemma MapNodes_terms:
  "terms (MapNodes fp fq nodes) = terms (concat (map (map_leaf fp fq) (leaves nodes)))"
proof (induction nodes rule: leaves.induct)
  case (3 p ns)
  then show ?case
    using terms_Cons [of "the (fp p)" "MapNodes fp fq ns"]
      terms_Cons [of "the (fp p)" "concat (map (map_leaf fp fq) (leaves ns))"]
    by (cases "fp p") auto
next
  case (4 p ns)
  then show ?case
    using terms_Cons [of "the (fq p)" "MapNodes fp fq ns"]
      terms_Cons [of "the (fq p)" "concat (map (map_leaf fp fq) (leaves ns))"]
    by (cases "fq p") auto
qed (simp_all add: NewOperator_terms)

lemma MapNodes_leaves:
  "set (leaves (MapNodes fp fq nodes)) \<subseteq> (\<Union>l \<in> set (leaves nodes). set (leaves (map_leaf fp fq l)))"
proof (induction nodes rule: leaves.induct)
  case (2 k operands a ns)
  have "set (leaves (NewOperator (MapNodes fp fq operands) k)) \<subseteq>
      (\<Union>l \<in> set (leaves operands). set (leaves (map_leaf fp fq l)))"
    using NewOperator_leaves 2(1) by (rule order_trans)
  with 2(2) show ?case by auto
next
  case (3 p ns)
  then show ?case using leaves_Cons [of "the (fp p)" "MapNodes fp fq ns"] by (cases "fp p") auto
next
  case (4 p ns)
  then show ?case using leaves_Cons [of "the (fq p)" "MapNodes fp fq ns"] by (cases "fq p") auto
qed simp

lemma MapParameter_visited:
  "q \<in> set (VisitParameter (MapParameter nodes f)) \<Longrightarrow>
     \<exists>p \<in> set (VisitParameter nodes). \<exists>n. f p = Some n \<and> q \<in> set (VisitParameter [n])"
proof -
  assume "q \<in> set (VisitParameter (MapParameter nodes f))"
  then have "Parameter q \<in> set (leaves (MapNodes f (\<lambda>p. Some (Pattern p)) nodes))"
    by (simp add: leaves_visited MapParameter_def)
  then obtain l where l: "l \<in> set (leaves nodes)" "Parameter q \<in> set (leaves (map_leaf f (\<lambda>p. Some (Pattern p)) l))"
    using MapNodes_leaves [of f "\<lambda>p. Some (Pattern p)" nodes] by blast
  show ?thesis
  proof (cases l)
  qed (use l in \<open>auto simp: leaves_visited split: option.splits\<close>)
qed

lemma MapNodes_wf:
  assumes "\<And>p n. fp p = Some n \<Longrightarrow> wf_nodes [n]" and "\<And>p n. fq p = Some n \<Longrightarrow> wf_nodes [n]"
  shows "wf_nodes nodes \<Longrightarrow> wf_nodes (MapNodes fp fq nodes)"
proof (induction nodes rule: leaves.induct)
  case (3 p ns)
  then show ?case using assms(1) wf_nodes_Cons [of "the (fp p)" "MapNodes fp fq ns"]
    by (auto split: option.split)
next
  case (4 p ns)
  then show ?case using assms(2) wf_nodes_Cons [of "the (fq p)" "MapNodes fp fq ns"]
    by (auto split: option.split)
qed (auto intro: NewOperator_wf)

section \<open>Partitioning a query (validate.go)\<close>

definition processTopLevel :: "node list \<Rightarrow> query_error + node list" where
  "processTopLevel nodes =
     (case nodes of
        Operator k operands a # _ \<Rightarrow>
          if k = And \<and> isPatternExpression [Operator k operands a] then Inr nodes
          else if k = Or \<and> isPatternExpression [Operator k operands a] then Inr nodes
          else if k = And then Inr operands
          else if k = Concat then Inr nodes
          else Inl UnsupportedError
      | _ \<Rightarrow> Inr nodes)"

text \<open>The loop of \<open>PartitionSearchPattern\<close> over the top-level nodes.\<close>

fun partition_loop :: "node list \<Rightarrow> query_error + (parameter list \<times> node list)" where
  "partition_loop [] = Inr ([], [])"
| "partition_loop (n # ns) =
     (if isPatternExpression [n] then
        (case partition_loop ns of
           Inl e \<Rightarrow> Inl e
         | Inr (parameters, patterns) \<Rightarrow> Inr (parameters, n # patterns))
      else case n of
        Parameter p \<Rightarrow>
          (case partition_loop ns of
             Inl e \<Rightarrow> Inl e
           | Inr (parameters, patterns) \<Rightarrow> Inr (p # parameters, patterns))
      | _ \<Rightarrow> Inl UnsupportedError)"

definition PartitionSearchPattern ::
    "node list \<Rightarrow> query_error + (parameter list \<times> node option)" where
  "PartitionSearchPattern nodes =
     (case (if length nodes = 1 then processTopLevel nodes else Inr nodes) of
        Inl e \<Rightarrow> Inl e
      | Inr nodes' \<Rightarrow>
          (case partition_loop nodes' of
             Inl e \<Rightarrow> Inl e
           | Inr (parameters, patterns) \<Rightarrow>
               Inr (parameters,
                    if 1 < length patterns then Some (Operator And patterns zero_annotation)
                    else if length patterns = 1 then Some (hd patterns)
                    else None)))"

lemma partition_loop_sat:
  "partition_loop ns = Inr (ps, qs) \<Longrightarrow>
     sat_all V C ns \<longleftrightarrow> list_all (\<lambda>p. V (Parameter p)) ps \<and> sat_all V C qs"
  by (induction ns arbitrary: ps qs) (auto split: if_splits sum.splits node.splits)

lemma partition_loop_patterns:
  "partition_loop ns = Inr (ps, qs) \<Longrightarrow> isPatternExpression qs \<and> VisitParameter ns = ps"
proof (induction ns arbitrary: ps qs)
  case (Cons n ns)
  have vis: "VisitParameter (n # ns) = VisitParameter [n] @ VisitParameter ns"
    using VisitParameter_simps(5) [of "[n]" ns] by simp
  show ?case
  proof (cases "isPatternExpression [n]")
    case True
    with Cons.prems obtain qs' where "partition_loop ns = Inr (ps, qs')" "qs = n # qs'"
      by (auto split: sum.splits)
    with Cons.IH True vis isPatternExpression_append [of "[n]" qs'] show ?thesis
      by (simp add: isPatternExpression_no_parameters)
  next
    case False
    with Cons.prems obtain p ps' where "n = Parameter p" "partition_loop ns = Inr (ps', qs)" "ps = p # ps'"
      by (auto split: sum.splits node.splits)
    with Cons.IH show ?thesis by simp
  qed
qed simp

lemma processTopLevel_sat:
  "processTopLevel nodes = Inr ns \<Longrightarrow> length nodes = 1 \<Longrightarrow> sat_all V C ns \<longleftrightarrow> sat_all V C nodes"
  by (auto simp: processTopLevel_def length_Suc_conv split: node.splits if_splits OperatorKind.splits)

text \<open>
  A successful partition splits the query into a conjunction: the parameters and the
  pattern together mean the query, and the pattern contains no parameter.
\<close>

lemma PartitionSearchPattern_sat:
  assumes "PartitionSearchPattern nodes = Inr (ps, q)"
  shows "sat_all V C nodes \<longleftrightarrow>
           list_all (\<lambda>p. V (Parameter p)) ps \<and> (\<forall>n. q = Some n \<longrightarrow> sat V C n)"
    and "\<And>n. q = Some n \<Longrightarrow> isPatternExpression [n]"
proof -
  obtain ns qs where ns: "(if length nodes = 1 then processTopLevel nodes else Inr nodes) = Inr ns"
    and loop: "partition_loop ns = Inr (ps, qs)"
    and q: "q = (if 1 < length qs then Some (Operator And qs zero_annotation)
                 else if length qs = 1 then Some (hd qs) else None)"
    using assms by (auto simp: PartitionSearchPattern_def split: sum.splits)
  have "sat_all V C nodes \<longleftrightarrow> sat_all V C ns"
    using ns processTopLevel_sat by (auto split: if_splits)
  moreover have "sat_all V C qs \<longleftrightarrow> (\<forall>n. q = Some n \<longrightarrow> sat V C n)"
    by (cases qs rule: remdups_adj.cases) (auto simp: q)
  ultimately show "sat_all V C nodes \<longleftrightarrow>
      list_all (\<lambda>p. V (Parameter p)) ps \<and> (\<forall>n. q = Some n \<longrightarrow> sat V C n)"
    using partition_loop_sat [OF loop] by simp
  show "\<And>n. q = Some n \<Longrightarrow> isPatternExpression [n]"
    using partition_loop_patterns [OF loop] by (cases qs rule: remdups_adj.cases) (auto simp: q)
qed

end
