(* ===== verification/Query_Hoist.thy ===== *)
theory Query_Hoist
  imports Query_Mapper "HOL-Library.Multiset"
begin

text \<open>
  The hoisting heuristic (\<open>naturallyOrdered\<close> and \<open>Hoist\<close> of
  \<open>internal/search/query/transformer.go\<close>), which reads \<open>repo:foo a or b\<close> as
  \<open>repo:foo (a or b)\<close>.

  Shown here: a successful hoist keeps every term of the query (up to the label it adds to
  the patterns), its result is a list of parameters followed by at most one pattern
  expression, and the columns at which the heuristic applies are characterised exactly.
\<close>

section \<open>Definitions\<close>

definition toNodes :: "parameter list \<Rightarrow> node list" where
  "toNodes parameters = map Parameter parameters"

abbreviation start_column :: "annotation \<Rightarrow> int" where
  "start_column a \<equiv> Column (Start (ann_Range a))"

definition naturallyOrdered :: "node \<Rightarrow> bool \<Rightarrow> bool" where
  "naturallyOrdered n reverse =
     (let parameters = map (\<lambda>p. start_column (par_Annotation p)) (VisitParameter [n]);
          patterns = map (\<lambda>p. start_column (pat_Annotation p)) (VisitPattern [n]);
          rightmostParameterPos = fold max parameters 0;
          rightmostPatternPos = fold max patterns 0;
          leftmostParameterPos = fold min parameters (2 ^ 30);
          leftmostPatternPos = fold min patterns (2 ^ 30)
      in if reverse then rightmostPatternPos < leftmostParameterPos
         else rightmostParameterPos < leftmostPatternPos)"

text \<open>The first and the last operand are partitioned into scope and pattern.\<close>

definition hoist_border ::
    "node \<Rightarrow> bool \<Rightarrow> query_error + (parameter list \<times> node)" where
  "hoist_border n reverse =
     (case PartitionSearchPattern [n] of
        Inr (scopePart, Some patternPart) \<Rightarrow>
          if \<not> naturallyOrdered n reverse then Inl HoistUnnatural
          else Inr (scopePart, patternPart)
      | _ \<Rightarrow> Inl HoistPartition)"

text \<open>The loop over the operands: \<open>i\<close> is the index, \<open>n\<close> the number of operands.\<close>

fun hoist_loop ::
    "nat \<Rightarrow> nat \<Rightarrow> node list \<Rightarrow> node list \<Rightarrow> parameter list \<Rightarrow>
     query_error + (node list \<times> parameter list)" where
  "hoist_loop n i [] patterns scope = Inr (patterns, scope)"
| "hoist_loop n i (nd # nds) patterns scope =
     (if i = 0 then
        (case hoist_border nd False of
           Inl e \<Rightarrow> Inl e
         | Inr (scopePart, patternPart) \<Rightarrow>
             hoist_loop n (i + 1) nds (patterns @ [patternPart]) (scope @ scopePart))
      else if i = n - 1 then
        (case hoist_border nd True of
           Inl e \<Rightarrow> Inl e
         | Inr (scopePart, patternPart) \<Rightarrow>
             hoist_loop n (i + 1) nds (patterns @ [patternPart]) (scope @ scopePart))
      else if \<not> isPatternExpression [nd] then Inl (HoistInner nd)
      else hoist_loop n (i + 1) nds (patterns @ [nd]) scope)"

definition mark_hoisted :: "pattern \<Rightarrow> pattern" where
  "mark_hoisted p =
     p\<lparr>pat_Annotation := (pat_Annotation p)\<lparr>ann_Labels := ann_Labels (pat_Annotation p) OR HeuristicHoisted\<rparr>\<rparr>"

definition Hoist :: "node list \<Rightarrow> query_error + node list" where
  "Hoist nodes =
     (if length nodes \<noteq> 1 then Inl HoistNotSingle
      else case hd nodes of
        Operator kind operands a \<Rightarrow>
          if kind = Concat then Inl HoistNotOperator
          else (case hoist_loop (length operands) 0 operands [] [] of
                  Inl e \<Rightarrow> Inl e
                | Inr (patterns, scopeParameters) \<Rightarrow>
                    Inr (toNodes scopeParameters @
                         NewOperator (MapPattern patterns (\<lambda>p. Some (Pattern (mark_hoisted p)))) kind))
      | _ \<Rightarrow> Inl HoistNotOperator)"

section \<open>Where the heuristic applies\<close>

lemma fold_max_le: "fold max xs (b :: int) < c \<longleftrightarrow> b < c \<and> (\<forall>x \<in> set xs. x < c)"
  by (induction xs arbitrary: b) auto

lemma fold_min_gt: "c < fold min xs (b :: int) \<longleftrightarrow> c < b \<and> (\<forall>x \<in> set xs. c < x)"
  by (induction xs arbitrary: b) auto

text \<open>
  Reading left to right, a node is naturally ordered when every pattern starts after every
  parameter and no pattern starts at column 0.
\<close>

lemma naturallyOrdered_forward:
  "naturallyOrdered n False \<longleftrightarrow>
     (\<forall>p \<in> set (VisitParameter [n]). start_column (par_Annotation p) < 2 ^ 30) \<and>
     (\<forall>q \<in> set (VisitPattern [n]). 0 < start_column (pat_Annotation q)) \<and>
     (\<forall>p \<in> set (VisitParameter [n]). \<forall>q \<in> set (VisitPattern [n]).
        start_column (par_Annotation p) < start_column (pat_Annotation q))"
  by (auto simp: naturallyOrdered_def Let_def fold_max_le fold_min_gt)

section \<open>Terms\<close>

fun hoisted_leaf :: "node \<Rightarrow> node" where
  "hoisted_leaf (Pattern p) = Pattern (mark_hoisted p)"
| "hoisted_leaf n = n"

lemma empty_leaf_strip [simp]: "empty_leaf (hoisted_leaf n) = empty_leaf n"
  by (cases n) (auto simp: mark_hoisted_def)

lemma map_leaf_mark:
  "concat (map (map_leaf (\<lambda>p. Some (Parameter p)) (\<lambda>p. Some (Pattern (mark_hoisted p)))) (leaves ns)) =
   map hoisted_leaf (leaves ns)"
  by (induction ns rule: leaves.induct) auto

lemma MapPattern_mark_terms:
  "terms (MapPattern ns (\<lambda>p. Some (Pattern (mark_hoisted p)))) = map hoisted_leaf (terms ns)"
proof -
  have "leaves (map hoisted_leaf (leaves ns)) = map hoisted_leaf (leaves ns)"
    by (induction ns rule: leaves.induct) auto
  then have "terms (map hoisted_leaf (leaves ns)) = map hoisted_leaf (terms ns)"
    by (simp add: terms_def filter_map o_def)
  then show ?thesis by (simp add: MapPattern_def MapNodes_terms map_leaf_mark)
qed

lemma MapPattern_mark_leaves:
  "set (leaves (MapPattern ns (\<lambda>p. Some (Pattern (mark_hoisted p))))) \<subseteq> hoisted_leaf ` set (leaves ns)"
  unfolding MapPattern_def
proof (induction ns rule: leaves.induct)
  case (2 k operands a ns)
  have "set (leaves (NewOperator (MapNodes (\<lambda>p. Some (Parameter p)) (\<lambda>p. Some (Pattern (mark_hoisted p))) operands) k))
      \<subseteq> hoisted_leaf ` set (leaves operands)"
    using NewOperator_leaves 2(1) by (rule order_trans)
  with 2(2) show ?case by (auto simp: image_Un)
qed auto

lemma MapPattern_mark_pattern_expression:
  "isPatternExpression ns \<Longrightarrow> isPatternExpression (MapPattern ns (\<lambda>p. Some (Pattern (mark_hoisted p))))"
  unfolding MapPattern_def
  by (induction ns rule: leaves.induct) (auto intro: isPatternExpression_NewOperator)

lemma partition_loop_leaves:
  "partition_loop ns = Inr (ps, qs) \<Longrightarrow> mset (leaves ns) = mset (leaves (toNodes ps)) + mset (leaves qs)"
proof (induction ns arbitrary: ps qs)
  case (Cons n ns)
  show ?case
  proof (cases "isPatternExpression [n]")
    case True
    with Cons.prems obtain qs' where "partition_loop ns = Inr (ps, qs')" "qs = n # qs'"
      by (auto split: sum.splits)
    with Cons.IH leaves_Cons [of n ns] leaves_Cons [of n qs'] show ?thesis by simp
  next
    case False
    with Cons.prems obtain p ps' where
      "n = Parameter p" "partition_loop ns = Inr (ps', qs)" "ps = p # ps'"
      by (auto split: sum.splits node.splits)
    with Cons.IH leaves_Cons [of n ns] leaves_Cons [of n "toNodes ps'"] show ?thesis
      by (simp add: toNodes_def)
  qed
qed (simp add: toNodes_def)

lemma processTopLevel_leaves:
  "processTopLevel nodes = Inr ns \<Longrightarrow> length nodes = 1 \<Longrightarrow> leaves ns = leaves nodes"
  by (auto simp: processTopLevel_def length_Suc_conv split: node.splits if_splits)

lemma PartitionSearchPattern_leaves:
  assumes "PartitionSearchPattern nodes = Inr (ps, q)"
  shows "mset (leaves nodes) =
           mset (leaves (toNodes ps)) + mset (leaves (case q of Some n \<Rightarrow> [n] | None \<Rightarrow> []))"
proof -
  obtain ns qs where ns: "(if length nodes = 1 then processTopLevel nodes else Inr nodes) = Inr ns"
    and loop: "partition_loop ns = Inr (ps, qs)"
    and q: "q = (if 1 < length qs then Some (Operator And qs zero_annotation)
                 else if length qs = 1 then Some (hd qs) else None)"
    using assms by (auto simp: PartitionSearchPattern_def split: sum.splits)
  have "leaves ns = leaves nodes" using ns processTopLevel_leaves by (auto split: if_splits)
  moreover have "leaves (case q of Some n \<Rightarrow> [n] | None \<Rightarrow> []) = leaves qs"
    by (cases qs rule: remdups_adj.cases) (auto simp: q)
  ultimately show ?thesis using partition_loop_leaves [OF loop] by simp
qed

lemma hoist_border_leaves:
  assumes "hoist_border n reverse = Inr (ps, q)"
  shows "mset (leaves [n]) = mset (leaves (toNodes ps)) + mset (leaves [q])"
    and "isPatternExpression [q]"
proof -
  have part: "PartitionSearchPattern [n] = Inr (ps, Some q)"
    using assms by (auto simp: hoist_border_def split: sum.splits option.splits if_splits)
  show "mset (leaves [n]) = mset (leaves (toNodes ps)) + mset (leaves [q])"
    using PartitionSearchPattern_leaves [OF part] by simp
  show "isPatternExpression [q]" using PartitionSearchPattern_sat(2) [OF part] by simp
qed

lemma toNodes_append [simp]: "toNodes (xs @ ys) = toNodes xs @ toNodes ys"
  by (simp add: toNodes_def)

lemma hoist_loop_spec:
  assumes "hoist_loop n i nds qs ps = Inr (qs', ps')"
  shows "mset (leaves (toNodes ps')) + mset (leaves qs') =
           mset (leaves (toNodes ps)) + mset (leaves qs) + mset (leaves nds) \<and>
         (isPatternExpression qs \<longrightarrow> isPatternExpression qs')"
  using assms
proof (induction nds arbitrary: i qs ps)
  case (Cons nd nds)
  show ?case
  proof (cases "i = 0 \<or> i = n - 1")
    case True
    define rev where "rev = (i \<noteq> 0)"
    from True Cons.prems obtain sp pt where b: "hoist_border nd rev = Inr (sp, pt)"
      and rec: "hoist_loop n (i + 1) nds (qs @ [pt]) (ps @ sp) = Inr (qs', ps')"
      by (cases "hoist_border nd rev") (auto simp: rev_def split: if_splits)
    show ?thesis using Cons.IH [OF rec] hoist_border_leaves [OF b] leaves_Cons [of nd nds] by simp
  next
    case False
    with Cons.prems have pe: "isPatternExpression [nd]"
      and rec: "hoist_loop n (i + 1) nds (qs @ [nd]) ps = Inr (qs', ps')"
      by (auto split: if_splits)
    show ?thesis using Cons.IH [OF rec] pe leaves_Cons [of nd nds] by simp
  qed
qed simp

text \<open>
  A successful hoist puts every parameter first and leaves at most one pattern expression
  behind them; it loses no term and invents none, and only the patterns gain a label.
\<close>

lemma Hoist_terms:
  assumes "Hoist nodes = Inr ns"
  shows "mset (terms ns) = mset (map hoisted_leaf (terms nodes))"
    and "\<exists>ps qs. ns = map Parameter ps @ qs \<and> isPatternExpression qs \<and> length qs \<le> 1"
    and "set (leaves ns) \<subseteq> hoisted_leaf ` set (leaves nodes)"
proof -
  obtain kind operands a qs ps where nodes: "nodes = [Operator kind operands a]"
    and loop: "hoist_loop (length operands) 0 operands [] [] = Inr (qs, ps)"
    and ns: "ns = toNodes ps @ NewOperator (MapPattern qs (\<lambda>p. Some (Pattern (mark_hoisted p)))) kind"
    using assms by (auto simp: Hoist_def length_Suc_conv split: if_splits node.splits sum.splits)
  have params: "map hoisted_leaf (terms (toNodes ps)) = terms (toNodes ps)"
    unfolding toNodes_def by (induction ps) (auto simp: terms_def)
  have lv: "mset (leaves (toNodes ps)) + mset (leaves qs) = mset (leaves nodes)"
    using hoist_loop_spec [OF loop] nodes by (simp add: toNodes_def)
  then have "mset (terms (toNodes ps)) + mset (terms qs) = mset (terms nodes)"
    by (metis filter_union_mset mset_filter terms_def)
  then have "mset (map hoisted_leaf (terms (toNodes ps))) + mset (map hoisted_leaf (terms qs)) =
      mset (map hoisted_leaf (terms nodes))"
    by (metis image_mset_union mset_map)
  then show "mset (terms ns) = mset (map hoisted_leaf (terms nodes))"
    using params by (simp add: ns NewOperator_terms MapPattern_mark_terms)
  let ?qs = "NewOperator (MapPattern qs (\<lambda>p. Some (Pattern (mark_hoisted p)))) kind"
  have "ns = map Parameter ps @ ?qs" by (simp add: ns toNodes_def)
  moreover have "isPatternExpression ?qs" "length ?qs \<le> 1"
    using hoist_loop_spec [OF loop] MapPattern_mark_pattern_expression [of qs]
      isPatternExpression_NewOperator NewOperator_length_le by simp_all
  ultimately show "\<exists>ps qs. ns = map Parameter ps @ qs \<and> isPatternExpression qs \<and> length qs \<le> 1"
    by blast
  have "leaves (toNodes ps) = map hoisted_leaf (leaves (toNodes ps))"
    unfolding toNodes_def by (induction ps) auto
  then have "set (leaves (toNodes ps)) \<subseteq> hoisted_leaf ` set (leaves (toNodes ps))"
    using set_map [of hoisted_leaf "leaves (toNodes ps)"] by simp
  moreover have "set (leaves (MapPattern qs (\<lambda>p. Some (Pattern (mark_hoisted p))))) \<subseteq> hoisted_leaf ` set (leaves qs)"
    by (rule MapPattern_mark_leaves)
  moreover have "set (leaves (toNodes ps)) \<union> set (leaves qs) = set (leaves nodes)"
    using lv by (metis set_mset_mset set_mset_union)
  moreover have "set (leaves ns) \<subseteq> set (leaves (toNodes ps)) \<union>
      set (leaves (MapPattern qs (\<lambda>p. Some (Pattern (mark_hoisted p)))))"
    using NewOperator_leaves [of "MapPattern qs (\<lambda>p. Some (Pattern (mark_hoisted p)))" kind] ns by auto
  ultimately show "set (leaves ns) \<subseteq> hoisted_leaf ` set (leaves nodes)"
    unfolding image_Un [of hoisted_leaf, symmetric] by blast
qed

section \<open>Well-formedness\<close>

lemma partition_loop_wf: "partition_loop ns = Inr (ps, qs) \<Longrightarrow> wf_nodes ns \<Longrightarrow> wf_nodes qs"
proof (induction ns arbitrary: ps qs)
  case (Cons n ns)
  then have wf: "wf_nodes [n]" "wf_nodes ns" using wf_nodes_Cons [of n ns] by simp_all
  show ?case
  proof (cases "isPatternExpression [n]")
    case True
    with Cons.prems obtain qs' where "partition_loop ns = Inr (ps, qs')" "qs = n # qs'"
      by (auto split: sum.splits)
    with Cons.IH wf wf_nodes_Cons [of n qs'] show ?thesis by simp
  next
    case False
    with Cons.prems obtain ps' where "partition_loop ns = Inr (ps', qs)"
      by (auto split: sum.splits node.splits)
    with Cons.IH wf show ?thesis by simp
  qed
qed simp

lemma PartitionSearchPattern_wf:
  assumes "PartitionSearchPattern nodes = Inr (ps, Some q)" and "wf_nodes nodes"
  shows "wf_nodes [q]"
proof -
  obtain ns qs where ns: "(if length nodes = 1 then processTopLevel nodes else Inr nodes) = Inr ns"
    and loop: "partition_loop ns = Inr (ps, qs)"
    and q: "Some q = (if 1 < length qs then Some (Operator And qs zero_annotation)
                 else if length qs = 1 then Some (hd qs) else None)"
    using assms(1) by (auto simp: PartitionSearchPattern_def split: sum.splits)
  have "wf_nodes ns" using ns assms(2)
    by (auto simp: processTopLevel_def length_Suc_conv split: node.splits if_splits)
  from partition_loop_wf [OF loop this] q show ?thesis
    by (cases qs rule: remdups_adj.cases) auto
qed

lemma hoist_loop_wf:
  assumes "hoist_loop n i nds qs ps = Inr (qs', ps')" and "wf_nodes nds" and "wf_nodes qs"
  shows "wf_nodes qs'"
  using assms
proof (induction nds arbitrary: i qs ps)
  case (Cons nd nds)
  then have wf: "wf_nodes [nd]" "wf_nodes nds" using wf_nodes_Cons [of nd nds] by simp_all
  have border: "wf_nodes [q]" if "hoist_border nd r = Inr (sp, q)" for r sp q
    using that wf(1) PartitionSearchPattern_wf [of "[nd]" sp q]
    by (auto simp: hoist_border_def split: sum.splits option.splits if_splits)
  show ?case using Cons.prems wf Cons.IH border by (auto split: if_splits sum.splits)
qed simp

lemma wf_nodes_toNodes [simp]: "wf_nodes (toNodes ps)"
  unfolding toNodes_def by (induction ps) simp_all

lemma Hoist_wf:
  assumes "Hoist nodes = Inr ns" and "wf_nodes nodes"
  shows "wf_nodes ns"
proof -
  obtain kind operands a qs ps where nodes: "nodes = [Operator kind operands a]"
    and loop: "hoist_loop (length operands) 0 operands [] [] = Inr (qs, ps)"
    and ns: "ns = toNodes ps @ NewOperator (MapPattern qs (\<lambda>p. Some (Pattern (mark_hoisted p)))) kind"
    using assms(1) by (auto simp: Hoist_def length_Suc_conv split: if_splits node.splits sum.splits)
  have "wf_nodes qs" using hoist_loop_wf [OF loop] assms(2) nodes by simp
  then show ?thesis by (auto simp: ns MapPattern_def intro!: NewOperator_wf MapNodes_wf)
qed

end
