(* ===== verification/Query_Parser.thy ===== *)
theory Query_Parser
  imports Query_Hoist
begin

text \<open>
  The recursive-descent parser of \<open>internal/search/query/parser.go\<close>: the \<open>parser\<close> struct
  with its lookahead methods, the leaf parsers, \<open>parseLeaves\<close>, \<open>parseAnd\<close>, \<open>parseOr\<close>, the
  fallback parser and \<open>Parse\<close>, with \<open>validatePureLiteralPattern\<close> of \<open>validate.go\<close>.

  A method with a pointer receiver takes the \<open>parser\<close> record and returns the updated one. A
  method that can fail returns its error on the left of a sum; \<open>Panicked\<close> is a run-time
  panic. The mutual recursion of \<open>parseLeaves\<close>, \<open>parseAnd\<close> and \<open>parseOr\<close> carries a bound on
  its depth, \<open>3 * n + 3\<close> for a buffer of \<open>n\<close> bytes.

  Shown here: the bound is never used up and no panic is reached, so \<open>Parse\<close> returns nodes or
  one of the error messages of the source on every input; the position never leaves the
  buffer; the resulting trees are well formed; and every term spans bytes of the input.
\<close>

section \<open>The parser state and its lookahead methods\<close>

type_synonym heuristics = "8 word"
type_synonym keyword = string

abbreviation parensAsPatterns :: heuristics where "parensAsPatterns \<equiv> 1"
abbreviation allowDanglingParens :: heuristics where "allowDanglingParens \<equiv> 2"
abbreviation disambiguated :: heuristics where "disambiguated \<equiv> 4"

definition isSet :: "heuristics \<Rightarrow> heuristics \<Rightarrow> bool" where
  "isSet h heuristic \<longleftrightarrow> h AND heuristic \<noteq> 0"

record parser =
  p_buf :: string
  p_heuristics :: heuristics
  p_pos :: nat
  p_balanced :: int
  p_leafParser :: SearchType

text \<open>\<open>p.buf[p.pos:]\<close>\<close>

abbreviation remaining :: "parser \<Rightarrow> string" where
  "remaining p \<equiv> drop (p_pos p) (p_buf p)"

definition parser_done :: "parser \<Rightarrow> bool" where
  "parser_done p \<longleftrightarrow> p_pos p \<ge> length (p_buf p)"

text \<open>\<open>next\<close> panics at the end of the buffer.\<close>

definition parser_next :: "parser \<Rightarrow> (rune \<times> parser) option" where
  "parser_next p =
     (if parser_done p then None
      else case DecodeRune (remaining p) of (r, advance) \<Rightarrow>
        Some (r, p\<lparr>p_pos := p_pos p + advance\<rparr>))"

text \<open>
  \<open>peek\<close>: \<open>None\<close> is the short-buffer error. The position is restored by the deferred
  function, so only the runes are returned.
\<close>

fun peek_loop :: "parser \<Rightarrow> nat \<Rightarrow> rune list \<Rightarrow> rune list option" where
  "peek_loop p 0 result = Some result"
| "peek_loop p (Suc n) result =
     (if parser_done p then None
      else case parser_next p of
        None \<Rightarrow> None
      | Some (r, p') \<Rightarrow> peek_loop p' n (result @ [r]))"

definition peek :: "parser \<Rightarrow> nat \<Rightarrow> string option" where
  "peek p n = (case peek_loop p n [] of None \<Rightarrow> None | Some rs \<Rightarrow> Some (string_of_runes rs))"

definition parser_match :: "parser \<Rightarrow> keyword \<Rightarrow> bool" where
  "parser_match p kw = (case peek p (length kw) of None \<Rightarrow> False | Some v \<Rightarrow> strings_EqualFold v kw)"

definition parser_expect :: "parser \<Rightarrow> keyword \<Rightarrow> bool \<times> parser" where
  "parser_expect p kw =
     (if \<not> parser_match p kw then (False, p) else (True, p\<lparr>p_pos := p_pos p + length kw\<rparr>))"

definition byte_at :: "parser \<Rightarrow> nat \<Rightarrow> string" where
  "byte_at p i = take 1 (drop i (p_buf p))"

definition matchKeyword :: "parser \<Rightarrow> keyword \<Rightarrow> bool" where
  "matchKeyword p kw \<longleftrightarrow>
     (if p_pos p = 0 then False
      else if \<not> isSpace (byte_at p (p_pos p - 1)) then False
      else case peek p (length kw) of
        None \<Rightarrow> False
      | Some v \<Rightarrow>
          let after = p_pos p + length kw in
          if after \<ge> length (p_buf p) \<or> \<not> isSpace (byte_at p after) then False
          else strings_EqualFold v kw)"

definition matchUnaryKeyword :: "parser \<Rightarrow> keyword \<Rightarrow> bool" where
  "matchUnaryKeyword p kw \<longleftrightarrow>
     (if p_pos p \<noteq> 0 \<and>
         \<not> (isSpace (byte_at p (p_pos p - 1)) \<or> byte_at p (p_pos p - 1) = ''('') then False
      else case peek p (length kw) of
        None \<Rightarrow> False
      | Some v \<Rightarrow>
          let after = p_pos p + length kw in
          if after \<ge> length (p_buf p) \<or> \<not> isSpace (byte_at p after) then False
          else strings_EqualFold v kw)"

definition skipSpaces :: "parser \<Rightarrow> query_error + parser" where
  "skipSpaces p =
     (if p_pos p > length (p_buf p) then Inl ShortBuffer
      else let p' = p\<lparr>p_pos := p_pos p + skipSpace (remaining p)\<rparr>
           in if p_pos p' > length (p_buf p') then Inl ShortBuffer else Inr p')"

section \<open>Leaves\<close>

text \<open>The result is \<open>None\<close> where the source returns \<open>false\<close>.\<close>

definition parseQuoted :: "parser \<Rightarrow> rune \<Rightarrow> query_error + (string option \<times> parser)" where
  "parseQuoted p delimiter =
     (case ScanDelimited (remaining p) False delimiter of
        Inl e \<Rightarrow> if e = Panicked then Inl Panicked else Inr (None, p)
      | Inr (v, advance) \<Rightarrow>
          let p' = p\<lparr>p_pos := p_pos p + advance\<rparr> in
          if \<not> parser_done p' \<and> \<not> isSpace (byte_at p' (p_pos p')) \<and> \<not> parser_match p' '')''
          then Inr (None, p)
          else Inr (Some v, p'))"

definition newPattern :: "string \<Rightarrow> labels \<Rightarrow> src_range \<Rightarrow> pattern" where
  "newPattern v ls rng =
     \<lparr>pat_Value = v, pat_Negated = False, pat_Annotation = \<lparr>ann_Labels = ls, ann_Range = rng\<rparr>\<rparr>"

definition parseStringQuotes :: "parser \<Rightarrow> query_error + (pattern option \<times> parser)" where
  "parseStringQuotes p =
     (let start = p_pos p;
          single = (\<lambda>p. if parser_match p [CHR 0x27] then
              (case parseQuoted p r_squote of
                 Inl e \<Rightarrow> Inl e
               | Inr (Some v, p') \<Rightarrow>
                   Inr (Some (newPattern v (Literal OR Quoted) (newRange start (p_pos p'))), p')
               | Inr (None, p') \<Rightarrow> Inr (None, p'))
            else Inr (None, p))
      in if parser_match p [CHR 0x22] then
           (case parseQuoted p r_dquote of
              Inl e \<Rightarrow> Inl e
            | Inr (Some v, p') \<Rightarrow>
                Inr (Some (newPattern v (Literal OR Quoted) (newRange start (p_pos p'))), p')
            | Inr (None, p') \<Rightarrow> single p')
         else single p)"

definition parseRegexpQuotes :: "parser \<Rightarrow> query_error + (pattern option \<times> parser)" where
  "parseRegexpQuotes p =
     (if \<not> parser_match p ''/'' then Inr (None, p)
      else case parseQuoted p r_slash of
        Inl e \<Rightarrow> Inl e
      | Inr (None, p') \<Rightarrow> Inr (None, p')
      | Inr (Some v, p') \<Rightarrow>
          let rng = newRange (p_pos p) (p_pos p') in
          if v = [] then Inr (Some (newPattern ''//'' Literal rng), p')
          else Inr (Some (newPattern v Regexp rng), p'))"

definition ParseFieldValue :: "parser \<Rightarrow> string \<Rightarrow> (query_error + (string \<times> labels)) \<times> parser" where
  "ParseFieldValue p field =
     (let delimited = (\<lambda>delimiter.
            case ScanDelimited (remaining p) True delimiter of
              Inl e \<Rightarrow> (Inl e, p)
            | Inr (v, advance) \<Rightarrow> (Inr (v, Quoted), p\<lparr>p_pos := p_pos p + advance\<rparr>))
      in if parser_match p [CHR 0x27] then delimited r_squote
         else if parser_match p [CHR 0x22] then delimited r_dquote
         else case ScanPredicate field (remaining p) DefaultPredicateRegistry of
           None \<Rightarrow> (Inl Panicked, p)
         | Some (Some (v, advance)) \<Rightarrow> (Inr (v, IsPredicate), p\<lparr>p_pos := p_pos p + advance\<rparr>)
         | Some None \<Rightarrow>
             (case ScanBalancedPattern (remaining p) of (v, advance, ok) \<Rightarrow>
                if ok then (Inr (v, None_label), p\<lparr>p_pos := p_pos p + advance\<rparr>)
                else case ScanValue (remaining p) False of (v, advance) \<Rightarrow>
                  (Inr (v, None_label), p\<lparr>p_pos := p_pos p + advance\<rparr>)))"

definition TryScanBalancedPattern :: "parser \<Rightarrow> labels \<Rightarrow> pattern option \<times> parser" where
  "TryScanBalancedPattern p label =
     (case ScanBalancedPattern (remaining p) of (v, advance, ok) \<Rightarrow>
        if ok then (Some (newPattern v label (newRange (p_pos p) (p_pos p + advance))),
                    p\<lparr>p_pos := p_pos p + advance\<rparr>)
        else (None, p))"

text \<open>The part of \<open>ParsePattern\<close> after the quoted forms have been tried.\<close>

definition parse_bare_pattern :: "parser \<Rightarrow> labels \<Rightarrow> pattern \<times> parser" where
  "parse_bare_pattern p label =
     (case (if isSet (p_heuristics p) parensAsPatterns then TryScanBalancedPattern p label
            else (None, p)) of
        (Some pat, p') \<Rightarrow> (pat, p')
      | (None, p') \<Rightarrow>
          (let start = p_pos p';
               (v, advance) =
                 (if IsSet label Regexp
                  then ScanValue (remaining p') (isSet (p_heuristics p') allowDanglingParens)
                  else ScanAnyPattern (remaining p'));
               label' = (if isSet (p_heuristics p') allowDanglingParens
                         then Set_label label HeuristicDanglingParens else label);
               p'' = p'\<lparr>p_pos := p_pos p' + advance\<rparr>
           in (newPattern v label' (newRange start (p_pos p'')), p'')))"

definition ParsePattern :: "parser \<Rightarrow> labels \<Rightarrow> query_error + (pattern \<times> parser)" where
  "ParsePattern p label =
     (case (if IsSet label (Standard OR Regexp) then parseRegexpQuotes p else Inr (None, p)) of
        Inl e \<Rightarrow> Inl e
      | Inr (Some pat, p') \<Rightarrow> Inr (pat, p')
      | Inr (None, p') \<Rightarrow>
          (case (if IsSet label Regexp then parseStringQuotes p' else Inr (None, p')) of
             Inl e \<Rightarrow> Inl e
           | Inr (Some pat, p'') \<Rightarrow> Inr (pat, p'')
           | Inr (None, p'') \<Rightarrow> Inr (parse_bare_pattern p'' label)))"

text \<open>
  \<open>ParseParameter\<close>: on an error the position has already moved past the field, which the
  caller for \<open>NOT\<close> observes, so the parser is returned in every case.
\<close>

definition ParseParameter :: "parser \<Rightarrow> (query_error + parameter option) \<times> parser" where
  "ParseParameter p =
     (case ScanField (remaining p) of (field, negated, advance) \<Rightarrow>
        if field = [] then (Inr None, p)
        else case ParseFieldValue (p\<lparr>p_pos := p_pos p + advance\<rparr>) field of
          (Inl e, p') \<Rightarrow> (Inl e, p')
        | (Inr (v, ls), p') \<Rightarrow>
            (Inr (Some \<lparr>par_Field = field, par_Value = v, par_Negated = negated,
                        par_Annotation = \<lparr>ann_Labels = ls, ann_Range = newRange (p_pos p) (p_pos p')\<rparr>\<rparr>),
             p'))"

section \<open>Leaves, conjunctions and disjunctions\<close>

text \<open>
  One iteration of the loop of \<open>parseLeaves\<close>, up to the call of \<open>parseOr\<close> for a group.
  \<open>Leave\<close> is \<open>break loop\<close>, \<open>Again\<close> is the next iteration, \<open>Group\<close> is the recursive call.
\<close>

datatype leaf_outcome =
    Leave "node list" parser
  | Again labels "node list" parser
  | Group parser
  | Fail query_error

definition leaf_negated :: "labels \<Rightarrow> node list \<Rightarrow> parser \<Rightarrow> leaf_outcome" where
  "leaf_negated label nodes p =
     (let start = p_pos p in
      case skipSpaces (snd (parser_expect p ''not'')) of
        Inl e \<Rightarrow> Fail e
      | Inr p1 \<Rightarrow>
          if parser_match p1 ''('' then Fail NotBeforeExpression
          else
            (case ParseParameter p1 of
               (Inr (Some parameter), p2) \<Rightarrow>
                 if par_Negated parameter
                 then Fail (NotBeforeNegatedField (par_Field parameter) (par_Value parameter))
                 else Again label
                        (nodes @ [Parameter (parameter\<lparr>par_Negated := True,
                           par_Annotation := (par_Annotation parameter)\<lparr>ann_Range := newRange start (p_pos p2)\<rparr>\<rparr>)]) p2
             | (r, p2) \<Rightarrow>
                 if r = Inl Panicked then Fail Panicked
                 else case ParsePattern p2 label of
                   Inl e \<Rightarrow> Fail e
                 | Inr (pat, p3) \<Rightarrow>
                     Again label
                       (nodes @ [Pattern (pat\<lparr>pat_Negated := True,
                          pat_Annotation := (pat_Annotation pat)\<lparr>ann_Range := newRange start (p_pos p3)\<rparr>\<rparr>)]) p3))"

definition leaf_default :: "labels \<Rightarrow> node list \<Rightarrow> parser \<Rightarrow> leaf_outcome" where
  "leaf_default label nodes p =
     (case ParseParameter p of
        (Inl e, p1) \<Rightarrow> Fail e
      | (Inr (Some parameter), p1) \<Rightarrow> Again label (nodes @ [Parameter parameter]) p1
      | (Inr None, p1) \<Rightarrow>
          (case ParsePattern p1 label of
             Inl e \<Rightarrow> Fail e
           | Inr (pat, p2) \<Rightarrow> Again label (nodes @ [Pattern pat]) p2))"

definition leaf_open :: "labels \<Rightarrow> node list \<Rightarrow> parser \<Rightarrow> leaf_outcome" where
  "leaf_open label nodes p =
     (case (if isSet (p_heuristics p) parensAsPatterns then ScanBalancedPattern (remaining p)
            else ([], 0, False)) of (v, advance, ok) \<Rightarrow>
        if ok then
          (let label' = (if IsSet label Literal then Set_label label HeuristicParensAsPatterns else label)
           in Again label'
                (nodes @ [Pattern (newPattern v label' (newRange (p_pos p) (p_pos p + advance)))])
                (p\<lparr>p_pos := p_pos p + advance\<rparr>))
        else
          (let p' = snd (parser_expect p ''('')
           in Group (p'\<lparr>p_balanced := p_balanced p' + 1,
                       p_heuristics := p_heuristics p' OR disambiguated\<rparr>)))"

definition leaf_close :: "nat \<Rightarrow> node list \<Rightarrow> parser \<Rightarrow> leaf_outcome" where
  "leaf_close start nodes p =
     (if p_balanced p \<le> 0 then Fail UnclearParentheses
      else
        let p' = p\<lparr>p_balanced := p_balanced p - 1, p_heuristics := p_heuristics p OR disambiguated\<rparr>
        in Leave
             (if nodes = [] then
                (if isSet (p_heuristics p') parensAsPatterns
                 then [Pattern (newPattern ''()'' (Literal OR HeuristicParensAsPatterns) (newRange start (p_pos p')))]
                 else [Parameter zero_parameter])
              else nodes) p')"

text \<open>
  The guards of the switch in order. Evaluating \<open>p.expect(RPAREN)\<close> moves the position even
  when the second conjunct then rejects the case, so the later cases start from \<open>p1\<close>.
\<close>

definition leaf_step :: "labels \<Rightarrow> nat \<Rightarrow> node list \<Rightarrow> parser \<Rightarrow> leaf_outcome" where
  "leaf_step label start nodes p0 =
     (case skipSpaces p0 of
        Inl e \<Rightarrow> Fail e
      | Inr p \<Rightarrow>
          if parser_done p then Leave nodes p
          else if parser_match p ''('' \<and> \<not> isSet (p_heuristics p) allowDanglingParens
          then leaf_open label nodes p
          else
            (case parser_expect p '')'' of (closing, p1) \<Rightarrow>
               if closing \<and> \<not> isSet (p_heuristics p1) allowDanglingParens
               then leaf_close start nodes p1
               else if matchKeyword p1 ''and'' \<or> matchKeyword p1 ''or'' then Leave nodes p1
               else if matchUnaryKeyword p1 ''not'' then leaf_negated label nodes p1
               else leaf_default label nodes p1))"

definition leaf_label :: "SearchType \<Rightarrow> labels" where
  "leaf_label t =
     (case t of
        SearchTypeRegex \<Rightarrow> Regexp
      | SearchTypeLiteral \<Rightarrow> Literal
      | SearchTypeStructural \<Rightarrow> Literal
      | SearchTypeStandard \<Rightarrow> Literal OR Standard
      | SearchTypeLucky \<Rightarrow> Literal OR Standard
      | _ \<Rightarrow> Literal OR Standard)"

text \<open>The first argument bounds the depth of the recursion.\<close>

fun parseLeaves_loop ::
      "nat \<Rightarrow> labels \<Rightarrow> nat \<Rightarrow> node list \<Rightarrow> parser \<Rightarrow> query_error + (node list \<times> parser)"
  and parseAnd :: "nat \<Rightarrow> parser \<Rightarrow> query_error + (node list \<times> parser)"
  and parseOr :: "nat \<Rightarrow> parser \<Rightarrow> query_error + (node list \<times> parser)" where
  "parseLeaves_loop 0 label start nodes p = Inl OutOfFuel"
| "parseLeaves_loop (Suc n) label start nodes p =
     (case leaf_step label start nodes p of
        Fail e \<Rightarrow> Inl e
      | Leave nodes' p' \<Rightarrow> Inr (partitionParameters nodes', p')
      | Again label' nodes' p' \<Rightarrow> parseLeaves_loop n label' start nodes' p'
      | Group p' \<Rightarrow>
          (case parseOr n p' of
             Inl e \<Rightarrow> Inl e
           | Inr (result, p'') \<Rightarrow> parseLeaves_loop n label start (nodes @ result) p''))"
| "parseAnd 0 p = Inl OutOfFuel"
| "parseAnd (Suc n) p =
     (case parseLeaves_loop n (leaf_label (p_leafParser p)) (p_pos p) [] p of
        Inl e \<Rightarrow> Inl e
      | Inr (left, p1) \<Rightarrow>
          if left = [] then Inl (ExpectedOperand (p_pos p1))
          else (case parser_expect p1 ''and'' of (found, p2) \<Rightarrow>
                  if \<not> found then Inr (left, p2)
                  else (case parseAnd n p2 of
                          Inl e \<Rightarrow> Inl e
                        | Inr (right, p3) \<Rightarrow> Inr (NewOperator (left @ right) And, p3))))"
| "parseOr 0 p = Inl OutOfFuel"
| "parseOr (Suc n) p =
     (case parseAnd n p of
        Inl e \<Rightarrow> Inl e
      | Inr (left, p1) \<Rightarrow>
          if left = [] then Inl (ExpectedOperand (p_pos p1))
          else (case parser_expect p1 ''or'' of (found, p2) \<Rightarrow>
                  if \<not> found then Inr (left, p2)
                  else (case parseOr n p2 of
                          Inl e \<Rightarrow> Inl e
                        | Inr (right, p3) \<Rightarrow> Inr (NewOperator (left @ right) Or, p3))))"

definition parse_fuel :: "string \<Rightarrow> nat" where
  "parse_fuel buf = 3 * length buf + 3"

definition new_parser :: "string \<Rightarrow> heuristics \<Rightarrow> SearchType \<Rightarrow> parser" where
  "new_parser buf h t =
     \<lparr>p_buf = buf, p_heuristics = h, p_pos = 0, p_balanced = 0, p_leafParser = t\<rparr>"

definition tryFallbackParser :: "SearchType \<Rightarrow> string \<Rightarrow> query_error + node list" where
  "tryFallbackParser leafParser buf =
     (case parseOr (parse_fuel buf) (new_parser buf allowDanglingParens leafParser) of
        Inl e \<Rightarrow> Inl e
      | Inr (nodes, _) \<Rightarrow>
          (case Hoist nodes of
             Inr hoisted \<Rightarrow> Inr (NewOperator hoisted And)
           | Inl _ \<Rightarrow> Inr (NewOperator nodes And)))"

fun impure_concat :: "node \<Rightarrow> bool" where
  "impure_concat (Operator Concat operands a) \<longleftrightarrow>
     list_ex (\<lambda>n. case n of Operator k _ _ \<Rightarrow> k = Or \<or> k = And | _ \<Rightarrow> False) operands"
| "impure_concat _ \<longleftrightarrow> False"

definition validatePureLiteralPattern :: "node list \<Rightarrow> bool \<Rightarrow> query_error option" where
  "validatePureLiteralPattern nodes balanced =
     (if Exists nodes impure_concat then Some (ImpureLiteral balanced) else None)"

fun is_ExpectedOperand :: "query_error \<Rightarrow> bool" where
  "is_ExpectedOperand (ExpectedOperand n) = True"
| "is_ExpectedOperand _ = False"

definition Parse :: "string \<Rightarrow> SearchType \<Rightarrow> query_error + node list" where
  "Parse buf searchType =
     (if is_blank buf then Inr []
      else case parseOr (parse_fuel buf) (new_parser buf parensAsPatterns searchType) of
        Inl e \<Rightarrow>
          if is_ExpectedOperand e then
            (case tryFallbackParser searchType buf of Inr nodes \<Rightarrow> Inr nodes | Inl _ \<Rightarrow> Inl e)
          else Inl e
      | Inr (nodes, p) \<Rightarrow>
          if p_balanced p \<noteq> 0 then
            (case tryFallbackParser searchType buf of
               Inr nodes' \<Rightarrow> Inr nodes' | Inl _ \<Rightarrow> Inl UnbalancedExpression)
          else
            let nodes' = (if \<not> isSet (p_heuristics p) disambiguated then
                            (case Hoist nodes of Inr hoisted \<Rightarrow> hoisted | Inl _ \<Rightarrow> nodes)
                          else nodes)
            in if searchType = SearchTypeLiteral \<or> searchType = SearchTypeStandard then
                 (case validatePureLiteralPattern nodes' (p_balanced p = 0) of
                    Some e \<Rightarrow> Inl e
                  | None \<Rightarrow> Inr (NewOperator nodes' And))
               else Inr (NewOperator nodes' And))"

section \<open>Lookahead\<close>

lemma runes_EncodeRune:
  assumes "DecodeRune buf = (r, n)" and "buf \<noteq> []"
  shows "runes (EncodeRune r) = [r]"
proof (cases "r = RuneError \<and> n = 1")
  case True
  moreover have "runes (EncodeRune RuneError) = [RuneError]" by code_simp
  ultimately show ?thesis by simp
next
  case False
  then have enc: "EncodeRune r = take n buf" using encode_decode [OF assms] by blast
  have n: "0 < n" "n \<le> length buf" using DecodeRune_advance [OF assms] by auto
  have "DecodeRune (take n buf) = (r, n)" using DecodeRune_local(1) [OF assms(1) False assms(2), of "[]"] by simp
  then show ?thesis using n assms(2) by (simp add: enc runes.simps [of "take n buf"])
qed

definition plain_char :: "char \<Rightarrow> bool" where
  "plain_char c \<longleftrightarrow> (of_char c :: nat) < 65"

lemma plain_chars [simp]:
  "plain_char CHR ''(''" "plain_char CHR '')''" "plain_char CHR ''/''" "plain_char CHR 0x22" "plain_char CHR 0x27"
  by code_simp+

lemma parser_match_char:
  assumes c: "plain_char c"
  shows "parser_match p [c] \<longleftrightarrow> remaining p \<noteq> [] \<and> hd (remaining p) = c"
proof (cases "remaining p = []")
  case True
  then show ?thesis by (simp add: parser_match_def peek_def parser_done_def)
next
  case False
  obtain r n where d: "DecodeRune (remaining p) = (r, n)" by fastforce
  have c': "(of_char c :: nat) < 65" using c by (simp add: plain_char_def)
  have c128: "(of_char c :: nat) < 128" using c' by simp
  have "parser_match p [c] \<longleftrightarrow> fold_rune r = fold_rune (of_char c)"
    using False d c' runes_EncodeRune [OF d False]
    by (simp add: parser_match_def peek_def parser_done_def parser_next_def strings_EqualFold_def runes_ascii)
  also have "\<dots> \<longleftrightarrow> r = of_char c" using c' by (auto simp: fold_rune_def split: if_splits)
  also have "\<dots> \<longleftrightarrow> hd (remaining p) = c"
  proof
    assume "r = of_char c"
    moreover from this c' have "remaining p = char_of r # drop 1 (remaining p)"
      by (intro DecodeRune_small(2) [OF d]) simp
    ultimately show "hd (remaining p) = c" by (metis char_of_char list.sel(1))
  next
    assume "hd (remaining p) = c"
    then have "remaining p = c # tl (remaining p)" using False by (metis list.collapse)
    then have "DecodeRune (remaining p) = (of_char c, 1)"
      using DecodeRune_ascii [of c "tl (remaining p)"] c128 by metis
    with d show "r = of_char c" by simp
  qed
  finally show ?thesis using False by simp
qed

definition advances :: "parser \<Rightarrow> parser \<Rightarrow> bool" where
  "advances p p' \<longleftrightarrow> p_buf p' = p_buf p \<and> p_leafParser p' = p_leafParser p \<and>
     p_pos p \<le> p_pos p' \<and> p_pos p' \<le> length (p_buf p)"

lemma peek_loop_bound:
  "peek_loop p n rs = Some rs' \<Longrightarrow> n \<le> length (remaining p)"
proof (induction n arbitrary: p rs)
  case (Suc n)
  obtain r a where d: "DecodeRune (remaining p) = (r, a)" by fastforce
  from Suc.prems have nd: "\<not> parser_done p" by (auto split: if_splits)
  then have ne: "remaining p \<noteq> []" by (simp add: parser_done_def)
  from Suc.prems nd d have "peek_loop (p\<lparr>p_pos := p_pos p + a\<rparr>) n (rs @ [r]) = Some rs'"
    by (simp add: parser_next_def)
  from Suc.IH [OF this] DecodeRune_advance [OF d ne] show ?case by simp
qed simp

lemma parser_match_bound: "parser_match p kw \<Longrightarrow> length kw \<le> length (remaining p)"
  using peek_loop_bound by (fastforce simp: parser_match_def peek_def split: option.splits)

lemma parser_expect_advances:
  assumes "parser_expect p kw = (found, p')" and "p_pos p \<le> length (p_buf p)"
  shows "advances p p'" and "found \<Longrightarrow> p_pos p' = p_pos p + length kw" and "\<not> found \<Longrightarrow> p' = p"
    and "p_heuristics p' = p_heuristics p" and "p_balanced p' = p_balanced p"
  using assms parser_match_bound [of p kw]
  by (auto simp: parser_expect_def advances_def split: if_splits)

lemma matchUnaryKeyword_match: "matchUnaryKeyword p kw \<Longrightarrow> parser_match p kw"
  by (auto simp: matchUnaryKeyword_def parser_match_def Let_def split: if_splits option.splits)

lemma skipSpaces_advances:
  assumes "p_pos p \<le> length (p_buf p)"
  shows "\<exists>p'. skipSpaces p = Inr p' \<and> advances p p' \<and> p_heuristics p' = p_heuristics p \<and>
           p_balanced p' = p_balanced p \<and> (remaining p' = [] \<or> \<not> isSpace (remaining p'))"
  using assms skipSpace_le [of "remaining p"] skipSpace_stops [of "remaining p"]
  by (auto simp: skipSpaces_def Let_def advances_def add.commute)

section \<open>Leaves stay inside the buffer\<close>

definition proper_error :: "query_error \<Rightarrow> bool" where
  "proper_error e \<longleftrightarrow> e \<noteq> Panicked \<and> e \<noteq> OutOfFuel \<and> e \<noteq> ShortBuffer"

lemma ScanDelimited_loop_proper:
  "ScanDelimited_loop strict delimiter buf cnt prev result = Inl e \<Longrightarrow> proper_error e"
proof (induction strict delimiter buf cnt prev result rule: ScanDelimited_loop.induct)
  case (1 strict delimiter buf cnt prev result)
  obtain r a where d: "DecodeRune buf = (r, a)" by fastforce
  obtain r' a' where d': "DecodeRune (drop a buf) = (r', a')" by fastforce
  show ?case
    using "1.prems" "1.IH"(1) [OF _ d [symmetric] refl refl _ _ _ d' [symmetric]] "1.IH"(2) [OF _ d [symmetric] refl refl] d d'
    by (subst (asm) ScanDelimited_loop.simps)
       (auto simp: Let_def proper_error_def split: if_splits option.splits)
qed

lemma ScanDelimited_start:
  assumes "buf \<noteq> []" and "hd buf = c" and "plain_char c"
  shows "ScanDelimited buf strict (of_char c) = Inl e \<Longrightarrow> proper_error e"
    and "ScanDelimited buf strict (of_char c) = Inr (v, n) \<Longrightarrow> 0 < n \<and> n \<le> length buf"
proof -
  obtain bs where "buf = c # bs" using assms(1,2) by (cases buf) auto
  moreover have "(of_char c :: nat) < 128" using assms(3) by (simp add: plain_char_def)
  ultimately have d: "DecodeRune buf = (of_char c, 1)" by (simp add: DecodeRune_ascii)
  show "ScanDelimited buf strict (of_char c) = Inl e \<Longrightarrow> proper_error e"
    using d ScanDelimited_loop_proper [of strict "of_char c" "drop 1 buf" 1 "of_char c" "[]"]
    by (auto simp: ScanDelimited_def proper_error_def split: sum.splits if_splits)
  show "ScanDelimited buf strict (of_char c) = Inr (v, n) \<Longrightarrow> 0 < n \<and> n \<le> length buf"
    using d ScanDelimited_bounds [of buf strict "of_char c" v n]
      ScanDelimited_loop_bounds [of strict "of_char c" "drop 1 buf" 1 "of_char c" "[]"]
    by (auto simp: ScanDelimited_def split: sum.splits if_splits)
qed

definition quoted_ok :: "parser \<Rightarrow> query_error + ('a option \<times> parser) \<Rightarrow> bool" where
  "quoted_ok p res \<longleftrightarrow> res = Inr (None, p) \<or>
     (\<exists>x p'. res = Inr (Some x, p') \<and> advances p p' \<and> p_pos p < p_pos p')"

lemma parseQuoted_ok:
  assumes "parser_match p [c]" and c: "plain_char c" and d: "d = of_char c"
  shows "quoted_ok p (parseQuoted p d)"
proof -
  have start: "remaining p \<noteq> []" "hd (remaining p) = c"
    using assms(1) parser_match_char [OF c] by auto
  show ?thesis
  proof (cases "ScanDelimited (remaining p) False d")
    case (Inl e)
    then have "e \<noteq> Panicked" using ScanDelimited_start(1) [OF start c] d by (auto simp: proper_error_def)
    with Inl show ?thesis by (simp add: parseQuoted_def quoted_ok_def)
  next
    case (Inr vn)
    obtain v n where vn: "vn = (v, n)" by fastforce
    with ScanDelimited_start(2) [OF start c] Inr d have n: "0 < n" "n \<le> length (remaining p)" by auto
    then show ?thesis using Inr vn by (auto simp: parseQuoted_def quoted_ok_def advances_def Let_def)
  qed
qed

definition pattern_spans :: "parser \<Rightarrow> pattern \<Rightarrow> parser \<Rightarrow> bool" where
  "pattern_spans p pat p' \<longleftrightarrow>
     ann_Range (pat_Annotation pat) = newRange (p_pos p) (p_pos p') \<and> \<not> pat_Negated pat"

lemma newPattern_spans [simp]:
  "pattern_spans p (newPattern v ls (newRange (p_pos p) (p_pos p'))) p'"
  by (simp add: pattern_spans_def newPattern_def)

lemma parseRegexpQuotes_ok:
  "quoted_ok p (parseRegexpQuotes p)"
  "parseRegexpQuotes p = Inr (Some pat, p') \<Longrightarrow> pattern_spans p pat p'"
proof -
  have "parser_match p ''/'' \<Longrightarrow> quoted_ok p (parseQuoted p r_slash)"
    by (rule parseQuoted_ok, assumption) simp_all
  then show "quoted_ok p (parseRegexpQuotes p)"
    by (cases "\<exists>p'. parseQuoted p r_slash = Inr (Some [], p')")
       (auto simp: parseRegexpQuotes_def quoted_ok_def Let_def)
  show "parseRegexpQuotes p = Inr (Some pat, p') \<Longrightarrow> pattern_spans p pat p'"
    by (auto simp: parseRegexpQuotes_def Let_def split: if_splits sum.splits option.splits)
qed

lemma parseStringQuotes_ok:
  "quoted_ok p (parseStringQuotes p)"
  "parseStringQuotes p = Inr (Some pat, p') \<Longrightarrow> pattern_spans p pat p'"
proof -
  have single: "parser_match p [CHR 0x27] \<Longrightarrow> quoted_ok p (parseQuoted p r_squote)"
    by (rule parseQuoted_ok, assumption) simp_all
  have double: "parser_match p [CHR 0x22] \<Longrightarrow> quoted_ok p (parseQuoted p r_dquote)"
    by (rule parseQuoted_ok, assumption) simp_all
  show "quoted_ok p (parseStringQuotes p)"
    using single double
    by (cases "parser_match p [CHR 0x22]"; cases "parser_match p [CHR 0x27]")
       (auto simp: parseStringQuotes_def quoted_ok_def Let_def)
  show "parseStringQuotes p = Inr (Some pat, p') \<Longrightarrow> pattern_spans p pat p'"
    by (auto simp: parseStringQuotes_def Let_def split: if_splits sum.splits option.splits)
qed

definition leaf_position :: "parser \<Rightarrow> bool" where
  "leaf_position p \<longleftrightarrow> remaining p \<noteq> [] \<and> \<not> isSpace (remaining p) \<and> hd (remaining p) \<noteq> CHR '')'' \<and>
     (hd (remaining p) \<noteq> CHR ''('' \<or> isSet (p_heuristics p) allowDanglingParens)"

lemma parse_bare_pattern_ok:
  assumes "parse_bare_pattern p label = (pat, p')" and "p_pos p \<le> length (p_buf p)"
  shows "advances p p'" and "pattern_spans p pat p'" and "leaf_position p \<Longrightarrow> p_pos p < p_pos p'"
proof -
  obtain v n ok where b: "ScanBalancedPattern (remaining p) = (v, n, ok)" by (cases "ScanBalancedPattern (remaining p)")
  obtain v1 n1 where sv: "ScanValue (remaining p) (isSet (p_heuristics p) allowDanglingParens) = (v1, n1)" by fastforce
  obtain v2 n2 where sa: "ScanAnyPattern (remaining p) = (v2, n2)" by fastforce
  have le: "n \<le> length (remaining p)" "n1 \<le> length (remaining p)" "n2 \<le> length (remaining p)"
    using ScanBalancedPattern_bounds [OF b] ScanValue_bounds [OF sv] ScanAnyPattern_bounds [OF sa] by auto
  have pos: "0 < n2" "0 < n1" "ok \<Longrightarrow> 0 < n" if "leaf_position p"
    using that b sv sa ScanBalancedPattern_progress [of "remaining p" v n] ScanAnyPattern_progress [OF _ _ sa]
      ScanValue_progress [OF _ _ sv] by (auto simp: leaf_position_def)
  obtain m w ls where res: "(pat, p') = (newPattern w ls (newRange (p_pos p) (p_pos p + m)), p\<lparr>p_pos := p_pos p + m\<rparr>)"
    and m: "m = n \<and> ok \<or> m = n1 \<or> m = n2"
    using assms(1) b sv sa
    by (auto simp: parse_bare_pattern_def TryScanBalancedPattern_def Let_def split: if_splits)
  show "advances p p'" using res m le assms(2) by (auto simp: advances_def)
  show "pattern_spans p pat p'" using res by (simp add: pattern_spans_def newPattern_def)
  show "leaf_position p \<Longrightarrow> p_pos p < p_pos p'" using res m pos by auto
qed

lemma ParsePattern_ok:
  assumes "p_pos p \<le> length (p_buf p)"
  shows "\<exists>pat p'. ParsePattern p label = Inr (pat, p') \<and> advances p p' \<and> pattern_spans p pat p' \<and>
           (leaf_position p \<longrightarrow> p_pos p < p_pos p')"
proof -
  obtain pat0 q where bare: "parse_bare_pattern p label = (pat0, q)" by fastforce
  note ok = parse_bare_pattern_ok [OF bare assms]
  from parseRegexpQuotes_ok [of p] parseStringQuotes_ok [of p] bare ok show ?thesis
    by (cases "IsSet label (Standard OR Regexp)"; cases "IsSet label Regexp")
       (auto simp: ParsePattern_def quoted_ok_def)
qed

lemma ParseFieldValue_ok:
  assumes "ParseFieldValue p field = (r, p')" and "p_pos p \<le> length (p_buf p)"
  shows "advances p p'" and "r = Inl e \<Longrightarrow> proper_error e"
    and "r = Inr (v, ls) \<Longrightarrow> IsSet ls IsPredicate \<Longrightarrow> predicate_value field v"
proof -
  let ?labelled = "\<forall>v ls. r = Inr (v, ls) \<longrightarrow> IsSet ls IsPredicate \<longrightarrow> predicate_value field v"
  have none: "\<not> IsSet Quoted IsPredicate" "\<not> IsSet None_label IsPredicate" by (simp_all add: IsSet_def)
  have quote: "advances p p' \<and> (r = Inl e \<longrightarrow> proper_error e) \<and> ?labelled"
    if "parser_match p [c]" "plain_char c" "d = of_char c"
      "(case ScanDelimited (remaining p) True d of
          Inl e \<Rightarrow> (Inl e, p) | Inr (v, advance) \<Rightarrow> (Inr (v, Quoted), p\<lparr>p_pos := p_pos p + advance\<rparr>)) = (r, p')" for c d
    using that ScanDelimited_start [of "remaining p" c True] parser_match_char [OF that(2), of p] assms(2) none
    by (auto simp: advances_def split: sum.splits)
  have "advances p p' \<and> (r = Inl e \<longrightarrow> proper_error e) \<and> ?labelled"
  proof (cases "parser_match p [CHR 0x27] \<or> parser_match p [CHR 0x22]")
    case True
    then show ?thesis
      using assms(1) quote [of "CHR 0x27" r_squote] quote [of "CHR 0x22" r_dquote]
      by (cases "parser_match p [CHR 0x27]") (simp_all add: ParseFieldValue_def Let_def)
  next
    case False
    show ?thesis
      using assms False ScanPredicate_no_panic [of field "remaining p"]
        ScanPredicate_bounds [of field "remaining p"] ScanBalancedPattern_bounds [of "remaining p"]
        ScanValue_bounds [of "remaining p"] ScanPredicate_value [of field "remaining p"] none
      by (auto simp: ParseFieldValue_def Let_def advances_def split: if_splits option.splits prod.splits;
          fastforce)
  qed
  then show "advances p p'" and "r = Inl e \<Longrightarrow> proper_error e"
    and "r = Inr (v, ls) \<Longrightarrow> IsSet ls IsPredicate \<Longrightarrow> predicate_value field v" by auto
qed

lemma ParseParameter_ok:
  assumes "ParseParameter p = (r, p')" and "p_pos p \<le> length (p_buf p)"
  shows "advances p p'" and "r = Inl e \<Longrightarrow> proper_error e" and "r = Inr None \<Longrightarrow> p' = p"
    and "r = Inr (Some par) \<Longrightarrow>
           p_pos p < p_pos p' \<and> ann_Range (par_Annotation par) = newRange (p_pos p) (p_pos p') \<and>
           recognised_field (par_Field par) \<and>
           (IsSet (ann_Labels (par_Annotation par)) IsPredicate \<longrightarrow>
              predicate_value (par_Field par) (par_Value par))"
proof -
  obtain field negated n where f: "ScanField (remaining p) = (field, negated, n)"
    by (cases "ScanField (remaining p)")
  let ?q = "p\<lparr>p_pos := p_pos p + n\<rparr>"
  obtain r1 p1 where v: "ParseFieldValue ?q field = (r1, p1)" by fastforce
  have n: "n \<le> length (remaining p)" "field \<noteq> [] \<Longrightarrow> 0 < n"
    using ScanField_bounds [OF f] ScanField_progress [OF f] by auto
  then have q: "p_pos ?q \<le> length (p_buf ?q)" using assms(2) by simp
  note value_ok = ParseFieldValue_ok [OF v q]
  have adv: "advances ?q p1" by (rule value_ok(1))
  show "advances p p'" using assms f v adv
    by (auto simp: ParseParameter_def advances_def split: if_splits sum.splits)
  show "r = Inl e \<Longrightarrow> proper_error e" using assms f v value_ok(2)
    by (auto simp: ParseParameter_def split: if_splits sum.splits)
  show "r = Inr None \<Longrightarrow> p' = p" using assms f v
    by (auto simp: ParseParameter_def split: if_splits sum.splits)
  show "r = Inr (Some par) \<Longrightarrow>
      p_pos p < p_pos p' \<and> ann_Range (par_Annotation par) = newRange (p_pos p) (p_pos p') \<and>
      recognised_field (par_Field par) \<and>
      (IsSet (ann_Labels (par_Annotation par)) IsPredicate \<longrightarrow> predicate_value (par_Field par) (par_Value par))"
    using assms f v adv n value_ok(3) ScanField_sound(1) [OF f] by (auto simp: ParseParameter_def advances_def split: if_splits sum.splits)
qed

section \<open>Steps and runs\<close>

text \<open>What every node list of a run satisfies: well-formed, with leaves that span the
  buffer, parameters with a recognised field (or the empty group), and predicate labels only
  on values that are predicates of their field.\<close>

definition range_in :: "nat \<Rightarrow> src_range \<Rightarrow> bool" where
  "range_in n rng \<longleftrightarrow> Line (Start rng) = 0 \<and> Line (End rng) = 0 \<and> 0 \<le> Column (Start rng) \<and>
     Column (Start rng) \<le> Column (End rng) \<and> Column (End rng) \<le> int n"

lemma range_in_newRange [simp]: "range_in n (newRange i j) \<longleftrightarrow> i \<le> j \<and> j \<le> n"
  by (auto simp: range_in_def newRange_def)

fun leaf_ok :: "nat \<Rightarrow> node \<Rightarrow> bool" where
  "leaf_ok n (Pattern p) \<longleftrightarrow> range_in n (ann_Range (pat_Annotation p))"
| "leaf_ok n (Parameter p) \<longleftrightarrow>
     range_in n (ann_Range (par_Annotation p)) \<and>
     (par_Field p = [] \<and> par_Value p = [] \<or> recognised_field (par_Field p)) \<and>
     (IsSet (ann_Labels (par_Annotation p)) IsPredicate \<longrightarrow> predicate_value (par_Field p) (par_Value p))"
| "leaf_ok n (Operator k operands a) \<longleftrightarrow> True"

definition tree_ok :: "string \<Rightarrow> node list \<Rightarrow> bool" where
  "tree_ok buf nodes \<longleftrightarrow> wf_nodes nodes \<and> (\<forall>n \<in> set (leaves nodes). leaf_ok (length buf) n)"

lemma tree_ok_append [simp]: "tree_ok buf (xs @ ys) \<longleftrightarrow> tree_ok buf xs \<and> tree_ok buf ys"
  by (auto simp: tree_ok_def)

lemma tree_ok_leaf [simp]:
  "tree_ok buf []"
  "tree_ok buf [Pattern pat] \<longleftrightarrow> leaf_ok (length buf) (Pattern pat)"
  "tree_ok buf [Parameter par] \<longleftrightarrow> leaf_ok (length buf) (Parameter par)"
  by (simp_all add: tree_ok_def)

lemma tree_ok_NewOperator: "tree_ok buf nodes \<Longrightarrow> tree_ok buf (NewOperator nodes kind)"
  using NewOperator_leaves [of nodes kind] by (auto simp: tree_ok_def NewOperator_wf)

lemma tree_ok_filter: "tree_ok buf nodes \<Longrightarrow> tree_ok buf (filter P nodes)"
proof (induction nodes)
  case (Cons n nodes)
  then show ?case using tree_ok_append [of buf "[n]" nodes] tree_ok_append [of buf "[n]" "filter P nodes"] by simp
qed simp

lemma tree_ok_partitionParameters: "tree_ok buf nodes \<Longrightarrow> tree_ok buf (partitionParameters nodes)"
  by (simp add: partitionParameters_def Let_def tree_ok_NewOperator tree_ok_filter)

text \<open>
  The result of one step from \<open>p\<close>: it moves forward, strictly where the loop goes on or a
  group is entered; it keeps the trees well formed; and it fails only with an error message
  of the source.
\<close>

fun step_ok :: "parser \<Rightarrow> leaf_outcome \<Rightarrow> bool" where
  "step_ok p (Leave nodes p') \<longleftrightarrow> advances p p' \<and> tree_ok (p_buf p) nodes"
| "step_ok p (Again label nodes p') \<longleftrightarrow> advances p p' \<and> p_pos p < p_pos p' \<and> tree_ok (p_buf p) nodes"
| "step_ok p (Group p') \<longleftrightarrow> advances p p' \<and> p_pos p < p_pos p'"
| "step_ok p (Fail e) \<longleftrightarrow> proper_error e"

lemma step_ok_mono: "step_ok q out \<Longrightarrow> advances p q \<Longrightarrow> step_ok p out"
  by (cases out) (auto simp: advances_def)

lemma leaf_default_ok:
  assumes "p_pos p \<le> length (p_buf p)" and "tree_ok (p_buf p) nodes"
    and "advances p0 p" and "p_pos p0 < p_pos p \<or> leaf_position p"
  shows "step_ok p0 (leaf_default label nodes p)"
proof -
  obtain r p1 where par: "ParseParameter p = (r, p1)" by fastforce
  note ok = ParseParameter_ok [OF par assms(1)]
  obtain pat p2 where pat: "ParsePattern p label = Inr (pat, p2)" "advances p p2" "pattern_spans p pat p2"
      "leaf_position p \<longrightarrow> p_pos p < p_pos p2"
    using ParsePattern_ok [OF assms(1)] by blast
  consider e where "r = Inl e" | x where "r = Inr (Some x)" | "r = Inr None"
    by (cases r; cases "projr r") auto
  then show ?thesis
  proof cases
    case 1
    with par ok(2) show ?thesis by (simp add: leaf_default_def)
  next
    case (2 x)
    with par ok(1,4) assms show ?thesis by (auto simp: leaf_default_def advances_def)
  next
    case 3
    with par ok(3) pat assms show ?thesis
      by (auto simp: leaf_default_def advances_def pattern_spans_def)
  qed
qed

lemma leaf_negated_ok:
  assumes "p_pos p \<le> length (p_buf p)" and "tree_ok (p_buf p) nodes" and "parser_match p ''not''"
  shows "step_ok p (leaf_negated label nodes p)"
proof -
  let ?p = "snd (parser_expect p ''not'')"
  have q: "advances p ?p" "p_pos p < p_pos ?p"
    using parser_match_bound [OF assms(3)] assms(1,3) by (auto simp: parser_expect_def advances_def)
  then obtain p1 where p1: "skipSpaces ?p = Inr p1" "advances ?p p1"
    using skipSpaces_advances [of ?p] by (auto simp: advances_def)
  with q have le1: "p_pos p1 \<le> length (p_buf p1)" and adv1: "advances p p1" "p_pos p < p_pos p1"
    by (auto simp: advances_def)
  obtain r p2 where par: "ParseParameter p1 = (r, p2)" by fastforce
  note ok = ParseParameter_ok [OF par le1]
  have adv2: "advances p p2" "p_pos p < p_pos p2" using ok(1) adv1 by (auto simp: advances_def)
  obtain pat p3 where pat: "ParsePattern p2 label = Inr (pat, p3)" "advances p2 p3"
    using ParsePattern_ok [of p2 label] adv2 by (auto simp: advances_def)
  have adv3: "advances p p3" "p_pos p < p_pos p3" using pat(2) adv2 by (auto simp: advances_def)
  have span: "range_in (length (p_buf p)) (newRange (p_pos p) (p_pos p'))"
    if "advances p p'" for p' using that by (auto simp: advances_def)
  consider e where "r = Inl e" | x where "r = Inr (Some x)" | "r = Inr None"
    by (cases r; cases "projr r") auto
  then show ?thesis
  proof cases
    case 1
    with ok(2) have "proper_error e" "e \<noteq> Panicked" by (auto simp: proper_error_def)
    with 1 par p1 pat adv3 span [OF adv3(1)] assms(2) show ?thesis
      by (simp add: leaf_negated_def Let_def proper_error_def)
  next
    case (2 x)
    with par p1 adv2 span [OF adv2(1)] assms(2) ok(4) show ?thesis
      by (simp add: leaf_negated_def Let_def proper_error_def)
  next
    case 3
    with par p1 pat adv3 span [OF adv3(1)] assms(2) show ?thesis
      by (simp add: leaf_negated_def Let_def proper_error_def)
  qed
qed

lemma leaf_open_ok:
  assumes "p_pos p \<le> length (p_buf p)" and "tree_ok (p_buf p) nodes" and "parser_match p ''(''"
    and "\<not> isSpace (remaining p)"
  shows "step_ok p (leaf_open label nodes p)"
proof -
  obtain v n ok where b: "ScanBalancedPattern (remaining p) = (v, n, ok)" by (cases "ScanBalancedPattern (remaining p)")
  have start: "remaining p \<noteq> []" "hd (remaining p) = CHR ''(''"
    using assms(3) parser_match_char [of "CHR ''(''" p] by auto
  have n: "n \<le> length (remaining p)" "ok \<Longrightarrow> 0 < n"
    using ScanBalancedPattern_bounds [OF b] ScanBalancedPattern_progress [of "remaining p" v n] start assms(4) b
    by auto
  have "parser_expect p ''('' = (True, p\<lparr>p_pos := p_pos p + 1\<rparr>)" using assms(3) by (simp add: parser_expect_def)
  with b n assms(1,2) start show ?thesis
    by (auto simp: leaf_open_def Let_def advances_def newPattern_def)
qed

lemma leaf_close_ok:
  assumes "p_pos p \<le> length (p_buf p)" and "tree_ok (p_buf p) nodes" and "start \<le> p_pos p"
  shows "step_ok p (leaf_close start nodes p)"
  using assms by (auto simp: leaf_close_def Let_def advances_def proper_error_def newPattern_def
      zero_parameter_def zero_annotation_def IsSet_def)

lemma leaf_step_ok:
  assumes "p_pos p \<le> length (p_buf p)" and "tree_ok (p_buf p) nodes" and "start \<le> p_pos p"
  shows "step_ok p (leaf_step label start nodes p)"
proof -
  obtain p1 where p1: "skipSpaces p = Inr p1" "advances p p1" "remaining p1 = [] \<or> \<not> isSpace (remaining p1)"
    using skipSpaces_advances [OF assms(1)] by blast
  have le1: "p_pos p1 \<le> length (p_buf p1)" "tree_ok (p_buf p1) nodes" "start \<le> p_pos p1"
    using p1 assms by (auto simp: advances_def)
  obtain closing p2 where e: "parser_expect p1 '')'' = (closing, p2)" by fastforce
  note expect = parser_expect_advances [OF e le1(1)]
  have le2: "p_pos p2 \<le> length (p_buf p2)" "tree_ok (p_buf p2) nodes" "start \<le> p_pos p2" "advances p p2"
    using expect(1) p1(2) le1 by (auto simp: advances_def)
  consider "parser_done p1"
    | "\<not> parser_done p1" "parser_match p1 ''(''" "\<not> isSet (p_heuristics p1) allowDanglingParens"
    | "\<not> parser_done p1" "\<not> parser_match p1 ''('' \<or> isSet (p_heuristics p1) allowDanglingParens"
    by blast
  then have "step_ok p (leaf_step label start nodes p)"
  proof cases
    case 1
    with p1 assms show ?thesis by (simp add: leaf_step_def)
  next
    case 2
    have "\<not> isSpace (remaining p1)" using p1(3) 2(1) by (auto simp: parser_done_def)
    from leaf_open_ok [OF le1(1,2) 2(2) this] p1(2) have "step_ok p (leaf_open label nodes p1)"
      by (rule step_ok_mono)
    with 2 p1 show ?thesis by (simp add: leaf_step_def)
  next
    case 3
    have "p_pos p < p_pos p2 \<or> leaf_position p2"
    proof (cases closing)
      case True
      with expect(2) p1(2) show ?thesis by (auto simp: advances_def)
    next
      case False
      then have "p2 = p1" "\<not> parser_match p1 '')''" using expect(3) e by (auto simp: parser_expect_def split: if_splits)
      then show ?thesis using 3 p1(3) parser_match_char [of "CHR '')''" p1] parser_match_char [of "CHR ''(''" p1]
        by (auto simp: leaf_position_def parser_done_def)
    qed
    from leaf_default_ok [OF le2(1,2,4) this]
    have "step_ok p (leaf_default label nodes p2)" .
    moreover have "step_ok p (leaf_close start nodes p2)"
      using leaf_close_ok [OF le2(1,2,3)] le2(4) by (rule step_ok_mono)
    moreover have "matchUnaryKeyword p2 ''not'' \<Longrightarrow> step_ok p (leaf_negated label nodes p2)"
      using leaf_negated_ok [OF le2(1,2) matchUnaryKeyword_match] le2(4) step_ok_mono by blast
    moreover have "step_ok p (Leave nodes p2)" using le2 assms(2) by (simp add: advances_def)
    ultimately show ?thesis using p1(1) e 3 by (auto simp: leaf_step_def)
  qed
  then show ?thesis .
qed

text \<open>A run from \<open>p\<close> ends with an error message of the source or with well-formed nodes.\<close>

fun run_ok :: "parser \<Rightarrow> query_error + (node list \<times> parser) \<Rightarrow> bool" where
  "run_ok p (Inl e) \<longleftrightarrow> proper_error e"
| "run_ok p (Inr (nodes, p')) \<longleftrightarrow> advances p p' \<and> tree_ok (p_buf p) nodes"

lemma run_ok_mono: "run_ok q res \<Longrightarrow> advances p q \<Longrightarrow> run_ok p res"
  by (cases res) (auto simp: advances_def)

abbreviation room :: "parser \<Rightarrow> nat" where
  "room p \<equiv> length (p_buf p) - p_pos p"

text \<open>The common shape of \<open>parseAnd\<close> and \<open>parseOr\<close>: an operand, then a keyword and the rest.\<close>

lemma operand_chain_ok:
  assumes left: "run_ok p res" and kw: "0 < length kw"
    and right: "\<And>p2. advances p p2 \<Longrightarrow> p_pos p < p_pos p2 \<Longrightarrow> run_ok p2 (rest p2)"
  shows "run_ok p
    (case res of
       Inl e \<Rightarrow> Inl e
     | Inr (left, p1) \<Rightarrow>
         if left = [] then Inl (ExpectedOperand (p_pos p1))
         else (case parser_expect p1 kw of (found, p2) \<Rightarrow>
                 if \<not> found then Inr (left, p2)
                 else (case rest p2 of
                         Inl e \<Rightarrow> Inl e
                       | Inr (right, p3) \<Rightarrow> Inr (NewOperator (left @ right) kind, p3))))"
proof (cases res)
  case (Inl e)
  with left show ?thesis by simp
next
  case (Inr x)
  obtain nodes p1 where x: "x = (nodes, p1)" by fastforce
  with left Inr have p1: "advances p p1" "tree_ok (p_buf p) nodes" by auto
  obtain found p2 where e: "parser_expect p1 kw = (found, p2)" by fastforce
  note expect = parser_expect_advances [OF e]
  show ?thesis
  proof (cases "nodes = [] \<or> \<not> found")
    case True
    with Inr x e expect p1 show ?thesis by (auto simp: proper_error_def advances_def)
  next
    case False
    then have p2: "advances p p2" "p_pos p < p_pos p2"
      using expect(1,2) p1 kw by (cases kw; auto simp: advances_def)+
    have "run_ok p (rest p2)" using run_ok_mono [OF right [OF p2] p2(1)] .
    with False Inr x e p1 show ?thesis
      by (cases "rest p2") (auto simp: tree_ok_NewOperator)
  qed
qed

lemma parse_runs:
  "(\<forall>p label start nodes. p_pos p \<le> length (p_buf p) \<longrightarrow> tree_ok (p_buf p) nodes \<longrightarrow> start \<le> p_pos p \<longrightarrow>
      3 * room p + 1 \<le> n \<longrightarrow> run_ok p (parseLeaves_loop n label start nodes p)) \<and>
   (\<forall>p. p_pos p \<le> length (p_buf p) \<longrightarrow> 3 * room p + 2 \<le> n \<longrightarrow> run_ok p (parseAnd n p)) \<and>
   (\<forall>p. p_pos p \<le> length (p_buf p) \<longrightarrow> 3 * room p + 3 \<le> n \<longrightarrow> run_ok p (parseOr n p))"
proof (induction n)
  case (Suc n)
  have leaves: "run_ok p (parseLeaves_loop n label start nodes p)"
    if "p_pos p \<le> length (p_buf p)" "tree_ok (p_buf p) nodes" "start \<le> p_pos p" "3 * room p + 1 \<le> n"
    for p label start nodes using Suc that by blast
  have conj: "run_ok p (parseAnd n p)" if "p_pos p \<le> length (p_buf p)" "3 * room p + 2 \<le> n" for p
    using Suc that by blast
  have disj: "run_ok p (parseOr n p)" if "p_pos p \<le> length (p_buf p)" "3 * room p + 3 \<le> n" for p
    using Suc that by blast
  have later: "p_pos p' \<le> length (p_buf p')" "3 * room p' + 3 \<le> 3 * room p"
    if "advances p p'" "p_pos p < p_pos p'" for p p'
    using that by (auto simp: advances_def)
  have "run_ok p (parseLeaves_loop (Suc n) label start nodes p)"
    if p: "p_pos p \<le> length (p_buf p)" "tree_ok (p_buf p) nodes" "start \<le> p_pos p" "3 * room p + 1 \<le> Suc n"
    for p label start nodes
  proof (cases "leaf_step label start nodes p")
    case (Leave nodes' p')
    with leaf_step_ok [OF p(1-3), of label] show ?thesis by (auto simp: tree_ok_partitionParameters)
  next
    case (Fail e)
    with leaf_step_ok [OF p(1-3), of label] show ?thesis by simp
  next
    case (Again label' nodes' p')
    with leaf_step_ok [OF p(1-3), of label]
    have adv: "advances p p'" "p_pos p < p_pos p'" and ok: "tree_ok (p_buf p) nodes'" by auto
    have "run_ok p' (parseLeaves_loop n label' start nodes' p')"
      using later [OF adv] adv ok p by (intro leaves) (auto simp: advances_def)
    with Again run_ok_mono [OF _ adv(1)] show ?thesis by simp
  next
    case (Group p')
    with leaf_step_ok [OF p(1-3), of label] have adv: "advances p p'" "p_pos p < p_pos p'" by auto
    have inner: "run_ok p (parseOr n p')"
      using later [OF adv] p(4) by (intro run_ok_mono [OF disj adv(1)]) auto
    show ?thesis
    proof (cases "parseOr n p'")
      case (Inr x)
      obtain result p'' where x: "x = (result, p'')" by fastforce
      with inner Inr have adv': "advances p p''" "tree_ok (p_buf p) result" by auto
      have lt: "p_pos p < p_pos p''"
        using disj [of p'] later [OF adv] p(4) Inr x adv by (auto simp: advances_def)
      have "run_ok p'' (parseLeaves_loop n label start (nodes @ result) p'')"
        using later [OF adv'(1) lt] adv' lt p by (intro leaves) (auto simp: advances_def)
      with Group Inr x run_ok_mono [OF _ adv'(1)] show ?thesis by simp
    qed (use inner Group in simp)
  qed
  moreover have "run_ok p (parseAnd (Suc n) p)"
    if p: "p_pos p \<le> length (p_buf p)" "3 * room p + 2 \<le> Suc n" for p
    unfolding parseAnd.simps
  proof (rule operand_chain_ok)
    show "run_ok p (parseLeaves_loop n (leaf_label (p_leafParser p)) (p_pos p) [] p)"
      using p by (intro leaves) auto
    show "run_ok p2 (parseAnd n p2)" if "advances p p2" "p_pos p < p_pos p2" for p2
      using later [OF that] p by (intro conj) auto
  qed simp
  moreover have "run_ok p (parseOr (Suc n) p)"
    if p: "p_pos p \<le> length (p_buf p)" "3 * room p + 3 \<le> Suc n" for p
    unfolding parseOr.simps
  proof (rule operand_chain_ok)
    show "run_ok p (parseAnd n p)" using p by (intro conj) auto
    show "run_ok p2 (parseOr n p2)" if "advances p p2" "p_pos p < p_pos p2" for p2
      using later [OF that] p by (intro disj) auto
  qed simp
  ultimately show ?case by blast
qed simp

lemma parseOr_ok: "run_ok (new_parser buf h t) (parseOr (parse_fuel buf) (new_parser buf h t))"
  using parse_runs [of "parse_fuel buf"] by (simp add: parse_fuel_def new_parser_def)

section \<open>Parse\<close>

lemma leaf_ok_hoisted [simp]: "leaf_ok n (hoisted_leaf nd) = leaf_ok n nd"
  by (cases nd) (simp_all add: mark_hoisted_def)

lemma tree_ok_Hoist: "Hoist nodes = Inr ns \<Longrightarrow> tree_ok buf nodes \<Longrightarrow> tree_ok buf ns"
  using Hoist_terms(3) [of nodes ns] Hoist_wf [of nodes ns] by (fastforce simp: tree_ok_def)

lemma tryFallbackParser_ok:
  "tryFallbackParser t buf = Inl e \<Longrightarrow> proper_error e"
  "tryFallbackParser t buf = Inr nodes \<Longrightarrow> tree_ok buf nodes \<and> length nodes \<le> 1"
  using parseOr_ok [of buf allowDanglingParens t] NewOperator_length_le
  by (auto simp: tryFallbackParser_def new_parser_def tree_ok_NewOperator tree_ok_Hoist split: sum.splits)

lemma validatePureLiteralPattern_proper: "validatePureLiteralPattern nodes b = Some e \<Longrightarrow> proper_error e"
  by (auto simp: validatePureLiteralPattern_def proper_error_def split: if_splits)

lemma Parse_proper:
  assumes "Parse buf t = Inl e"
  shows "proper_error e"
proof (cases "parseOr (parse_fuel buf) (new_parser buf parensAsPatterns t)")
  case (Inl e')
  with parseOr_ok [of buf parensAsPatterns t] assms show ?thesis
    by (auto simp: Parse_def split: if_splits sum.splits)
next
  case (Inr x)
  obtain ns p where "x = (ns, p)" by fastforce
  with Inr assms show ?thesis using validatePureLiteralPattern_proper
    by (auto simp: Parse_def Let_def proper_error_def split: if_splits sum.splits option.splits)
qed

lemma Parse_ok:
  assumes "Parse buf t = Inr nodes"
  shows "tree_ok buf nodes" and "length nodes \<le> 1"
proof -
  have "tree_ok buf nodes \<and> length nodes \<le> 1"
  proof (cases "parseOr (parse_fuel buf) (new_parser buf parensAsPatterns t)")
    case (Inl e')
    with assms tryFallbackParser_ok(2) [of t buf nodes] show ?thesis
      by (auto simp: Parse_def split: if_splits sum.splits)
  next
    case (Inr x)
    obtain ns p where x: "x = (ns, p)" by fastforce
    with Inr parseOr_ok [of buf parensAsPatterns t] have ok: "tree_ok buf ns" by (simp add: new_parser_def)
    define ns' where "ns' = (if \<not> isSet (p_heuristics p) disambiguated then
        (case Hoist ns of Inr hoisted \<Rightarrow> hoisted | Inl _ \<Rightarrow> ns) else ns)"
    have "tree_ok buf ns'" using ok tree_ok_Hoist by (auto simp: ns'_def split: sum.split)
    moreover have "nodes = [] \<or> nodes = NewOperator ns' And \<or> tryFallbackParser t buf = Inr nodes"
      using assms Inr x by (auto simp: Parse_def Let_def ns'_def split: if_splits sum.splits option.splits)
    ultimately show ?thesis
      using tryFallbackParser_ok(2) tree_ok_NewOperator NewOperator_length_le by auto
  qed
  then show "tree_ok buf nodes" and "length nodes \<le> 1" by auto
qed

text \<open>The bound on the recursion only decides whether parsing ends, not what it returns.\<close>

lemma parse_fuel_mono:
  "(\<forall>label start nodes p. parseLeaves_loop n label start nodes p \<noteq> Inl OutOfFuel \<longrightarrow>
      parseLeaves_loop (Suc n) label start nodes p = parseLeaves_loop n label start nodes p) \<and>
   (\<forall>p. parseAnd n p \<noteq> Inl OutOfFuel \<longrightarrow> parseAnd (Suc n) p = parseAnd n p) \<and>
   (\<forall>p. parseOr n p \<noteq> Inl OutOfFuel \<longrightarrow> parseOr (Suc n) p = parseOr n p)"
proof (induction n)
  case (Suc n)
  define m where "m = Suc n"
  have leaves: "parseLeaves_loop m label start nodes p = parseLeaves_loop n label start nodes p"
    if "parseLeaves_loop n label start nodes p \<noteq> Inl OutOfFuel" for label start nodes p
    using Suc that unfolding m_def by blast
  have conj: "parseAnd m p = parseAnd n p" if "parseAnd n p \<noteq> Inl OutOfFuel" for p
    using Suc that unfolding m_def by blast
  have disj: "parseOr m p = parseOr n p" if "parseOr n p \<noteq> Inl OutOfFuel" for p
    using Suc that unfolding m_def by blast
  have "parseLeaves_loop (Suc m) label start nodes p = parseLeaves_loop (Suc n) label start nodes p"
    if ne: "parseLeaves_loop (Suc n) label start nodes p \<noteq> Inl OutOfFuel" for label start nodes p
  proof (cases "leaf_step label start nodes p")
    case (Again label' nodes' p')
    with ne leaves [of label' start nodes' p'] show ?thesis by auto
  next
    case (Group p')
    show ?thesis
    proof (cases "parseOr n p'")
      case (Inl e)
      with ne Group disj [of p'] show ?thesis by auto
    next
      case (Inr x)
      with ne Group disj [of p'] leaves [of label start "nodes @ fst x" "snd x"] show ?thesis
        by (cases x) auto
    qed
  qed simp_all
  moreover have "parseAnd (Suc m) p = parseAnd (Suc n) p" if ne: "parseAnd (Suc n) p \<noteq> Inl OutOfFuel" for p
  proof (cases "parseLeaves_loop n (leaf_label (p_leafParser p)) (p_pos p) [] p")
    case (Inl e)
    with ne leaves show ?thesis by auto
  next
    case (Inr x)
    with ne leaves conj [of "snd (parser_expect (snd x) ''and'')"] show ?thesis
      by (cases x; cases "parser_expect (snd x) ''and''"; cases "parseAnd n (snd (parser_expect (snd x) ''and''))")
         (auto split: if_splits)
  qed
  moreover have "parseOr (Suc m) p = parseOr (Suc n) p" if ne: "parseOr (Suc n) p \<noteq> Inl OutOfFuel" for p
  proof (cases "parseAnd n p")
    case (Inl e)
    with ne conj show ?thesis by auto
  next
    case (Inr x)
    with ne conj disj [of "snd (parser_expect (snd x) ''or'')"] show ?thesis
      by (cases x; cases "parser_expect (snd x) ''or''"; cases "parseOr n (snd (parser_expect (snd x) ''or''))")
         (auto split: if_splits)
  qed
  ultimately show ?case unfolding m_def by blast
qed simp

lemma parseOr_fuel:
  assumes "parse_fuel buf \<le> n"
  shows "parseOr n (new_parser buf h t) = parseOr (parse_fuel buf) (new_parser buf h t)"
  using assms
proof (induction n rule: dec_induct)
  case (step n)
  have "parseOr n (new_parser buf h t) \<noteq> Inl OutOfFuel"
    using step(3) parseOr_ok [of buf h t] by (auto simp: proper_error_def)
  with parse_fuel_mono [of n] step(3) show ?case by metis
qed simp

end
