(* ===== verification/Query_Predicate.thy ===== *)
theory Query_Predicate
  imports Query_Parser
begin

text \<open>
  Search predicates such as \<open>repo:has.file(path:x)\<close> (\<open>internal/search/query/predicate.go\<close>):
  \<open>Unmarshal\<close> of each predicate type, which reads the predicate's arguments.

  The two regular-expression parsers the code calls (\<open>regexp.Compile\<close> and \<open>syntax.Parse\<close> of
  the same third-party package) are the parameters \<open>Compile\<close> and \<open>Syntax\<close>, which say what
  they accept.

  Shown here: key/value arguments can be quoted and read back, and trailing text after a quoted
  key is dropped without an error.
\<close>

section \<open>Values and errors\<close>

datatype predicate =
    RepoContainsFile string string bool
  | RepoContainsContent string bool
  | RepoContainsPath string bool
  | RepoContainsCommitAfter string bool
  | RepoHasDescription string
  | RepoHasTag string bool
  | RepoHasMeta string "string option" bool bool
  | RepoHasKVP string string bool
  | RepoHasKey string bool
  | RepoHasTopic string bool
  | RepoContains string string bool
  | FileContainsContent string
  | FileHasOwner string bool

datatype predicate_error =
    PredicateQuery query_error
  | PredicateNegatedValue
  | PredicateTwice string
  | PredicateBadRegexp
  | PredicateBadOption string
  | PredicateBarePattern string
  | PredicateOr
  | PredicateNothingSet
  | PredicateEmpty
  | PredicateNegated string string
  | PredicateKeyEmpty
  | PredicateExtraContent
  | PredicateNoColon

section \<open>Names\<close>

text \<open>The methods \<open>Field\<close> and \<open>Name\<close> of the predicate types.\<close>

fun predicate_Field :: "predicate_kind \<Rightarrow> string" where
  "predicate_Field FileContainsContentPredicate = FieldFile"
| "predicate_Field FileHasOwnerPredicate = FieldFile"
| "predicate_Field _ = FieldRepo"

fun predicate_Name :: "predicate_kind \<Rightarrow> string" where
  "predicate_Name RepoContainsFilePredicate = ''contains.file''"
| "predicate_Name RepoContainsPathPredicate = ''contains.path''"
| "predicate_Name RepoContainsContentPredicate = ''contains.content''"
| "predicate_Name RepoContainsCommitAfterPredicate = ''contains.commit.after''"
| "predicate_Name RepoHasDescriptionPredicate = ''has.description''"
| "predicate_Name RepoHasTagPredicate = ''has.tag''"
| "predicate_Name RepoHasKVPPredicate = ''has''"
| "predicate_Name RepoHasKeyPredicate = ''has.key''"
| "predicate_Name RepoHasMetaPredicate = ''has.meta''"
| "predicate_Name RepoHasTopicPredicate = ''has.topic''"
| "predicate_Name RepoContainsPredicate = ''contains''"
| "predicate_Name FileContainsContentPredicate = ''contains.content''"
| "predicate_Name FileHasOwnerPredicate = ''has.owner''"

section \<open>Arguments that are queries\<close>

text \<open>
  \<open>parseNode\<close> of \<open>RepoContainsFilePredicate\<close> and of \<open>RepoContainsPredicate\<close>, which differ in
  the name of the first option and in the regular-expression check. The state is the pair of
  values set so far.
\<close>

fun parse_contains :: "(string \<Rightarrow> bool) \<Rightarrow> string \<Rightarrow> node list \<Rightarrow> string \<times> string \<Rightarrow>
    predicate_error + (string \<times> string)" where
  "parse_contains valid option [] st = Inr st"
| "parse_contains valid option (Parameter v # ns) st =
     (if par_Negated v then Inl PredicateNegatedValue
      else
        let f = strings_ToLower (par_Field v) in
        if f = option then
          (if fst st \<noteq> [] then Inl (PredicateTwice option)
           else if \<not> valid (par_Value v) then Inl PredicateBadRegexp
           else parse_contains valid option ns (par_Value v, snd st))
        else if f = ''content'' then
          (if snd st \<noteq> [] then Inl (PredicateTwice ''content'')
           else if \<not> valid (par_Value v) then Inl PredicateBadRegexp
           else parse_contains valid option ns (fst st, par_Value v))
        else Inl (PredicateBadOption (par_Field v)))"
| "parse_contains valid option (Pattern v # ns) st = Inl (PredicateBarePattern (pat_Value v))"
| "parse_contains valid option (Operator k operands a # ns) st =
     (if k = Or then Inl PredicateOr
      else case parse_contains valid option operands st of
        Inl e \<Rightarrow> Inl e
      | Inr st' \<Rightarrow> parse_contains valid option ns st')"

definition RepoContainsFile_parseNodes ::
    "(string \<Rightarrow> bool) \<Rightarrow> node list \<Rightarrow> string \<times> string \<Rightarrow> predicate_error + (string \<times> string)" where
  "RepoContainsFile_parseNodes Syntax nodes st = parse_contains Syntax ''path'' nodes st"

definition RepoContains_parseNodes ::
    "(string \<Rightarrow> bool) \<Rightarrow> node list \<Rightarrow> string \<times> string \<Rightarrow> predicate_error + (string \<times> string)" where
  "RepoContains_parseNodes Compile nodes st = parse_contains Compile ''file'' nodes st"

definition Unmarshal_RepoContainsFile ::
    "(string \<Rightarrow> bool) \<Rightarrow> string \<Rightarrow> bool \<Rightarrow> predicate_error + predicate" where
  "Unmarshal_RepoContainsFile Syntax params negated =
     (case Parse params SearchTypeRegex of
        Inl e \<Rightarrow> Inl (PredicateQuery e)
      | Inr nodes \<Rightarrow>
          (case (case RepoContainsFile_parseNodes Syntax nodes ([], []) of
                   Inr st \<Rightarrow> Inr st
                 | Inl e \<Rightarrow>
                     (case nodes of
                        [Pattern p] \<Rightarrow>
                          if Syntax (pat_Value p) then Inr (pat_Value p, []) else Inl PredicateBadRegexp
                      | _ \<Rightarrow> Inl e)) of
             Inl e \<Rightarrow> Inl e
           | Inr (path, content) \<Rightarrow>
               if path = [] \<and> content = [] then Inl PredicateNothingSet
               else Inr (RepoContainsFile path content negated)))"

definition Unmarshal_RepoContains ::
    "(string \<Rightarrow> bool) \<Rightarrow> string \<Rightarrow> bool \<Rightarrow> predicate_error + predicate" where
  "Unmarshal_RepoContains Compile params negated =
     (case Parse params SearchTypeRegex of
        Inl e \<Rightarrow> Inl (PredicateQuery e)
      | Inr nodes \<Rightarrow>
          (case RepoContains_parseNodes Compile nodes ([], []) of
             Inl e \<Rightarrow> Inl e
           | Inr (file, content) \<Rightarrow>
               if file = [] \<and> content = [] then Inl PredicateNothingSet
               else Inr (RepoContains file content negated)))"

section \<open>Key/value arguments\<close>

text \<open>\<open>strings.Trim(s, " \t")\<close>\<close>

definition trim_blanks :: "string \<Rightarrow> string" where
  "trim_blanks s =
     (let blank = (\<lambda>c. c = CHR 0x20 \<or> c = CHR 0x09)
      in rev (dropWhile blank (rev (dropWhile blank s))))"

definition scanLiteral :: "string \<Rightarrow> query_error + (string \<times> nat)" where
  "scanLiteral data =
     (if strings_HasPrefix data [CHR 0x22] then ScanDelimited data True r_dquote
      else if strings_HasPrefix data [CHR 0x27] then ScanDelimited data True r_squote
      else case strings_IndexByte data CHR '':'' of
        Some loc \<Rightarrow> Inr (take loc data, loc)
      | None \<Rightarrow> Inr (data, length data))"

definition Unmarshal_RepoHasMeta :: "string \<Rightarrow> bool \<Rightarrow> predicate_error + predicate" where
  "Unmarshal_RepoHasMeta params0 negated =
     (let params = trim_blanks params0 in
      case scanLiteral params of
        Inl e \<Rightarrow> Inl (PredicateQuery e)
      | Inr (key, advance) \<Rightarrow>
          if key = [] then Inl PredicateKeyEmpty
          else
            let rest = drop advance params in
            if strings_HasPrefix rest '':'' then
              (case scanLiteral (drop 1 rest) of
                 Inl e \<Rightarrow> Inl (PredicateQuery e)
               | Inr (v, advance') \<Rightarrow>
                   if drop advance' (drop 1 rest) \<noteq> [] then Inl PredicateExtraContent
                   else Inr (RepoHasMeta key (if v \<noteq> [] then Some v else None) negated False))
            else Inr (RepoHasMeta key None negated True))"

definition Unmarshal_RepoHasKVP :: "string \<Rightarrow> bool \<Rightarrow> predicate_error + predicate" where
  "Unmarshal_RepoHasKVP params0 negated =
     (let params = trim_blanks params0 in
      case scanLiteral params of
        Inl e \<Rightarrow> Inl (PredicateQuery e)
      | Inr (key, advance) \<Rightarrow>
          let rest = drop advance params in
          if \<not> strings_HasPrefix rest '':'' then Inl PredicateNoColon
          else
            (case scanLiteral (drop 1 rest) of
               Inl e \<Rightarrow> Inl (PredicateQuery e)
             | Inr (v, advance') \<Rightarrow>
                 if drop advance' (drop 1 rest) \<noteq> [] then Inl PredicateExtraContent
                 else if key = [] then Inl PredicateKeyEmpty
                 else Inr (RepoHasKVP key v negated)))"

section \<open>Unmarshal\<close>

text \<open>The checks of the predicates whose argument is one regular expression.\<close>

definition unmarshal_regexp ::
    "(string \<Rightarrow> bool) \<Rightarrow> string \<Rightarrow> predicate \<Rightarrow> predicate_error + predicate" where
  "unmarshal_regexp Syntax params p =
     (if \<not> Syntax params then Inl PredicateBadRegexp
      else if params = [] then Inl PredicateEmpty
      else Inr p)"

definition Unmarshal_RepoContainsContent ::
    "(string \<Rightarrow> bool) \<Rightarrow> string \<Rightarrow> bool \<Rightarrow> predicate_error + predicate" where
  "Unmarshal_RepoContainsContent Syntax params negated =
     unmarshal_regexp Syntax params (RepoContainsContent params negated)"

definition Unmarshal_RepoContainsPath ::
    "(string \<Rightarrow> bool) \<Rightarrow> string \<Rightarrow> bool \<Rightarrow> predicate_error + predicate" where
  "Unmarshal_RepoContainsPath Syntax params negated =
     unmarshal_regexp Syntax params (RepoContainsPath params negated)"

definition Unmarshal_RepoContainsCommitAfter :: "string \<Rightarrow> bool \<Rightarrow> predicate_error + predicate" where
  "Unmarshal_RepoContainsCommitAfter params negated = Inr (RepoContainsCommitAfter params negated)"

definition Unmarshal_RepoHasDescription ::
    "(string \<Rightarrow> bool) \<Rightarrow> string \<Rightarrow> bool \<Rightarrow> predicate_error + predicate" where
  "Unmarshal_RepoHasDescription Syntax params negated =
     (if negated then Inl (PredicateNegated FieldRepo ''has.description'')
      else unmarshal_regexp Syntax params (RepoHasDescription params))"

definition Unmarshal_RepoHasTag :: "string \<Rightarrow> bool \<Rightarrow> predicate_error + predicate" where
  "Unmarshal_RepoHasTag params negated =
     (if length params = 0 then Inl PredicateEmpty else Inr (RepoHasTag params negated))"

definition Unmarshal_RepoHasKey :: "string \<Rightarrow> bool \<Rightarrow> predicate_error + predicate" where
  "Unmarshal_RepoHasKey params negated =
     (if length params = 0 then Inl PredicateEmpty else Inr (RepoHasKey params negated))"

definition Unmarshal_RepoHasTopic :: "string \<Rightarrow> bool \<Rightarrow> predicate_error + predicate" where
  "Unmarshal_RepoHasTopic params negated =
     (if length params = 0 then Inl PredicateEmpty else Inr (RepoHasTopic params negated))"

definition Unmarshal_FileContainsContent ::
    "(string \<Rightarrow> bool) \<Rightarrow> string \<Rightarrow> bool \<Rightarrow> predicate_error + predicate" where
  "Unmarshal_FileContainsContent Syntax params negated =
     (if negated then Inl (PredicateNegated FieldFile ''contains.content'')
      else unmarshal_regexp Syntax params (FileContainsContent params))"

definition Unmarshal_FileHasOwner :: "string \<Rightarrow> bool \<Rightarrow> predicate_error + predicate" where
  "Unmarshal_FileHasOwner params negated = Inr (FileHasOwner params negated)"

text \<open>The method call through the interface \<open>Predicate\<close>.\<close>

fun Unmarshal ::
    "(string \<Rightarrow> bool) \<Rightarrow> (string \<Rightarrow> bool) \<Rightarrow> predicate_kind \<Rightarrow> string \<Rightarrow> bool \<Rightarrow>
     predicate_error + predicate" where
  "Unmarshal Compile Syntax RepoContainsFilePredicate = Unmarshal_RepoContainsFile Syntax"
| "Unmarshal Compile Syntax RepoContainsContentPredicate = Unmarshal_RepoContainsContent Syntax"
| "Unmarshal Compile Syntax RepoContainsPathPredicate = Unmarshal_RepoContainsPath Syntax"
| "Unmarshal Compile Syntax RepoContainsCommitAfterPredicate = Unmarshal_RepoContainsCommitAfter"
| "Unmarshal Compile Syntax RepoHasDescriptionPredicate = Unmarshal_RepoHasDescription Syntax"
| "Unmarshal Compile Syntax RepoHasTagPredicate = Unmarshal_RepoHasTag"
| "Unmarshal Compile Syntax RepoHasMetaPredicate = Unmarshal_RepoHasMeta"
| "Unmarshal Compile Syntax RepoHasKVPPredicate = Unmarshal_RepoHasKVP"
| "Unmarshal Compile Syntax RepoHasKeyPredicate = Unmarshal_RepoHasKey"
| "Unmarshal Compile Syntax RepoHasTopicPredicate = Unmarshal_RepoHasTopic"
| "Unmarshal Compile Syntax RepoContainsPredicate = Unmarshal_RepoContains Compile"
| "Unmarshal Compile Syntax FileContainsContentPredicate = Unmarshal_FileContainsContent Syntax"
| "Unmarshal Compile Syntax FileHasOwnerPredicate = Unmarshal_FileHasOwner"

section \<open>Quoted keys and values\<close>

definition literal_quote :: "char \<Rightarrow> bool" where
  "literal_quote q \<longleftrightarrow> q = CHR 0x22 \<or> q = CHR 0x27"

lemma trim_blanks_id:
  assumes "s \<noteq> []" and "hd s \<notin> {CHR 0x20, CHR 0x09}" and "last s \<notin> {CHR 0x20, CHR 0x09}"
  shows "trim_blanks s = s"
proof -
  have "dropWhile P s = s" if "\<not> P (hd s)" for P using assms(1) that by (cases s) auto
  moreover have "dropWhile P (rev s) = rev s" if "\<not> P (last s)" for P
    using assms(1) that by (cases s rule: rev_cases) auto
  ultimately show ?thesis using assms by (auto simp: trim_blanks_def Let_def)
qed

lemma quote_with_ends [simp]:
  "quote_with q s \<noteq> []" "hd (quote_with q s) = q" "last (quote_with q s) = q"
  by (simp_all add: quote_with_def)

lemma scanLiteral_quote:
  assumes "valid_utf8 s" and "literal_quote q"
  shows "scanLiteral (quote_with q s @ rest) = Inr (s, length (quote_with q s))"
proof -
  have delim: "query_delimiter q" using assms(2) by (auto simp: literal_quote_def query_delimiter_def)
  have prefix: "strings_HasPrefix (quote_with q s @ rest) [c] \<longleftrightarrow> c = q" for c
    by (auto simp: strings_HasPrefix_def quote_with_def)
  note scan = ScanDelimited_quote [OF assms(1) delim, of rest True]
  consider "q = CHR 0x22" "(of_char q :: nat) = r_dquote" | "q = CHR 0x27" "(of_char q :: nat) = r_squote"
    using assms(2) by (auto simp: literal_quote_def)
  then show ?thesis
  proof cases
    case 1
    then show ?thesis unfolding scanLiteral_def prefix using scan by simp
  next
    case 2
    then show ?thesis unfolding scanLiteral_def prefix using scan by simp
  qed
qed

lemma quoted_params:
  assumes "literal_quote q" and "rest \<noteq> [] \<Longrightarrow> last rest \<notin> {CHR 0x20, CHR 0x09}"
  shows "trim_blanks (quote_with q s @ rest) = quote_with q s @ rest"
  using assms by (cases rest rule: rev_cases) (auto intro!: trim_blanks_id simp: literal_quote_def last_append)

lemma key_value_quoted:
  assumes "valid_utf8 key" and "valid_utf8 v" and "key \<noteq> []" and "literal_quote q" and "literal_quote q'"
  defines "params \<equiv> quote_with q key @ '':'' @ quote_with q' v"
  shows "Unmarshal_RepoHasKVP params negated = Inr (RepoHasKVP key v negated)"
    and "Unmarshal_RepoHasMeta params negated = Inr (RepoHasMeta key (if v \<noteq> [] then Some v else None) negated False)"
proof -
  have trim: "trim_blanks params = params"
    unfolding params_def using assms(4,5) by (intro quoted_params) (auto simp: literal_quote_def)
  have key: "scanLiteral params = Inr (key, length (quote_with q key))"
    unfolding params_def by (rule scanLiteral_quote [OF assms(1,4)])
  have v: "scanLiteral (quote_with q' v) = Inr (v, length (quote_with q' v))"
    using scanLiteral_quote [OF assms(2,5), of "[]"] by simp
  have rest: "drop (length (quote_with q key)) params = '':'' @ quote_with q' v"
    by (simp add: params_def)
  show "Unmarshal_RepoHasKVP params negated = Inr (RepoHasKVP key v negated)"
    "Unmarshal_RepoHasMeta params negated = Inr (RepoHasMeta key (if v \<noteq> [] then Some v else None) negated False)"
    unfolding Unmarshal_RepoHasKVP_def Unmarshal_RepoHasMeta_def trim Let_def key sum.case prod.case rest
    using assms(3) by (simp_all add: v strings_HasPrefix_def)
qed

text \<open>After a quoted key, anything that does not start with a colon is ignored.\<close>

lemma meta_trailing_ignored:
  assumes "valid_utf8 key" and "key \<noteq> []" and "literal_quote q"
    and "rest \<noteq> [] \<Longrightarrow> hd rest \<noteq> CHR '':'' \<and> last rest \<notin> {CHR 0x20, CHR 0x09}"
  shows "Unmarshal_RepoHasMeta (quote_with q key @ rest) negated = Inr (RepoHasMeta key None negated True)"
proof -
  have "trim_blanks (quote_with q key @ rest) = quote_with q key @ rest"
    using assms(3,4) by (intro quoted_params) auto
  moreover have "\<not> strings_HasPrefix rest '':''" using assms(4) by (cases rest) (auto simp: strings_HasPrefix_def)
  ultimately show ?thesis
    using assms(2) scanLiteral_quote [OF assms(1,3)] by (simp add: Unmarshal_RepoHasMeta_def)
qed

end
