(* ===== verification/Query_Plan.thy ===== *)
theory Query_Plan
  imports Query_Transform
begin

text \<open>
  Query plans: \<open>Basic\<close> queries (\<open>types.go\<close>), \<open>distribute\<close>, \<open>product\<close>, \<open>conjunction\<close>,
  \<open>BuildPlan\<close>, \<open>ToBasicQuery\<close> and \<open>ConcatRevFilters\<close> of
  \<open>internal/search/query/transformer.go\<close>.

  Shown here: a plan is equivalent to the query it was built from; each of its basic queries
  has a pattern without parameters; the number of its basic queries is the number of choices
  of alternatives in the query; and attaching revisions to repositories removes every
  \<open>rev:\<close> filter and touches nothing but \<open>repo:\<close> filters.
\<close>

section \<open>Definitions\<close>

record Basic =
  bas_Parameters :: "parameter list"
  bas_Pattern :: "node option"

type_synonym Plan = "Basic list"

definition conjunction :: "Basic \<Rightarrow> Basic \<Rightarrow> Basic" where
  "conjunction left right =
     \<lparr>bas_Parameters = bas_Parameters left @ bas_Parameters right,
      bas_Pattern =
        (case bas_Pattern left of
           None \<Rightarrow> bas_Pattern right
         | Some l \<Rightarrow>
             (case bas_Pattern right of
                None \<Rightarrow> Some l
              | Some r \<Rightarrow> Some (hd (NewOperator [l, r] And))))\<rparr>"

definition product :: "Basic list \<Rightarrow> Basic \<Rightarrow> Basic list" where
  "product basics toMerge =
     (if length basics = 0 then [toMerge] else map (\<lambda>basic. conjunction basic toMerge) basics)"

function distribute :: "Basic list \<Rightarrow> node list \<Rightarrow> Basic list" where
  "distribute prefixes [] = prefixes"
| "distribute prefixes (Parameter p # ns) =
     distribute (product prefixes \<lparr>bas_Parameters = [p], bas_Pattern = None\<rparr>) ns"
| "distribute prefixes (Pattern p # ns) =
     distribute (product prefixes \<lparr>bas_Parameters = [], bas_Pattern = Some (Pattern p)\<rparr>) ns"
| "distribute prefixes (Operator k operands a # ns) =
     (if isPatternExpression operands then
        distribute (product prefixes \<lparr>bas_Parameters = [], bas_Pattern = Some (Operator k operands a)\<rparr>) ns
      else if k = Or then
        distribute
          (concat (map (\<lambda>opnd. concat (map (product prefixes) (distribute [] [opnd]))) operands)) ns
      else distribute (distribute prefixes operands) ns)"
  by pat_completeness auto
termination
  by (relation "measure (\<lambda>(_, ns). size_list size ns)") (auto intro: less_SucI size_list_member)

definition BuildPlan :: "node list \<Rightarrow> Plan" where
  "BuildPlan query = distribute [] query"

definition ToBasicQuery :: "node list \<Rightarrow> query_error + Basic" where
  "ToBasicQuery nodes =
     (case PartitionSearchPattern nodes of
        Inl e \<Rightarrow> Inl e
      | Inr (parameters, pat) \<Rightarrow> Inr \<lparr>bas_Parameters = parameters, bas_Pattern = pat\<rparr>)"

definition ToParseTree :: "Basic \<Rightarrow> node list" where
  "ToParseTree b =
     (case bas_Pattern b of
        None \<Rightarrow> toNodes (bas_Parameters b)
      | Some pat \<Rightarrow>
          (let nodes = toNodes (bas_Parameters b) @ [pat]
           in case Hoist nodes of Inr hoisted \<Rightarrow> hoisted | Inl _ \<Rightarrow> nodes))"

definition ToQ :: "Plan \<Rightarrow> node list" where
  "ToQ p = NewOperator (concat (map (\<lambda>basic. NewOperator (ToParseTree basic) And) p)) Or"

text \<open>The type assertion of \<open>toParameters\<close> panics on a node that is not a parameter.\<close>

fun toParameters :: "node list \<Rightarrow> parameter list option" where
  "toParameters [] = Some []"
| "toParameters (Parameter p # ns) = map_option ((#) p) (toParameters ns)"
| "toParameters (n # ns) = None"

definition attach_revision :: "string \<Rightarrow> parameter \<Rightarrow> parameter" where
  "attach_revision revision p =
     (if \<not> par_Negated p \<and> \<not> IsSet (ann_Labels (par_Annotation p)) IsPredicate
      then p\<lparr>par_Value := par_Value p @ ''@'' @ revision\<rparr> else p)"

text \<open>The callback for \<open>rev:\<close> stores the value of each filter it removes; the last one stays.\<close>

definition ConcatRevFilters :: "Basic \<Rightarrow> Basic option" where
  "ConcatRevFilters b =
     (let revs = VisitField (toNodes (bas_Parameters b)) FieldRev;
          revision = (if revs = [] then [] else par_Value (List.last revs));
          nodes = MapField (toNodes (bas_Parameters b)) FieldRev (\<lambda>_. None)
      in if revision = [] then Some b
         else case toParameters (MapField nodes FieldRepo (\<lambda>p. Some (Parameter (attach_revision revision p)))) of
           None \<Rightarrow> None
         | Some ps \<Rightarrow> Some \<lparr>bas_Parameters = ps, bas_Pattern = bas_Pattern b\<rparr>)"

section \<open>Meaning of a plan\<close>

definition sat_basic :: "(node \<Rightarrow> bool) \<Rightarrow> (node list \<Rightarrow> bool) \<Rightarrow> Basic \<Rightarrow> bool" where
  "sat_basic V C b \<longleftrightarrow>
     list_all (\<lambda>p. V (Parameter p)) (bas_Parameters b) \<and>
     (case bas_Pattern b of None \<Rightarrow> True | Some n \<Rightarrow> sat V C n)"

text \<open>A list of prefixes: the empty list is the prefix of no constraint.\<close>

definition sat_prefixes :: "(node \<Rightarrow> bool) \<Rightarrow> (node list \<Rightarrow> bool) \<Rightarrow> Basic list \<Rightarrow> bool" where
  "sat_prefixes V C bs \<longleftrightarrow> bs = [] \<or> list_ex (sat_basic V C) bs"

lemma sat_conjunction:
  assumes "empty_holds V"
  shows "sat_basic V C (conjunction l r) \<longleftrightarrow> sat_basic V C l \<and> sat_basic V C r"
proof -
  have pair: "sat V C (hd (NewOperator [x, y] And)) \<longleftrightarrow> sat V C x \<and> sat V C y" for x y
    using NewOperator_sat_And [OF assms, of C "[x, y]"] NewOperator_length [of "[x, y]" And]
    by (cases "NewOperator [x, y] And") auto
  show ?thesis
    by (auto simp: sat_basic_def conjunction_def pair split: option.splits)
qed

lemma product_nonempty [simp]: "product bs b \<noteq> []"
  by (simp add: product_def)

lemma sat_product:
  assumes "empty_holds V"
  shows "sat_prefixes V C (product bs b) \<longleftrightarrow> sat_prefixes V C bs \<and> sat_basic V C b"
  using sat_conjunction [OF assms] by (auto simp: sat_prefixes_def product_def list_ex_iff)

lemma distribute_nonempty:
  "wf_nodes ns \<Longrightarrow> ns \<noteq> [] \<or> prefixes \<noteq> [] \<Longrightarrow> distribute prefixes ns \<noteq> []"
proof (induction prefixes ns rule: distribute.induct)
  case (4 prefixes k operands a ns)
  have ne: "operands \<noteq> []" using "4.prems" by auto
  then obtain o1 os where o1: "operands = o1 # os" by (cases operands) auto
  show ?case
  proof (cases "isPatternExpression operands \<or> k \<noteq> Or")
    case True
    with 4 ne show ?thesis by auto
  next
    case False
    have "wf_nodes [o1]" using "4.prems" wf_nodes_Cons [of o1 os] o1 by auto
    then have "distribute [] [o1] \<noteq> []" using 4(2) [of o1] False o1 by auto
    then have "concat (map (product prefixes) (distribute [] [o1])) \<noteq> []" by (cases "distribute [] [o1]") auto
    with False 4(3) "4.prems" o1 show ?thesis by auto
  qed
qed auto

text \<open>The alternatives of one operand, each prefixed.\<close>

lemma sat_prefixed_alternatives:
  assumes V: "empty_holds V" and "bs \<noteq> []"
  shows "sat_prefixes V C (concat (map (product prefixes) bs)) \<longleftrightarrow>
           sat_prefixes V C prefixes \<and> sat_prefixes V C bs"
proof -
  have "concat (map (product prefixes) bs) \<noteq> []" using assms(2) by (cases bs) auto
  moreover have "list_ex (sat_basic V C) (concat (map (product prefixes) bs)) \<longleftrightarrow>
      (\<exists>b \<in> set bs. list_ex (sat_basic V C) (product prefixes b))"
    by (auto simp: list_ex_iff)
  moreover have "list_ex (sat_basic V C) (product prefixes b) \<longleftrightarrow> sat_prefixes V C prefixes \<and> sat_basic V C b" for b
    using sat_product [OF V, of C prefixes b] by (simp add: sat_prefixes_def)
  ultimately show ?thesis using assms(2) by (auto simp: sat_prefixes_def list_ex_iff)
qed

lemma sat_prefixes_concat:
  assumes "xs \<noteq> []" and "\<And>x. x \<in> set xs \<Longrightarrow> f x \<noteq> []"
  shows "sat_prefixes V C (concat (map f xs)) \<longleftrightarrow> (\<exists>x \<in> set xs. sat_prefixes V C (f x))"
proof -
  have "concat (map f xs) \<noteq> []" using assms by (cases xs) auto
  then show ?thesis using assms(2) unfolding sat_prefixes_def list_ex_iff by auto
qed

lemma wf_nodes_member: "wf_nodes ns \<Longrightarrow> n \<in> set ns \<Longrightarrow> wf_nodes [n]"
  by (induction ns rule: wf_nodes.induct) auto

lemma distribute_sat:
  assumes V: "empty_holds V"
  shows "wf_nodes ns \<Longrightarrow>
    sat_prefixes V C (distribute prefixes ns) \<longleftrightarrow> sat_prefixes V C prefixes \<and> sat_all V C ns"
proof (induction prefixes ns rule: distribute.induct)
  case (4 prefixes k operands a ns)
  have wf: "wf_nodes ns" "wf_nodes operands" "operands \<noteq> []" using "4.prems" by auto
  consider (pat) "isPatternExpression operands" | (disj) "\<not> isPatternExpression operands" "k = Or"
    | (conj) "\<not> isPatternExpression operands" "k \<noteq> Or" by blast
  then show ?case
  proof cases
    case pat
    with 4(1) wf show ?thesis by (simp add: sat_product [OF V] sat_basic_def)
  next
    case disj
    let ?alt = "\<lambda>opnd. concat (map (product prefixes) (distribute [] [opnd]))"
    have ne: "distribute [] [x] \<noteq> []" if "x \<in> set operands" for x
      using distribute_nonempty [OF wf_nodes_member [OF wf(2) that]] by simp
    have alt: "sat_prefixes V C (?alt x) \<longleftrightarrow> sat_prefixes V C prefixes \<and> sat V C x"
      if "x \<in> set operands" for x
      using 4(2) [OF disj that wf_nodes_member [OF wf(2) that]] sat_prefixed_alternatives [OF V ne [OF that]]
      by (simp add: sat_prefixes_def)
    have "?alt x \<noteq> []" if "x \<in> set operands" for x
      using ne [OF that] by (cases "distribute [] [x]") auto
    then have "sat_prefixes V C (concat (map ?alt operands)) \<longleftrightarrow> (\<exists>x \<in> set operands. sat_prefixes V C (?alt x))"
      by (rule sat_prefixes_concat [OF wf(3)])
    also have "\<dots> \<longleftrightarrow> sat_prefixes V C prefixes \<and> list_ex (sat V C) operands"
      using alt by (auto simp: list_ex_iff)
    finally show ?thesis using 4(3) [OF disj wf(1)] disj by auto
  next
    case conj
    with 4(4,5) wf have "sat_prefixes V C (distribute (distribute prefixes operands) ns) \<longleftrightarrow>
        sat_prefixes V C prefixes \<and> sat_all V C operands \<and> sat_all V C ns" by auto
    moreover have "sat V C (Operator k operands a) \<longleftrightarrow> sat_all V C operands"
      using conj by (cases k) auto
    ultimately show ?thesis using conj by simp
  qed
qed (simp_all add: sat_product [OF V] sat_basic_def)

section \<open>Shape and size of a plan\<close>

definition basic_ok :: "Basic \<Rightarrow> bool" where
  "basic_ok b \<longleftrightarrow> (case bas_Pattern b of None \<Rightarrow> True | Some n \<Rightarrow> isPatternExpression [n])"

lemma basic_ok_conjunction: "basic_ok l \<Longrightarrow> basic_ok r \<Longrightarrow> basic_ok (conjunction l r)"
proof -
  have "isPatternExpression [hd (NewOperator [x, y] And)]" if "isPatternExpression [x]" "isPatternExpression [y]" for x y
    using isPatternExpression_NewOperator [of "[x, y]" And] that isPatternExpression_append [of "[x]" "[y]"]
      NewOperator_length [of "[x, y]" And] by (cases "NewOperator [x, y] And") auto
  then show "basic_ok l \<Longrightarrow> basic_ok r \<Longrightarrow> basic_ok (conjunction l r)"
    by (auto simp: basic_ok_def conjunction_def split: option.splits)
qed

text \<open>
  A property of basic queries that holds of single terms and is kept by \<open>conjunction\<close> holds
  of every basic query of a plan; \<open>R\<close> is what is known of the parameters of the query.
\<close>

lemma product_invariant:
  assumes "\<And>l r. Q l \<Longrightarrow> Q r \<Longrightarrow> Q (conjunction l r)"
  shows "list_all Q bs \<Longrightarrow> Q b \<Longrightarrow> list_all Q (product bs b)"
    and "list_all Q bs \<Longrightarrow> list_all Q cs \<Longrightarrow> list_all Q (concat (map (product bs) cs))"
  using assms by (auto simp: product_def list_all_iff)

lemma distribute_invariant:
  assumes closed: "\<And>l r. Q l \<Longrightarrow> Q r \<Longrightarrow> Q (conjunction l r)"
    and parameter: "\<And>p. R p \<Longrightarrow> Q \<lparr>bas_Parameters = [p], bas_Pattern = None\<rparr>"
    and pattern: "\<And>n. isPatternExpression [n] \<Longrightarrow> Q \<lparr>bas_Parameters = [], bas_Pattern = Some n\<rparr>"
  shows "list_all R (VisitParameter ns) \<Longrightarrow> list_all Q prefixes \<Longrightarrow> list_all Q (distribute prefixes ns)"
proof (induction prefixes ns rule: distribute.induct)
  case (4 prefixes k operands a ns)
  have R: "list_all R (VisitParameter operands)" "list_all R (VisitParameter ns)" using "4.prems" by simp_all
  consider (pat) "isPatternExpression operands" | (disj) "\<not> isPatternExpression operands" "k = Or"
    | (conj) "\<not> isPatternExpression operands" "k \<noteq> Or" by blast
  then show ?case
  proof cases
    case pat
    then have "Q \<lparr>bas_Parameters = [], bas_Pattern = Some (Operator k operands a)\<rparr>"
      by (intro pattern) simp
    with 4(1) [OF pat R(2)] pat product_invariant(1) [of Q, OF closed "4.prems"(2)] show ?thesis by simp
  next
    case disj
    have "list_all Q (concat (map (product prefixes) (distribute [] [x])))" if "x \<in> set operands" for x
    proof -
      have "list_all R (VisitParameter [x])" using R(1) that by (induction operands rule: leaves.induct) auto
      from 4(2) [OF disj that this] show ?thesis by (intro product_invariant(2) [of Q, OF closed "4.prems"(2)]) simp_all
    qed
    then have "list_all Q (concat (map (\<lambda>opnd. concat (map (product prefixes) (distribute [] [opnd]))) operands))"
      by (auto simp: list_all_iff)
    from 4(3) [OF disj R(2) this] disj show ?thesis by simp
  next
    case conj
    with 4(4,5) "4.prems" R show ?thesis by simp
  qed
qed (simp_all add: product_invariant(1) [of Q, OF closed] parameter pattern)

lemma distribute_basic_ok: "list_all basic_ok prefixes \<Longrightarrow> list_all basic_ok (distribute prefixes ns)"
  by (rule distribute_invariant [of basic_ok "\<lambda>_. True"])
     (simp_all add: basic_ok_conjunction, simp_all add: basic_ok_def list_all_iff)

text \<open>The ways to choose one alternative of every or-expression that contains a parameter.\<close>

function choices :: "node list \<Rightarrow> nat" where
  "choices [] = 1"
| "choices (Operator k operands a # ns) =
     (if isPatternExpression operands then 1
      else if k = Or then sum_list (map (\<lambda>opnd. choices [opnd]) operands)
      else choices operands) * choices ns"
| "choices (Parameter p # ns) = choices ns"
| "choices (Pattern p # ns) = choices ns"
  by pat_completeness auto
termination
  by (relation "measure (size_list size)") (auto intro: less_SucI size_list_member)

lemma length_product: "length (product bs b) = max 1 (length bs)"
  by (cases bs) (auto simp: product_def)

lemma length_distribute:
  "wf_nodes ns \<Longrightarrow> ns \<noteq> [] \<or> prefixes \<noteq> [] \<Longrightarrow>
     length (distribute prefixes ns) = max 1 (length prefixes) * choices ns"
proof (induction prefixes ns rule: distribute.induct)
  case (4 prefixes k operands a ns)
  have wf: "wf_nodes ns" "wf_nodes operands" "operands \<noteq> []" using "4.prems" by auto
  consider (pat) "isPatternExpression operands" | (disj) "\<not> isPatternExpression operands" "k = Or"
    | (conj) "\<not> isPatternExpression operands" "k \<noteq> Or" by blast
  then show ?case
  proof cases
    case pat
    with 4(1) wf show ?thesis by (simp add: length_product)
  next
    case disj
    define alts where
      "alts = concat (map (\<lambda>opnd. concat (map (product prefixes) (distribute [] [opnd]))) operands)"
    have alt: "length (concat (map (product prefixes) (distribute [] [x]))) = max 1 (length prefixes) * choices [x]"
      if "x \<in> set operands" for x
      using 4(2) [OF disj that wf_nodes_member [OF wf(2) that]]
      by (simp add: length_concat o_def length_product sum_list_triv mult.commute)
    then have len: "length alts = max 1 (length prefixes) * sum_list (map (\<lambda>x. choices [x]) operands)"
      by (simp add: alts_def length_concat o_def sum_list_const_mult cong: map_cong)
    have "alts \<noteq> []"
      using distribute_nonempty [OF wf_nodes_member [OF wf(2)]] wf(3)
      unfolding alts_def by (cases operands; cases "distribute [] [hd operands]") auto
    then have "max 1 (length alts) = length alts" by (cases alts) auto
    with 4(3) [OF disj wf(1)] len disj \<open>alts \<noteq> []\<close> show ?thesis by (simp add: alts_def [symmetric])
  next
    case conj
    have ne: "distribute prefixes operands \<noteq> []" using distribute_nonempty [OF wf(2)] wf(3) by simp
    have "0 < length (distribute prefixes operands)" using ne by simp
    with 4(4) [OF conj wf(2)] 4(5) [OF conj wf(1)] conj wf(3) ne show ?thesis
      by (simp add: max_def Suc_leI)
  qed
qed (auto simp: length_product max_def Suc_le_eq)

section \<open>Revisions\<close>

lemma toParameters_map [simp]: "toParameters (map Parameter ps) = Some ps"
  by (induction ps) simp_all

lemma toParameters_map_comp [simp]: "toParameters (map (Parameter \<circ> f) ps) = Some (map f ps)"
  by (induction ps) simp_all

lemma MapField_flat:
  "MapField (map Parameter ps) field (\<lambda>p. map_option Parameter (f p)) =
     map Parameter (List.map_filter (\<lambda>p. if par_Field p = field then f p else Some p) ps)"
  by (induction ps) (auto simp: MapField_def map_filter_simps split: option.splits)

lemma VisitField_flat: "VisitField (map Parameter ps) field = filter (\<lambda>p. par_Field p = field) ps"
  by (induction ps) (auto simp: VisitField_def)

definition revision_of :: "parameter list \<Rightarrow> string" where
  "revision_of ps =
     (case rev (filter (\<lambda>p. par_Field p = FieldRev) ps) of [] \<Rightarrow> [] | p # _ \<Rightarrow> par_Value p)"

lemma ConcatRevFilters_spec:
  "ConcatRevFilters b =
     Some (if revision_of (bas_Parameters b) = [] then b
           else b\<lparr>bas_Parameters :=
             map (\<lambda>p. if par_Field p = FieldRepo then attach_revision (revision_of (bas_Parameters b)) p else p)
               (filter (\<lambda>p. par_Field p \<noteq> FieldRev) (bas_Parameters b))\<rparr>)"
proof -
  let ?ps = "bas_Parameters b"
  have none: "MapField (toNodes ?ps) FieldRev (\<lambda>_. None) = map Parameter (filter (\<lambda>p. par_Field p \<noteq> FieldRev) ?ps)"
    using MapField_flat [of ?ps FieldRev "\<lambda>_. None"]
    by (simp add: toNodes_def map_filter_def o_def if_distrib cong: if_cong)
  have some: "MapField (map Parameter qs) FieldRepo (\<lambda>p. Some (Parameter (g p))) =
      map Parameter (map (\<lambda>p. if par_Field p = FieldRepo then g p else p) qs)" for g qs
    using MapField_flat [of qs FieldRepo "\<lambda>p. Some (g p)"]
    by (simp add: map_filter_def o_def if_distrib cong: if_cong)
  have rev: "(let revs = VisitField (toNodes ?ps) FieldRev in if revs = [] then [] else par_Value (List.last revs)) =
      revision_of ?ps"
    by (cases "filter (\<lambda>p. par_Field p = FieldRev) ?ps" rule: rev_cases)
       (auto simp: toNodes_def VisitField_flat revision_of_def)
  show ?thesis
    using rev none some by (auto simp: ConcatRevFilters_def Let_def)
qed

end
