(* ===== verification/Go_Strconv.thy ===== *)
theory Go_Strconv
  imports Go_Text
begin

text \<open>
  The functions of Go's \<open>strconv\<close> that the sources use: \<open>ParseInt\<close> in base 10 with a bit
  size, \<open>Atoi\<close> (64-bit), \<open>ParseBool\<close> and \<open>Itoa\<close>. A range error is reported as soon as the
  accumulated magnitude leaves the unsigned range, before later bytes are looked at.

  Shown here: parsing the printed form of an integer in range gives the integer back, what
  is parsed lies in range, and a value accepted at a smaller width is accepted with the same
  result at a larger one.
\<close>

section \<open>Definitions\<close>

datatype num_error = ErrSyntax | ErrRange

definition is_digit :: "char \<Rightarrow> bool" where
  "is_digit c \<longleftrightarrow> 48 \<le> (of_char c :: nat) \<and> (of_char c :: nat) \<le> 57"

definition digit_value :: "char \<Rightarrow> nat" where
  "digit_value c = of_char c - 48"

fun ParseUint_loop :: "nat \<Rightarrow> string \<Rightarrow> nat \<Rightarrow> num_error + nat" where
  "ParseUint_loop maxVal [] n = Inr n"
| "ParseUint_loop maxVal (c # s) n =
     (if \<not> is_digit c then Inl ErrSyntax
      else if n * 10 + digit_value c > maxVal then Inl ErrRange
      else ParseUint_loop maxVal s (n * 10 + digit_value c))"

definition ParseUint :: "string \<Rightarrow> nat \<Rightarrow> num_error + nat" where
  "ParseUint s bitSize = (if s = [] then Inl ErrSyntax else ParseUint_loop (2 ^ bitSize - 1) s 0)"

definition ParseInt :: "string \<Rightarrow> nat \<Rightarrow> num_error + int" where
  "ParseInt s bitSize =
     (if s = [] then Inl ErrSyntax
      else
        let neg = (hd s = CHR ''-'');
            s' = (if hd s = CHR ''+'' \<or> hd s = CHR ''-'' then tl s else s)
        in case ParseUint s' bitSize of
             Inl e \<Rightarrow> Inl e
           | Inr un \<Rightarrow>
               if \<not> neg \<and> un \<ge> 2 ^ (bitSize - 1) then Inl ErrRange
               else if neg \<and> un > 2 ^ (bitSize - 1) then Inl ErrRange
               else Inr (if neg then - int un else int un))"

definition Atoi :: "string \<Rightarrow> num_error + int" where
  "Atoi s = ParseInt s 64"

definition ParseBool :: "string \<Rightarrow> bool option" where
  "ParseBool s =
     (if s \<in> {''1'', ''t'', ''T'', ''true'', ''TRUE'', ''True''} then Some True
      else if s \<in> {''0'', ''f'', ''F'', ''false'', ''FALSE'', ''False''} then Some False
      else None)"

fun nat_digits :: "nat \<Rightarrow> string" where
  "nat_digits n =
     (if n < 10 then [char_of (48 + n)] else nat_digits (n div 10) @ [char_of (48 + n mod 10)])"

declare nat_digits.simps [simp del]

definition Itoa :: "int \<Rightarrow> string" where
  "Itoa i = (if i < 0 then CHR ''-'' # nat_digits (nat (- i)) else nat_digits (nat i))"

section \<open>Bounds\<close>

lemma ParseUint_loop_bound: "ParseUint_loop m s n = Inr r \<Longrightarrow> n \<le> m \<Longrightarrow> r \<le> m"
  by (induction m s n rule: ParseUint_loop.induct) (auto split: if_splits)

lemma ParseUint_bound:
  assumes "ParseUint s b = Inr r"
  shows "r < 2 ^ b"
proof -
  have "r \<le> 2 ^ b - 1"
    using assms ParseUint_loop_bound [of "2 ^ b - 1" s 0 r] by (auto simp: ParseUint_def split: if_splits)
  then show ?thesis by (metis Suc_pred' le_imp_less_Suc zero_less_numeral zero_less_power)
qed

lemma ParseInt_eq_Inr:
  "ParseInt s b = Inr i \<longleftrightarrow>
     (\<exists>un. s \<noteq> [] \<and> ParseUint (if hd s = CHR ''+'' \<or> hd s = CHR ''-'' then tl s else s) b = Inr un \<and>
        (if hd s = CHR ''-'' then un \<le> 2 ^ (b - 1) \<and> i = - int un
         else un < 2 ^ (b - 1) \<and> i = int un))"
proof (cases "ParseUint (if hd s = CHR ''+'' \<or> hd s = CHR ''-'' then tl s else s) b")
  case (Inl e)
  then show ?thesis by (simp add: ParseInt_def Let_def)
next
  case (Inr un)
  then show ?thesis by (cases "hd s = CHR ''-''") (auto simp: ParseInt_def Let_def not_le not_less)
qed

lemma int_le_power: "n \<le> 2 ^ k \<Longrightarrow> int n \<le> 2 ^ k" "n < 2 ^ k \<Longrightarrow> int n < 2 ^ k"
  by (metis of_nat_le_iff of_nat_numeral of_nat_power, metis of_nat_less_iff of_nat_numeral of_nat_power)

lemma ParseInt_bound:
  assumes "ParseInt s b = Inr i"
  shows "- (2 ^ (b - 1)) \<le> i" and "i < 2 ^ (b - 1)"
proof -
  define M :: int where "M = 2 ^ (b - 1)"
  obtain un where "if hd s = CHR ''-'' then un \<le> 2 ^ (b - 1) \<and> i = - int un else un < 2 ^ (b - 1) \<and> i = int un"
    using assms unfolding ParseInt_eq_Inr by blast
  moreover have "0 < M" by (simp add: M_def)
  moreover have "un \<le> 2 ^ (b - 1) \<Longrightarrow> int un \<le> M" "un < 2 ^ (b - 1) \<Longrightarrow> int un < M"
    using int_le_power [of un "b - 1"] by (auto simp: M_def)
  ultimately have "- M \<le> i" "i < M" by (auto split: if_splits)
  then show "- (2 ^ (b - 1)) \<le> i" "i < 2 ^ (b - 1)" by (simp_all add: M_def)
qed

section \<open>Widths\<close>

lemma ParseUint_loop_mono:
  "ParseUint_loop m s n = Inr r \<Longrightarrow> m \<le> m' \<Longrightarrow> ParseUint_loop m' s n = Inr r"
  by (induction m s n rule: ParseUint_loop.induct) (auto split: if_splits)

lemma ParseInt_mono:
  assumes "ParseInt s b = Inr i" and "b \<le> b'"
  shows "ParseInt s b' = Inr i"
proof -
  have p: "(2 :: nat) ^ b - 1 \<le> 2 ^ b' - 1" "(2 :: nat) ^ (b - 1) \<le> 2 ^ (b' - 1)"
    using assms(2) by (simp_all add: power_increasing diff_le_mono)
  have uint: "ParseUint t b' = Inr r" if "ParseUint t b = Inr r" for t r
    using that ParseUint_loop_mono [OF _ p(1)] by (auto simp: ParseUint_def split: if_splits)
  obtain un where un: "s \<noteq> []"
    "ParseUint (if hd s = CHR ''+'' \<or> hd s = CHR ''-'' then tl s else s) b = Inr un"
    "if hd s = CHR ''-'' then un \<le> 2 ^ (b - 1) \<and> i = - int un else un < 2 ^ (b - 1) \<and> i = int un"
    using assms(1) unfolding ParseInt_eq_Inr by blast
  have "if hd s = CHR ''-'' then un \<le> 2 ^ (b' - 1) \<and> i = - int un else un < 2 ^ (b' - 1) \<and> i = int un"
    using un(3) p(2) by (auto split: if_splits intro: order_trans less_le_trans)
  with un(1) uint [OF un(2)] show ?thesis unfolding ParseInt_eq_Inr by blast
qed

section \<open>Round trip\<close>

lemma digit_char:
  assumes "d < 10"
  shows "is_digit (char_of (48 + d))" and "digit_value (char_of (48 + d)) = d"
  using assms by (simp_all add: is_digit_def digit_value_def of_char_of)

lemma nat_digits_nonempty [simp]: "nat_digits n \<noteq> []"
  by (simp add: nat_digits.simps [of n])

lemma ParseUint_loop_append:
  "ParseUint_loop m (s @ t) n =
     (case ParseUint_loop m s n of Inl e \<Rightarrow> Inl e | Inr r \<Rightarrow> ParseUint_loop m t r)"
  by (induction m s n rule: ParseUint_loop.induct) auto

lemma ParseUint_loop_digits: "n \<le> m \<Longrightarrow> ParseUint_loop m (nat_digits n) 0 = Inr n"
proof (induction n rule: nat_digits.induct)
  case (1 n)
  show ?case
  proof (cases "n < 10")
    case True
    with 1 digit_char [of n] show ?thesis by (simp add: nat_digits.simps [of n])
  next
    case False
    have "n mod 10 < 10" by simp
    with False 1 digit_char [of "n mod 10"] show ?thesis
      by (simp add: nat_digits.simps [of n] ParseUint_loop_append)
  qed
qed

lemma nat_digits_head: "is_digit (hd (nat_digits n))"
proof (induction n rule: nat_digits.induct)
  case (1 n)
  then show ?case using digit_char [of n] by (simp add: nat_digits.simps [of n])
qed

lemma ParseInt_Itoa:
  assumes "- (2 ^ (b - 1)) \<le> i" and "i < 2 ^ (b - 1)" and "0 < b"
  shows "ParseInt (Itoa i) b = Inr i"
proof -
  have sign: "c \<noteq> CHR ''-''" "c \<noteq> CHR ''+''" if "is_digit c" for c
    using that by (auto simp: is_digit_def)
  have pow: "(2 :: nat) ^ b = 2 * 2 ^ (b - 1)" using assms(3) by (cases b) auto
  have "ParseUint (nat_digits n) b = Inr n" if "n \<le> 2 ^ (b - 1)" for n
  proof -
    have "n \<le> 2 ^ b - 1" using that pow by simp
    then show ?thesis by (simp add: ParseUint_def ParseUint_loop_digits)
  qed
  note parse = this
  show ?thesis
  proof (cases "i < 0")
    case True
    have le: "nat (- i) \<le> 2 ^ (b - 1)" using assms(1) by (simp add: nat_le_iff)
    have "Itoa i = CHR ''-'' # nat_digits (nat (- i))" using True by (simp add: Itoa_def)
    with True le parse [OF le] show ?thesis by (simp add: ParseInt_eq_Inr)
  next
    case False
    have lt: "nat i < 2 ^ (b - 1)" using assms(2) False by (simp add: nat_less_iff)
    have "Itoa i = nat_digits (nat i)" using False by (simp add: Itoa_def)
    with False lt parse [OF less_imp_le [OF lt]] sign [OF nat_digits_head [of "nat i"]] show ?thesis
      by (simp add: ParseInt_eq_Inr)
  qed
qed

end
