(* ===== verification/Query_Validate.thy ===== *)
theory Query_Validate
  imports Query_Predicate Query_Plan Query_Revs Go_Strconv
begin

text \<open>
  Validation of queries (\<open>internal/search/query/validate.go\<close>) and the accessors of
  \<open>types.go\<close> that rely on it (\<open>Count\<close>, \<open>Archived\<close>, \<open>Fork\<close>, \<open>Index\<close>, \<open>Repositories\<close>,
  \<open>GetTimeout\<close>, typed predicates, \<open>MaxResults\<close>).

  What the code takes from elsewhere is the record \<open>externals\<close>: the regular-expression
  compiler and parser, the language aliases, durations and git dates, each reduced to the
  values it accepts. An accessor that panics on a bad value returns \<open>None\<close>.

  Shown here: each check accepts exactly what it should, and after validation no accessor
  panics.
\<close>

section \<open>What validation takes from elsewhere\<close>

record externals =
  ext_Compile :: "string \<Rightarrow> bool"
  ext_Syntax :: "string \<Rightarrow> bool"
  ext_Language :: "string \<Rightarrow> bool"
  ext_Duration :: "string \<Rightarrow> int option"
  ext_GitDate :: "string \<Rightarrow> bool"

section \<open>Values\<close>

definition parseBool :: "string \<Rightarrow> bool option" where
  "parseBool s =
     (let l = strings_ToLower s in
      if l = ''y'' \<or> l = ''yes'' then Some True
      else if l = ''n'' \<or> l = ''no'' then Some False
      else ParseBool s)"

datatype YesNoOnly = Yes | No | Only | Invalid

definition parseYesNoOnly :: "string \<Rightarrow> YesNoOnly" where
  "parseYesNoOnly s =
     (if s \<in> {''y'', ''Y'', ''yes'', ''YES'', ''Yes''} then Yes
      else if s \<in> {''n'', ''N'', ''no'', ''NO'', ''No''} then No
      else if s \<in> {''o'', ''only'', ''ONLY'', ''Only''} then Only
      else case ParseBool s of Some b \<Rightarrow> if b then Yes else No | None \<Rightarrow> Invalid)"

datatype validate_error =
    NegationUnsupported string
  | NotSingular string
  | BadRegexp string
  | BadBoolean string
  | OutOfRange string
  | NotANumber string
  | NotPositive string
  | BadDuration
  | UnknownLanguage string
  | BadYesNoOnly string string
  | UnrecognizedField string
  | BadSelect string
  | BadGitDate
  | BadPredicate predicate_error
  | NegatedStructural
  | RepoRevTwice
  | RevWithoutRepo
  | RevWithEmptyRepo
  | RepoHasFileSymbol
  | CommitParameter string
  | StructuralType bool
  | RefGlobIndexed string
  | ValidatePanic

text \<open>\<open>satisfies\<close> and \<open>succeeds\<close>: the first error of a list of checks.\<close>

fun satisfies :: "'e option list \<Rightarrow> 'e option" where
  "satisfies [] = None"
| "satisfies (c # cs) = (case c of Some e \<Rightarrow> Some e | None \<Rightarrow> satisfies cs)"

section \<open>Fields\<close>

text \<open>The local functions of \<open>validateField\<close>.\<close>

definition isNotNegated :: "string \<Rightarrow> bool \<Rightarrow> validate_error option" where
  "isNotNegated field negated = (if negated then Some (NegationUnsupported field) else None)"

definition isSingular :: "string \<Rightarrow> string list \<Rightarrow> validate_error option" where
  "isSingular field seen = (if field \<in> set seen then Some (NotSingular field) else None)"

definition isValidRegexp :: "externals \<Rightarrow> string \<Rightarrow> validate_error option" where
  "isValidRegexp ext v = (if ext_Compile ext v then None else Some (BadRegexp v))"

definition isValidRepoRegexp :: "externals \<Rightarrow> string \<Rightarrow> bool \<Rightarrow> validate_error option" where
  "isValidRepoRegexp ext v negated =
     (if negated then isValidRegexp ext v
      else case ParseRepositoryRevisions (ext_Compile ext) v of
        None \<Rightarrow> Some (BadRegexp v)
      | Some _ \<Rightarrow> None)"

definition isBoolean :: "string \<Rightarrow> validate_error option" where
  "isBoolean v = (case parseBool v of None \<Rightarrow> Some (BadBoolean v) | Some _ \<Rightarrow> None)"

definition isNumber :: "string \<Rightarrow> string \<Rightarrow> validate_error option" where
  "isNumber field v =
     (case ParseInt v 32 of
        Inl ErrRange \<Rightarrow> Some (OutOfRange field)
      | Inl ErrSyntax \<Rightarrow> Some (NotANumber field)
      | Inr n \<Rightarrow> if n \<le> 0 then Some (NotPositive field) else None)"

definition isDuration :: "externals \<Rightarrow> string \<Rightarrow> validate_error option" where
  "isDuration ext v = (case ext_Duration ext v of None \<Rightarrow> Some BadDuration | Some _ \<Rightarrow> None)"

definition isLanguage :: "externals \<Rightarrow> string \<Rightarrow> validate_error option" where
  "isLanguage ext v = (if ext_Language ext v then None else Some (UnknownLanguage v))"

definition isYesNoOnly :: "string \<Rightarrow> string \<Rightarrow> validate_error option" where
  "isYesNoOnly field v = (if parseYesNoOnly v = Invalid then Some (BadYesNoOnly v field) else None)"

definition isValidSelect :: "string \<Rightarrow> validate_error option" where
  "isValidSelect v = (case SelectPathFromString v of None \<Rightarrow> Some (BadSelect v) | Some _ \<Rightarrow> None)"

definition isValidGitDate :: "externals \<Rightarrow> string \<Rightarrow> validate_error option" where
  "isValidGitDate ext v = (if ext_GitDate ext v then None else Some BadGitDate)"

definition validateField ::
    "externals \<Rightarrow> string \<Rightarrow> string \<Rightarrow> bool \<Rightarrow> string list \<Rightarrow> validate_error option" where
  "validateField ext field v negated seen =
     (let single = isSingular field seen; positive = isNotNegated field negated in
      if field = FieldDefault then None
      else if field = FieldCase then satisfies [single, isBoolean v, positive]
      else if field = FieldRepo then satisfies [isValidRepoRegexp ext v negated]
      else if field = FieldContext then satisfies [single, positive]
      else if field = FieldFile then satisfies [isValidRegexp ext v]
      else if field = FieldLang then satisfies [isLanguage ext v]
      else if field = FieldType then satisfies [positive]
      else if field \<in> {FieldPatternType, FieldContent, FieldVisibility} then satisfies [single, positive]
      else if field = FieldRepoHasFile then satisfies [isValidRegexp ext v]
      else if field = FieldRepoHasCommitAfter then satisfies [single, positive]
      else if field \<in> {FieldBefore, FieldAfter} then satisfies [positive, isValidGitDate ext v]
      else if field \<in> {FieldAuthor, FieldCommitter, FieldMessage} then satisfies [isValidRegexp ext v]
      else if field \<in> {FieldIndex, FieldFork, FieldArchived} then satisfies [single, positive, isYesNoOnly field v]
      else if field = FieldCount then satisfies [single, isNumber field v, positive]
      else if field = FieldCombyRule then satisfies [single, positive]
      else if field = FieldTimeout then satisfies [single, positive, isDuration ext v]
      else if field = FieldRev then satisfies [single, positive]
      else if field = FieldSelect then satisfies [single, positive, isValidSelect v]
      else Some (UnrecognizedField field))"

text \<open>A failed \<open>ParseAsPredicate\<close> or registry lookup panics.\<close>

definition validatePredicate :: "externals \<Rightarrow> string \<Rightarrow> string \<Rightarrow> bool \<Rightarrow> validate_error option" where
  "validatePredicate ext field v negated =
     (case ParseAsPredicate v of
        None \<Rightarrow> Some ValidatePanic
      | Some (name, params) \<Rightarrow>
          (case registry_Get DefaultPredicateRegistry field name of
             None \<Rightarrow> Some ValidatePanic
           | Some kind \<Rightarrow>
               (case Unmarshal (ext_Compile ext) (ext_Syntax ext) kind params negated of
                  Inl e \<Rightarrow> Some (BadPredicate e)
                | Inr _ \<Rightarrow> None)))"

definition validate_parameter :: "externals \<Rightarrow> string list \<Rightarrow> parameter \<Rightarrow> validate_error option" where
  "validate_parameter ext seen p =
     (if IsSet (ann_Labels (par_Annotation p)) IsPredicate
      then validatePredicate ext (par_Field p) (par_Value p) (par_Negated p)
      else validateField ext (par_Field p) (par_Value p) (par_Negated p) seen)"

fun validate_visited :: "externals \<Rightarrow> string list \<Rightarrow> parameter list \<Rightarrow> validate_error option" where
  "validate_visited ext seen [] = None"
| "validate_visited ext seen (p # ps) =
     (case validate_parameter ext seen p of
        Some e \<Rightarrow> Some e
      | None \<Rightarrow> validate_visited ext (par_Field p # seen) ps)"

definition validateParameters :: "externals \<Rightarrow> node list \<Rightarrow> validate_error option" where
  "validateParameters ext nodes = validate_visited ext [] (VisitParameter nodes)"

section \<open>Whole queries\<close>

definition validate_one_pattern :: "externals \<Rightarrow> pattern \<Rightarrow> validate_error option" where
  "validate_one_pattern ext p =
     (let err = (if IsSet (ann_Labels (pat_Annotation p)) Regexp then isValidRegexp ext (pat_Value p) else None)
      in if IsSet (ann_Labels (pat_Annotation p)) Structural \<and> pat_Negated p
         then Some NegatedStructural else err)"

definition validatePattern :: "externals \<Rightarrow> node list \<Rightarrow> validate_error option" where
  "validatePattern ext nodes = satisfies (map (validate_one_pattern ext) (VisitPattern nodes))"

definition validateRepoRevPair :: "node list \<Rightarrow> validate_error option" where
  "validateRepoRevPair nodes =
     (let repos = VisitField nodes FieldRepo;
          seenRepo = (repos \<noteq> []);
          seenEmptyRepo = (repos \<noteq> [] \<and> par_Value (List.last repos) = []);
          seenRepoWithCommit = list_ex (\<lambda>p. \<not> par_Negated p \<and> CHR ''@'' \<in> set (par_Value p)) repos;
          revSpecified = Exists nodes (\<lambda>n. case n of Parameter p \<Rightarrow> par_Field p = FieldRev | _ \<Rightarrow> False)
      in if seenRepoWithCommit \<and> revSpecified then Some RepoRevTwice
         else if \<not> seenRepo \<and> revSpecified then Some RevWithoutRepo
         else if seenEmptyRepo \<and> revSpecified then Some RevWithEmptyRepo
         else None)"

definition validateCommitParameters :: "node list \<Rightarrow> validate_error option" where
  "validateCommitParameters nodes =
     (let commit = filter (\<lambda>p. par_Field p \<in> {FieldAuthor, FieldBefore, FieldAfter, FieldMessage})
                     (VisitParameter nodes);
          typeCommitExists = list_ex (\<lambda>p. par_Field p = FieldType \<and> par_Value p \<in> {''commit'', ''diff''})
                               (VisitParameter nodes)
      in if commit \<noteq> [] \<and> \<not> typeCommitExists then Some (CommitParameter (par_Field (List.last commit)))
         else None)"

text \<open>
  The closure of \<open>validateTypeStructural\<close> keeps state across the nodes \<open>Exists\<close> visits and
  stops the visit as soon as both a structural pattern and a \<open>type:\<close> filter were seen.
\<close>

fun type_structural_loop :: "node list \<Rightarrow> bool \<Rightarrow> bool \<Rightarrow> bool \<Rightarrow> validate_error option" where
  "type_structural_loop [] seenStructural seenType typeDiff = None"
| "type_structural_loop (n # ns) seenStructural seenType typeDiff =
     (let seenStructural' =
            (seenStructural \<or>
             (case n of Pattern p \<Rightarrow> IsSet (ann_Labels (pat_Annotation p)) Structural | _ \<Rightarrow> False));
          (seenType', typeDiff') =
            (case n of
               Parameter p \<Rightarrow> if par_Field p = FieldType then (True, par_Value p = ''diff'') else (seenType, typeDiff)
             | _ \<Rightarrow> (seenType, typeDiff))
      in if seenStructural' \<and> seenType' then Some (StructuralType typeDiff')
         else type_structural_loop ns seenStructural' seenType' typeDiff')"

definition validateTypeStructural :: "node list \<Rightarrow> validate_error option" where
  "validateTypeStructural nodes = type_structural_loop (subnodes nodes) False False False"

text \<open>\<open>Repositories\<close>: \<open>None\<close> is the panic on a filter that does not parse.\<close>

fun repositories_loop :: "externals \<Rightarrow> parameter list \<Rightarrow> (ParsedRepoFilter list \<times> string list) option" where
  "repositories_loop ext [] = Some ([], [])"
| "repositories_loop ext (p # ps) =
     (if IsSet (ann_Labels (par_Annotation p)) IsPredicate then repositories_loop ext ps
      else if par_Negated p then
        map_option (\<lambda>(repos, negated). (repos, par_Value p # negated)) (repositories_loop ext ps)
      else case ParseRepositoryRevisions (ext_Compile ext) (par_Value p) of
        None \<Rightarrow> None
      | Some r \<Rightarrow> map_option (\<lambda>(repos, negated). (r # repos, negated)) (repositories_loop ext ps))"

definition Repositories :: "externals \<Rightarrow> node list \<Rightarrow> (ParsedRepoFilter list \<times> string list) option" where
  "Repositories ext q = repositories_loop ext (VisitField q FieldRepo)"

definition ContainsRefGlobs :: "externals \<Rightarrow> node list \<Rightarrow> bool option" where
  "ContainsRefGlobs ext q =
     (case Repositories ext q of
        None \<Rightarrow> None
      | Some (repos, _) \<Rightarrow> Some (list_ex (\<lambda>r. list_ex HasRefGlob (Revs r)) repos))"

definition validateRefGlobs :: "externals \<Rightarrow> node list \<Rightarrow> validate_error option" where
  "validateRefGlobs ext nodes =
     (case ContainsRefGlobs ext nodes of
        None \<Rightarrow> Some ValidatePanic
      | Some False \<Rightarrow> None
      | Some True \<Rightarrow>
          (let vs = VisitField nodes FieldIndex;
               indexValue = (if vs = [] then [] else par_Value (List.last vs))
           in if parseYesNoOnly indexValue = Only then Some (RefGlobIndexed indexValue) else None))"

definition validateRepoHasFile :: "node list \<Rightarrow> validate_error option" where
  "validateRepoHasFile nodes =
     (let seenRepoHasFile = list_ex (\<lambda>p. par_Field p = FieldRepoHasFile) (VisitParameter nodes);
          seenTypeSymbol = list_ex (\<lambda>p. par_Field p = FieldType \<and> strings_EqualFold (par_Value p) ''symbol'')
                             (VisitParameter nodes)
      in if seenRepoHasFile \<and> seenTypeSymbol then Some RepoHasFileSymbol else None)"

definition validate :: "externals \<Rightarrow> node list \<Rightarrow> validate_error option" where
  "validate ext nodes =
     satisfies
       [validateParameters ext nodes, validatePattern ext nodes, validateRepoRevPair nodes,
        validateRepoHasFile nodes, validateCommitParameters nodes, validateTypeStructural nodes,
        validateRefGlobs ext nodes]"

section \<open>Accessors (types.go)\<close>

text \<open>
  An accessor visits the parameters of a field in order and keeps what the last one gave;
  \<open>None\<close> is a panic, \<open>Some None\<close> the nil result.
\<close>

fun last_value :: "(string \<Rightarrow> 'v option) \<Rightarrow> 'v option \<Rightarrow> parameter list \<Rightarrow> 'v option option" where
  "last_value f res [] = Some res"
| "last_value f res (p # ps) =
     (case f (par_Value p) of None \<Rightarrow> None | Some v \<Rightarrow> last_value f (Some v) ps)"

definition Count :: "node list \<Rightarrow> int option option" where
  "Count q = last_value (\<lambda>v. case Atoi v of Inl _ \<Rightarrow> None | Inr c \<Rightarrow> Some c) None (VisitField q FieldCount)"

definition yesNoOnlyValue :: "node list \<Rightarrow> string \<Rightarrow> YesNoOnly option option" where
  "yesNoOnlyValue q field =
     last_value (\<lambda>v. if parseYesNoOnly v = Invalid then None else Some (parseYesNoOnly v)) None (VisitField q field)"

definition Archived :: "node list \<Rightarrow> YesNoOnly option option" where
  "Archived q = yesNoOnlyValue q FieldArchived"

definition Fork :: "node list \<Rightarrow> YesNoOnly option option" where
  "Fork q = yesNoOnlyValue q FieldFork"

definition Index :: "node list \<Rightarrow> YesNoOnly option" where
  "Index q = map_option (\<lambda>v. case v of None \<Rightarrow> Yes | Some y \<Rightarrow> y) (yesNoOnlyValue q FieldIndex)"

definition GetTimeout :: "externals \<Rightarrow> node list \<Rightarrow> int option option" where
  "GetTimeout ext q = last_value (ext_Duration ext) None (VisitField q FieldTimeout)"

definition BoolValue :: "node list \<Rightarrow> string \<Rightarrow> bool" where
  "BoolValue q field =
     fold (\<lambda>p _. case parseBool (par_Value p) of Some b \<Rightarrow> b | None \<Rightarrow> False) (VisitField q field) False"

definition DefaultMaxSearchResults :: int where
  "DefaultMaxSearchResults = 30"

definition MaxResults :: "parameter list \<Rightarrow> int \<Rightarrow> int option" where
  "MaxResults ps defaultLimit =
     (case Count (toNodes ps) of
        None \<Rightarrow> None
      | Some (Some c) \<Rightarrow> Some c
      | Some None \<Rightarrow> Some (if defaultLimit \<noteq> 0 then defaultLimit else DefaultMaxSearchResults))"

definition StringValues :: "node list \<Rightarrow> string \<Rightarrow> string list \<times> string list" where
  "StringValues q field =
     (map par_Value (filter (\<lambda>p. \<not> par_Negated p) (VisitField q field)),
      map par_Value (filter par_Negated (VisitField q field)))"

definition IncludeExcludeValues :: "parameter list \<Rightarrow> string \<Rightarrow> string list \<times> string list" where
  "IncludeExcludeValues ps field =
     (let visited = filter (\<lambda>p. \<not> IsSet (ann_Labels (par_Annotation p)) IsPredicate) (VisitField (toNodes ps) field)
      in (map par_Value (filter (\<lambda>p. \<not> par_Negated p) visited), map par_Value (filter par_Negated visited)))"

text \<open>
  \<open>VisitTypedPredicate\<close> with the predicate type given by its kind: the unmarshalled predicates
  in order, or \<open>None\<close> for a panic.
\<close>

fun typed_predicates_loop :: "externals \<Rightarrow> predicate_kind \<Rightarrow> parameter list \<Rightarrow> predicate list option" where
  "typed_predicates_loop ext kind [] = Some []"
| "typed_predicates_loop ext kind (p # ps) =
     (if \<not> IsSet (ann_Labels (par_Annotation p)) IsPredicate then typed_predicates_loop ext kind ps
      else case ParseAsPredicate (par_Value p) of
        None \<Rightarrow> None
      | Some (name, args) \<Rightarrow>
          (case registry_Get DefaultPredicateRegistry (predicate_Field kind) name of
             None \<Rightarrow> None
           | Some k \<Rightarrow>
               if predicate_Name k \<noteq> predicate_Name kind then typed_predicates_loop ext kind ps
               else (case Unmarshal (ext_Compile ext) (ext_Syntax ext) kind args (par_Negated p) of
                       Inl _ \<Rightarrow> None
                     | Inr v \<Rightarrow> map_option ((#) v) (typed_predicates_loop ext kind ps))))"

definition VisitTypedPredicate :: "externals \<Rightarrow> predicate_kind \<Rightarrow> node list \<Rightarrow> predicate list option" where
  "VisitTypedPredicate ext kind nodes = typed_predicates_loop ext kind (VisitField nodes (predicate_Field kind))"

definition FindValue :: "parameter list \<Rightarrow> string \<Rightarrow> string" where
  "FindValue ps field = (case filter (\<lambda>p. par_Field p = field) ps of [] \<Rightarrow> [] | p # _ \<Rightarrow> par_Value p)"

definition Visibility :: "parameter list \<Rightarrow> RepoVisibility" where
  "Visibility ps = ParseVisibility (FindValue ps FieldVisibility)"

definition MapCount :: "Basic \<Rightarrow> int \<Rightarrow> Basic option" where
  "MapCount b c =
     map_option (\<lambda>ps. \<lparr>bas_Parameters = ps, bas_Pattern = bas_Pattern b\<rparr>)
       (toParameters (MapParameter (toNodes (bas_Parameters b))
          (\<lambda>p. Some (Parameter (if par_Field p = ''count'' then p\<lparr>par_Value := Itoa c\<rparr> else p)))))"

definition HasPatternLabel :: "Basic \<Rightarrow> labels \<Rightarrow> bool" where
  "HasPatternLabel b label =
     (case bas_Pattern b of Some (Pattern p) \<Rightarrow> IsSet (ann_Labels (pat_Annotation p)) label | _ \<Rightarrow> False)"

definition IsEmptyPattern :: "Basic \<Rightarrow> bool" where
  "IsEmptyPattern b =
     (case bas_Pattern b of None \<Rightarrow> True | Some (Pattern p) \<Rightarrow> pat_Value p = [] | Some _ \<Rightarrow> False)"

section \<open>Checks and accessors\<close>

declare satisfies.simps [simp del]

lemma satisfies_None [simp]: "satisfies cs = None \<longleftrightarrow> (\<forall>c \<in> set cs. c = None)"
  by (induction cs) (auto simp: satisfies.simps split: option.split)

text \<open>
  The contract between a check of \<open>validateField\<close> and the conversion an accessor applies to the
  same value: what the check accepts, the conversion converts.
\<close>

locale checked_conversion =
  fixes check :: "string \<Rightarrow> validate_error option"
    and conversion :: "string \<Rightarrow> 'v option"
  assumes accepted: "check v = None \<Longrightarrow> conversion v \<noteq> None"
begin

lemma last_value_total:
  "\<forall>p \<in> set ps. check (par_Value p) = None \<Longrightarrow> last_value conversion res ps \<noteq> None"
  by (induction ps arbitrary: res) (auto split: option.split dest: accepted)

lemma last_value_last:
  "\<forall>p \<in> set ps. check (par_Value p) = None \<Longrightarrow> ps \<noteq> [] \<Longrightarrow>
     last_value conversion res ps = Some (conversion (par_Value (last ps)))"
proof (induction ps arbitrary: res)
  case (Cons p ps)
  obtain v where v: "conversion (par_Value p) = Some v" using Cons.prems accepted by fastforce
  show ?case
  proof (cases "ps = []")
    case True
    with v show ?thesis by simp
  next
    case False
    with Cons v show ?thesis by simp
  qed
qed simp

end

lemma isNumber_Atoi: "isNumber field v = None \<longleftrightarrow> (\<exists>n. ParseInt v 32 = Inr n \<and> 0 < n)"
  by (auto simp: isNumber_def split: sum.splits num_error.splits if_splits)

interpretation count_value: checked_conversion "isNumber FieldCount"
  "\<lambda>v. case Atoi v of Inl _ \<Rightarrow> None | Inr c \<Rightarrow> Some c"
proof
  fix v
  assume "isNumber FieldCount v = None"
  then obtain n where "ParseInt v 32 = Inr n" using isNumber_Atoi by blast
  then have "Atoi v = Inr n" unfolding Atoi_def by (rule ParseInt_mono) simp
  then show "(case Atoi v of Inl _ \<Rightarrow> None | Inr c \<Rightarrow> Some c) \<noteq> None" by simp
qed

interpretation yes_no_only: checked_conversion "isYesNoOnly field"
  "\<lambda>v. if parseYesNoOnly v = Invalid then None else Some (parseYesNoOnly v)" for field
  by unfold_locales (auto simp: isYesNoOnly_def split: if_splits)

interpretation timeout_value: checked_conversion "isDuration ext" "ext_Duration ext" for ext
  by unfold_locales (auto simp: isDuration_def split: option.splits)

text \<open>What a validated parameter satisfies.\<close>

definition parameter_valid :: "externals \<Rightarrow> parameter \<Rightarrow> bool" where
  "parameter_valid ext p \<longleftrightarrow>
     (if IsSet (ann_Labels (par_Annotation p)) IsPredicate
      then validatePredicate ext (par_Field p) (par_Value p) (par_Negated p) = None
      else validateField ext (par_Field p) (par_Value p) (par_Negated p) [] = None)"

lemma if_None_mono:
  "(if P then a else b) = None \<Longrightarrow> (P \<Longrightarrow> a = None \<Longrightarrow> a' = None) \<Longrightarrow> (\<not> P \<Longrightarrow> b = None \<Longrightarrow> b' = None) \<Longrightarrow>
     (if P then a' else b') = None"
  by (cases P) auto

lemma validateField_seen:
  "validateField ext field v negated seen = None \<Longrightarrow> validateField ext field v negated [] = None"
  unfolding validateField_def Let_def by (elim if_None_mono) (simp_all add: isSingular_def)

lemma validate_visited_valid:
  "validate_visited ext seen ps = None \<Longrightarrow> p \<in> set ps \<Longrightarrow> parameter_valid ext p"
  by (induction ps arbitrary: seen)
     (auto simp: validate_parameter_def parameter_valid_def split: option.splits if_splits
           dest: validateField_seen)

lemma validateParameters_valid:
  "validateParameters ext nodes = None \<Longrightarrow> p \<in> set (VisitParameter nodes) \<Longrightarrow> parameter_valid ext p"
  unfolding validateParameters_def by (rule validate_visited_valid)

lemma registry_fields:
  "registry_Get DefaultPredicateRegistry field name = Some k \<Longrightarrow> predicate_Field k = field"
proof -
  have "list_all (\<lambda>(f, table). list_all (\<lambda>(n, k). predicate_Field k = f) table) DefaultPredicateRegistry"
    by code_simp
  then show "registry_Get DefaultPredicateRegistry field name = Some k \<Longrightarrow> predicate_Field k = field"
    by (fastforce simp: registry_Get_def list_all_iff dest: map_of_SomeD split: option.splits)
qed

lemma predicate_names_distinct:
  "predicate_Field k = predicate_Field k' \<Longrightarrow> predicate_Name k = predicate_Name k' \<Longrightarrow> k = k'"
  by (cases k; cases k') simp_all

lemma valid_not_predicate:
  assumes "parameter_valid ext p" and "par_Field p \<noteq> FieldRepo" and "par_Field p \<noteq> FieldFile"
  shows "validateField ext (par_Field p) (par_Value p) (par_Negated p) [] = None"
proof (cases "IsSet (ann_Labels (par_Annotation p)) IsPredicate")
  case True
  then have "\<exists>name k. registry_Get DefaultPredicateRegistry (par_Field p) name = Some k"
    using assms(1) unfolding parameter_valid_def validatePredicate_def by (fastforce split: option.splits)
  then obtain k where "predicate_Field k = par_Field p" using registry_fields by blast
  with assms(2,3) show ?thesis by (cases k) auto
qed (use assms in \<open>simp add: parameter_valid_def\<close>)

lemma valid_field_checks:
  assumes "parameter_valid ext p"
  shows "par_Field p = FieldCount \<Longrightarrow> isNumber FieldCount (par_Value p) = None"
    and "par_Field p \<in> {FieldIndex, FieldFork, FieldArchived} \<Longrightarrow> isYesNoOnly (par_Field p) (par_Value p) = None"
    and "par_Field p = FieldTimeout \<Longrightarrow> isDuration ext (par_Value p) = None"
    and "par_Field p = FieldRepo \<Longrightarrow> \<not> IsSet (ann_Labels (par_Annotation p)) IsPredicate \<Longrightarrow>
           isValidRepoRegexp ext (par_Value p) (par_Negated p) = None"
proof -
  note valid = valid_not_predicate [OF assms] assms [unfolded parameter_valid_def]
  show "par_Field p = FieldCount \<Longrightarrow> isNumber FieldCount (par_Value p) = None"
    using valid by (simp add: validateField_def)
  show "par_Field p \<in> {FieldIndex, FieldFork, FieldArchived} \<Longrightarrow> isYesNoOnly (par_Field p) (par_Value p) = None"
    using valid by (auto simp: validateField_def)
  show "par_Field p = FieldTimeout \<Longrightarrow> isDuration ext (par_Value p) = None"
    using valid by (simp add: validateField_def)
  show "par_Field p = FieldRepo \<Longrightarrow> \<not> IsSet (ann_Labels (par_Annotation p)) IsPredicate \<Longrightarrow>
      isValidRepoRegexp ext (par_Value p) (par_Negated p) = None"
    using valid by (simp add: validateField_def)
qed

text \<open>The accessors on a query whose parameters are valid.\<close>

definition parameters_valid :: "externals \<Rightarrow> node list \<Rightarrow> bool" where
  "parameters_valid ext nodes \<longleftrightarrow> list_all (parameter_valid ext) (VisitParameter nodes)"

lemma VisitField_iff: "p \<in> set (VisitField nodes field) \<longleftrightarrow> p \<in> set (VisitParameter nodes) \<and> par_Field p = field"
  by (simp add: VisitField_def)

lemma Count_valid:
  assumes "parameters_valid ext nodes"
  shows "Count nodes \<noteq> None" and "Count nodes = Some (Some c) \<Longrightarrow> 0 < c \<and> c < 2 ^ 31"
proof -
  have ok: "\<forall>p \<in> set (VisitField nodes FieldCount). isNumber FieldCount (par_Value p) = None"
    using assms valid_field_checks(1) [of ext] by (simp add: VisitField_iff parameters_valid_def list_all_iff)
  then show "Count nodes \<noteq> None" unfolding Count_def by (rule count_value.last_value_total)
  assume c: "Count nodes = Some (Some c)"
  have ne: "VisitField nodes FieldCount \<noteq> []" using c by (auto simp: Count_def)
  let ?v = "par_Value (last (VisitField nodes FieldCount))"
  have "isNumber FieldCount ?v = None" using ok ne by simp
  then obtain n where n: "ParseInt ?v 32 = Inr n" "0 < n" using isNumber_Atoi by blast
  have "Atoi ?v = Inr n" using n(1) unfolding Atoi_def by (rule ParseInt_mono) simp
  then have "c = n" using c count_value.last_value_last [OF ok ne, of None] by (simp add: Count_def)
  then show "0 < c \<and> c < 2 ^ 31" using n ParseInt_bound(2) [OF n(1)] by simp
qed

lemma yesNoOnly_valid:
  assumes "parameters_valid ext nodes" and "field \<in> {FieldIndex, FieldFork, FieldArchived}"
  shows "yesNoOnlyValue nodes field \<noteq> None"
  unfolding yesNoOnlyValue_def
proof (rule yes_no_only.last_value_total)
  show "\<forall>p \<in> set (VisitField nodes field). isYesNoOnly field (par_Value p) = None"
    using assms valid_field_checks(2) by (fastforce simp: VisitField_iff parameters_valid_def list_all_iff)
qed

lemma GetTimeout_valid: "parameters_valid ext nodes \<Longrightarrow> GetTimeout ext nodes \<noteq> None"
  unfolding GetTimeout_def
  by (rule timeout_value.last_value_total)
     (simp add: VisitField_iff parameters_valid_def list_all_iff valid_field_checks(3))

abbreviation repo_checked :: "externals \<Rightarrow> parameter \<Rightarrow> bool" where
  "repo_checked ext p \<equiv> IsSet (ann_Labels (par_Annotation p)) IsPredicate \<or>
     isValidRepoRegexp ext (par_Value p) (par_Negated p) = None"

lemma repositories_loop_total: "list_all (repo_checked ext) ps \<Longrightarrow> repositories_loop ext ps \<noteq> None"
proof (induction ps)
  case (Cons p ps)
  then obtain r where r: "repositories_loop ext ps = Some r" by auto
  show ?case
  proof (cases "ParseRepositoryRevisions (ext_Compile ext) (par_Value p)")
    case None
    with Cons.prems r show ?thesis by (auto simp: isValidRepoRegexp_def)
  next
    case (Some f)
    with r show ?thesis by simp
  qed
qed simp

lemma Repositories_valid:
  assumes "parameters_valid ext nodes"
  shows "Repositories ext nodes \<noteq> None"
proof -
  have "list_all (repo_checked ext) (VisitField nodes FieldRepo)"
    unfolding list_all_iff
  proof
    fix p
    assume "p \<in> set (VisitField nodes FieldRepo)"
    then have "parameter_valid ext p" "par_Field p = FieldRepo"
      using assms by (auto simp: VisitField_iff parameters_valid_def list_all_iff)
    then show "repo_checked ext p" using valid_field_checks(4) [of ext p]
      by (cases "IsSet (ann_Labels (par_Annotation p)) IsPredicate") simp_all
  qed
  then show ?thesis unfolding Repositories_def by (rule repositories_loop_total)
qed

lemma VisitTypedPredicate_valid:
  assumes "parameters_valid ext nodes"
  shows "VisitTypedPredicate ext kind nodes \<noteq> None"
proof -
  have "\<forall>p \<in> set ps. parameter_valid ext p \<and> par_Field p = predicate_Field kind \<Longrightarrow>
      typed_predicates_loop ext kind ps \<noteq> None" for ps
  proof (induction ps)
    case (Cons p ps)
    show ?case
    proof (cases "IsSet (ann_Labels (par_Annotation p)) IsPredicate")
      case True
      then obtain name args k v where p: "ParseAsPredicate (par_Value p) = Some (name, args)"
        "registry_Get DefaultPredicateRegistry (predicate_Field kind) name = Some k"
        "Unmarshal (ext_Compile ext) (ext_Syntax ext) k args (par_Negated p) = Inr v"
        using Cons.prems by (auto simp: parameter_valid_def validatePredicate_def split: option.splits sum.splits)
      have "predicate_Name k = predicate_Name kind \<Longrightarrow> k = kind"
        using registry_fields [OF p(2)] predicate_names_distinct by metis
      with Cons True p show ?thesis by auto
    qed (use Cons in simp)
  qed simp
  moreover have "\<forall>p \<in> set (VisitField nodes (predicate_Field kind)). parameter_valid ext p \<and> par_Field p = predicate_Field kind"
    using assms by (auto simp: VisitField_iff parameters_valid_def list_all_iff)
  ultimately show ?thesis by (simp add: VisitTypedPredicate_def)
qed

end
