(* ===== verification/Query_Pipeline.thy ===== *)
theory Query_Pipeline
  imports Query_Validate
begin

text \<open>
  Query processing as a sequence of steps (\<open>internal/search/query/query.go\<close>): \<open>Sequence\<close>,
  \<open>succeeds\<close>, \<open>With\<close>, \<open>For\<close>, \<open>Init\<close>, \<open>Run\<close>, \<open>SubstituteSearchContexts\<close>, \<open>ValidatePlan\<close>,
  \<open>MapPlan\<close> and \<open>Pipeline\<close>.

  Shown here: steps compose as a monoid; what \<open>Init\<close> produces has canonical field names, no
  concatenation and only predicates the registry knows, so that validation cannot panic on
  it; and no accessor panics on a basic query of the plan that \<open>Pipeline\<close> returns.
\<close>

section \<open>Steps\<close>

datatype pipeline_error =
    ParseFailed query_error
  | Invalid_query validate_error
  | LookupFailed string
  | ContextFailed "pipeline_error list"
  | PipelinePanic

type_synonym step = "node list \<Rightarrow> pipeline_error + node list"

fun Sequence :: "step list \<Rightarrow> step" where
  "Sequence [] nodes = Inr nodes"
| "Sequence (s # ss) nodes = (case s nodes of Inl e \<Rightarrow> Inl e | Inr nodes' \<Rightarrow> Sequence ss nodes')"

definition succeeds :: "(node list \<Rightarrow> node list) list \<Rightarrow> step" where
  "succeeds passes nodes = Inr (fold (\<lambda>p ns. p ns) passes nodes)"

definition identity :: step where
  "identity nodes = Inr nodes"

definition With :: "bool \<Rightarrow> step \<Rightarrow> step" where
  "With enabled s = (if \<not> enabled then identity else s)"

definition normalize :: "SearchType \<Rightarrow> step" where
  "normalize t = succeeds [LowercaseFieldNames, SubstituteAliases t, SubstituteCountAll]"

definition processType :: "(string \<Rightarrow> string) \<Rightarrow> SearchType \<Rightarrow> step" where
  "processType QuoteMeta t =
     (case t of
        SearchTypeStandard \<Rightarrow> succeeds [substituteConcat standard]
      | SearchTypeLucky \<Rightarrow> succeeds [substituteConcat standard]
      | SearchTypeKeyword \<Rightarrow> succeeds [substituteConcat standard]
      | SearchTypeLiteral \<Rightarrow> succeeds [substituteConcat (\<lambda>ps. [Pattern (space ps)])]
      | SearchTypeRegex \<Rightarrow> succeeds [escapeParensHeuristic, substituteConcat (fuzzyRegexp QuoteMeta)]
      | SearchTypeStructural \<Rightarrow>
          succeeds [labelStructural, ellipsesForHoles, substituteConcat (\<lambda>ps. [Pattern (space ps)])])"

definition For_step :: "(string \<Rightarrow> string) \<Rightarrow> SearchType \<Rightarrow> step" where
  "For_step QuoteMeta t = Sequence [normalize t, processType QuoteMeta t]"

definition Init :: "(string \<Rightarrow> string) \<Rightarrow> string \<Rightarrow> SearchType \<Rightarrow> step" where
  "Init QuoteMeta buf t =
     Sequence
       [\<lambda>_. case Parse buf t of Inl e \<Rightarrow> Inl (ParseFailed e) | Inr nodes \<Rightarrow> Inr nodes,
        For_step QuoteMeta t]"

definition Run :: "step \<Rightarrow> pipeline_error + node list" where
  "Run s = s []"

definition ParseSearchType :: "(string \<Rightarrow> string) \<Rightarrow> string \<Rightarrow> SearchType \<Rightarrow> pipeline_error + node list" where
  "ParseSearchType QuoteMeta buf t = Run (Init QuoteMeta buf t)"

definition ParseRegexp :: "(string \<Rightarrow> string) \<Rightarrow> string \<Rightarrow> pipeline_error + node list" where
  "ParseRegexp QuoteMeta buf = ParseSearchType QuoteMeta buf SearchTypeRegex"

text \<open>
  \<open>SubstituteSearchContexts\<close>: \<open>lookupQueryString\<close> is the caller's function from a context value
  to its query string (\<open>Inl\<close> an error). The errors of all contexts are collected.
\<close>

definition context_node ::
    "(string \<Rightarrow> string) \<Rightarrow> (string \<Rightarrow> string + string) \<Rightarrow> parameter \<Rightarrow> pipeline_error + node" where
  "context_node QuoteMeta lookupQueryString p =
     (case lookupQueryString (par_Value p) of
        Inl e \<Rightarrow> Inl (LookupFailed e)
      | Inr queryString \<Rightarrow>
          if queryString = [] then Inr (Parameter (p\<lparr>par_Field := FieldContext\<rparr>))
          else case ParseRegexp QuoteMeta queryString of
            Inl e \<Rightarrow> Inl e
          | Inr query \<Rightarrow> Inr (Operator And query zero_annotation))"

definition SubstituteSearchContexts ::
    "(string \<Rightarrow> string) \<Rightarrow> (string \<Rightarrow> string + string) \<Rightarrow> step" where
  "SubstituteSearchContexts QuoteMeta lookupQueryString nodes =
     (let replace = context_node QuoteMeta lookupQueryString;
          errs = concat (map (\<lambda>p. case replace p of Inl e \<Rightarrow> [e] | Inr _ \<Rightarrow> []) (VisitField nodes FieldContext));
          substitutedContext = MapField nodes FieldContext
            (\<lambda>p. case replace p of Inl _ \<Rightarrow> None | Inr n \<Rightarrow> Some n)
      in if errs \<noteq> [] then Inl (ContextFailed errs) else Inr substitutedContext)"

section \<open>Plans\<close>

fun ValidatePlan :: "externals \<Rightarrow> Plan \<Rightarrow> validate_error option" where
  "ValidatePlan ext [] = None"
| "ValidatePlan ext (basic # plan) =
     (case validate ext (ToParseTree basic) of Some e \<Rightarrow> Some e | None \<Rightarrow> ValidatePlan ext plan)"

text \<open>\<open>MapPlan\<close> with a pass that may panic.\<close>

fun MapPlan :: "Plan \<Rightarrow> (Basic \<Rightarrow> Basic option) \<Rightarrow> Plan option" where
  "MapPlan [] pass = Some []"
| "MapPlan (query # plan) pass =
     (case pass query of
        None \<Rightarrow> None
      | Some q \<Rightarrow> map_option ((#) q) (MapPlan plan pass))"

definition Pipeline :: "externals \<Rightarrow> step list \<Rightarrow> pipeline_error + Plan" where
  "Pipeline ext steps =
     (case Sequence steps [] of
        Inl e \<Rightarrow> Inl e
      | Inr nodes \<Rightarrow>
          let plan = BuildPlan nodes in
          (case ValidatePlan ext plan of
             Some e \<Rightarrow> Inl (Invalid_query e)
           | None \<Rightarrow>
               (case MapPlan plan ConcatRevFilters of
                  None \<Rightarrow> Inl PipelinePanic
                | Some plan' \<Rightarrow> Inr plan')))"

section \<open>Passes over patterns\<close>

text \<open>The contract of the passes of \<open>For\<close> that work on patterns: no parameter appears or changes.\<close>

locale pattern_pass =
  fixes run :: "node list \<Rightarrow> node list"
  assumes keeps: "set (VisitParameter (run nodes)) \<subseteq> set (VisitParameter nodes)"
begin

lemma invariant: "list_all P (VisitParameter nodes) \<Longrightarrow> list_all P (VisitParameter (run nodes))"
  using keeps [of nodes] by (auto simp: list_all_iff)

end

lemmas VisitParameter_append = VisitParameter_simps(5)

lemma VisitParameter_NewOperator:
  "set (VisitParameter (NewOperator nodes kind)) \<subseteq> set (VisitParameter nodes)"
  using NewOperator_leaves [of nodes kind] by (auto simp: leaves_visited(1) [symmetric])

lemma MapPattern_visited:
  assumes "\<And>p. \<exists>q. f p = Some (Pattern q)"
  shows "set (VisitParameter (MapPattern nodes f)) \<subseteq> set (VisitParameter nodes)"
proof
  fix q
  assume "q \<in> set (VisitParameter (MapPattern nodes f))"
  then obtain l where l: "l \<in> set (leaves nodes)"
    "Parameter q \<in> set (leaves (map_leaf (\<lambda>p. Some (Parameter p)) f l))"
    using MapNodes_leaves [of "\<lambda>p. Some (Parameter p)" f nodes]
    unfolding MapPattern_def leaves_visited(1) [symmetric] by blast
  show "q \<in> set (VisitParameter nodes)"
  proof (cases l)
    case (Pattern p)
    with l(2) assms [of p] show ?thesis by auto
  qed (use l in \<open>auto simp: leaves_visited(1) [symmetric]\<close>)
qed

lemma substituteNodes_visited:
  assumes "\<And>ps. VisitParameter (callback ps) = []"
  shows "set (VisitParameter (substituteNodes callback nodes)) \<subseteq> set (VisitParameter nodes)"
    and "set (VisitParameter (merge_operands callback previous ps ns)) \<subseteq> set (VisitParameter ns)"
  using assms
proof (induction callback nodes and callback previous ps ns rule: substituteNodes_merge_operands.induct)
  case (4 callback k operands a ns)
  show ?case
  proof (cases operands)
    case Nil
    with 4 VisitParameter_NewOperator [of "substituteNodes callback []" k] show ?thesis by auto
  next
    case (Cons x xs)
    have "set (VisitParameter (NewOperator (substituteNodes callback operands) k)) \<subseteq> set (VisitParameter operands)"
      if "k \<noteq> Concat"
      using VisitParameter_NewOperator 4(2) [OF that 4(4)] by (rule order_trans)
    moreover have "VisitParameter operands = VisitParameter [x] @ VisitParameter xs"
      using Cons VisitParameter_append [of "[x]" xs] by simp
    ultimately show ?thesis using 4 Cons by (cases "k = Concat") auto
  qed
next
  case (6 callback previous ps n ns)
  then show ?case using VisitParameter_append [of "[n]" ns] by auto
qed auto

lemma standard_visited: "VisitParameter (standard ps) = []"
proof -
  have "VisitParameter (standard_loop literals ps) = []" for literals
    by (induction literals ps rule: standard_loop.induct) auto
  then show ?thesis by (simp add: standard_eq_loop)
qed

lemma fuzzyRegexp_visited: "VisitParameter (fuzzyRegexp qm ps) = []"
  by (auto simp: fuzzyRegexp_def Let_def split: list.split)

interpretation escape: pattern_pass escapeParensHeuristic
  unfolding escapeParensHeuristic_def by unfold_locales (rule MapPattern_visited, simp)

interpretation label: pattern_pass labelStructural
  unfolding labelStructural_def by unfold_locales (rule MapPattern_visited, simp)

interpretation holes: pattern_pass ellipsesForHoles
  unfolding ellipsesForHoles_def by unfold_locales (rule MapPattern_visited, simp)

interpretation concat_standard: pattern_pass "substituteConcat standard"
  unfolding substituteConcat_def
  by unfold_locales (rule substituteNodes_visited(1), rule standard_visited)

interpretation concat_space: pattern_pass "substituteConcat (\<lambda>ps. [Pattern (space ps)])"
  unfolding substituteConcat_def
  by unfold_locales (rule substituteNodes_visited(1), simp)

interpretation concat_fuzzy: pattern_pass "substituteConcat (fuzzyRegexp qm)" for qm
  unfolding substituteConcat_def
  by unfold_locales (rule substituteNodes_visited(1), rule fuzzyRegexp_visited)

lemma processType_total: "\<exists>nodes'. processType qm t nodes = Inr nodes'"
  by (cases t) (simp_all add: processType_def succeeds_def)

lemma processType_invariant:
  assumes "processType qm t nodes = Inr nodes'" and "list_all P (VisitParameter nodes)"
  shows "list_all P (VisitParameter nodes')"
  using assms escape.invariant label.invariant holes.invariant concat_standard.invariant
    concat_space.invariant concat_fuzzy.invariant
  by (cases t) (auto simp: processType_def succeeds_def)

lemma processType_no_concat: "processType qm t nodes = Inr nodes' \<Longrightarrow> no_concat nodes'"
  by (cases t)
     (auto simp: processType_def succeeds_def substituteConcat_def
           intro!: substituteNodes_no_concat no_concat_standard no_concat_fuzzyRegexp)

section \<open>Predicates after normalisation\<close>

text \<open>
  What \<open>validatePredicate\<close> needs of a labelled parameter in a normalised query, where the
  field is looked up in the registry as it stands.
\<close>

definition predicate_known :: "parameter \<Rightarrow> bool" where
  "predicate_known p \<longleftrightarrow>
     (IsSet (ann_Labels (par_Annotation p)) IsPredicate \<longrightarrow>
        (\<exists>name params. ParseAsPredicate (par_Value p) = Some (name, params) \<and>
           registry_Get DefaultPredicateRegistry (par_Field p) name \<noteq> None))"

lemma aliases_lower: "resolveFieldAlias f \<in> {FieldRepo, FieldFile} \<Longrightarrow> strings_ToLower f = f"
proof -
  have keys: "list_all (\<lambda>(k, c). strings_ToLower k = k) aliases" by code_simp
  have names: "strings_ToLower FieldRepo = FieldRepo" "strings_ToLower FieldFile = FieldFile" by code_simp+
  assume "resolveFieldAlias f \<in> {FieldRepo, FieldFile}"
  then show ?thesis
    using keys names by (auto simp: resolveFieldAlias_def list_all_iff dest!: map_of_SomeD split: option.splits)
qed

lemma predicate_value_lower:
  assumes "predicate_value f v"
  shows "strings_ToLower f = f"
proof -
  obtain name k where "registry_Get DefaultPredicateRegistry (resolveFieldAlias f) name = Some k"
    using assms by (auto simp: predicate_value_def split: option.splits)
  then have "predicate_Field k = resolveFieldAlias f" by (rule registry_fields)
  then show ?thesis by (intro aliases_lower) (cases k; simp)
qed

lemma IsPredicate_alias [simp]: "IsSet (Set_label l IsAlias) IsPredicate = IsSet l IsPredicate"
  unfolding IsSet_def Set_label_def
  by (simp add: bit.conj_disj_distrib2)

lemma MapParameter_invariant:
  assumes "list_all P (VisitParameter nodes)"
    and "\<And>p n. P p \<Longrightarrow> f p = Some n \<Longrightarrow> list_all Q (VisitParameter [n])"
  shows "list_all Q (VisitParameter (MapParameter nodes f))"
  using assms MapParameter_visited [of _ nodes f] by (fastforce simp: list_all_iff)

abbreviation predicate_scanned :: "parameter \<Rightarrow> bool" where
  "predicate_scanned p \<equiv>
     IsSet (ann_Labels (par_Annotation p)) IsPredicate \<longrightarrow> predicate_value (par_Field p) (par_Value p)"

lemma normalise_predicates:
  assumes "list_all predicate_scanned (VisitParameter nodes)"
  shows "list_all predicate_known (VisitParameter (SubstituteCountAll (SubstituteAliases t (LowercaseFieldNames nodes))))"
proof -
  have "list_all predicate_scanned (VisitParameter (LowercaseFieldNames nodes))"
    unfolding LowercaseFieldNames_def
    by (rule MapParameter_invariant [OF assms]) (auto simp: predicate_value_lower)
  then have "list_all predicate_known (VisitParameter (SubstituteAliases t (LowercaseFieldNames nodes)))"
    unfolding SubstituteAliases_def
    by (rule MapParameter_invariant)
       (auto simp: substitute_alias_def set_par_label_def predicate_known_def predicate_value_def
          resolveFieldAlias_def Let_def split: if_splits option.splits)
  then show ?thesis
    unfolding SubstituteCountAll_def
  proof (rule MapParameter_invariant)
    fix p n
    assume p: "predicate_known p" and n: "(if par_Field p = FieldCount \<and> strings_ToLower (par_Value p) = ''all''
       then Some (Parameter (p\<lparr>par_Value := countAllLimitStr\<rparr>)) else Some (Parameter p)) = Some n"
    have "registry_Get DefaultPredicateRegistry FieldCount name = None" for name by (simp add: registry_Get_def DefaultPredicateRegistry_def)
    with p n show "list_all predicate_known (VisitParameter [n])"
      by (auto simp: predicate_known_def split: if_splits)
  qed
qed

section \<open>Init\<close>

lemma Init_eq:
  "Init qm buf t nodes0 =
     (case Parse buf t of
        Inl e \<Rightarrow> Inl (ParseFailed e)
      | Inr nodes \<Rightarrow> processType qm t (SubstituteCountAll (SubstituteAliases t (LowercaseFieldNames nodes))))"
  by (auto simp: Init_def For_step_def normalize_def succeeds_def split: sum.split)

lemma Init_Inl: "Init qm buf t nodes0 = Inl e \<longleftrightarrow> (\<exists>pe. Parse buf t = Inl pe \<and> e = ParseFailed pe)"
proof (cases "Parse buf t")
  case (Inr nodes)
  obtain ns where "Init qm buf t nodes0 = Inr ns"
    using Inr processType_total [of qm t] by (auto simp: Init_eq)
  with Inr show ?thesis by simp
qed (auto simp: Init_eq)

lemma Parse_parameters:
  assumes "Parse buf t = Inr nodes" and "p \<in> set (VisitParameter nodes)"
  shows "par_Field p = [] \<or> recognised_field (par_Field p)" and "predicate_scanned p"
  using Parse_ok(1) [OF assms(1)] assms(2) leaves_visited(1) [of p nodes] by (auto simp: tree_ok_def)

lemma Init_ok:
  assumes "Init qm buf t nodes0 = Inr nodes"
  shows "canonical_parameters nodes" and "list_all predicate_known (VisitParameter nodes)" and "no_concat nodes"
proof -
  obtain ns where ns: "Parse buf t = Inr ns"
    and run: "processType qm t (SubstituteCountAll (SubstituteAliases t (LowercaseFieldNames ns))) = Inr nodes"
    using assms by (auto simp: Init_eq split: sum.splits)
  have "canonical_parameters (SubstituteCountAll (SubstituteAliases t (LowercaseFieldNames ns)))"
    using Parse_parameters(1) [OF ns] by (rule normalise_canonical)
  then show "canonical_parameters nodes"
    unfolding canonical_parameters_def by (rule processType_invariant [OF run])
  have "list_all predicate_scanned (VisitParameter ns)"
    using Parse_parameters(2) [OF ns] by (simp add: list_all_iff)
  then show "list_all predicate_known (VisitParameter nodes)"
    by (intro processType_invariant [OF run] normalise_predicates)
  show "no_concat nodes" by (rule processType_no_concat [OF run])
qed

section \<open>Validation does not panic\<close>

lemma satisfies_avoid: "Some e \<notin> set cs \<Longrightarrow> satisfies cs \<noteq> Some e"
  by (induction cs) (auto simp: satisfies.simps split: option.split)

lemma checks_no_panic [simp]:
  "isNotNegated f n \<noteq> Some ValidatePanic" "isSingular f seen \<noteq> Some ValidatePanic"
  "isValidRegexp ext v \<noteq> Some ValidatePanic" "isValidRepoRegexp ext v n \<noteq> Some ValidatePanic"
  "isBoolean v \<noteq> Some ValidatePanic" "isNumber f v \<noteq> Some ValidatePanic"
  "isDuration ext v \<noteq> Some ValidatePanic" "isLanguage ext v \<noteq> Some ValidatePanic"
  "isYesNoOnly f v \<noteq> Some ValidatePanic" "isValidSelect v \<noteq> Some ValidatePanic"
  "isValidGitDate ext v \<noteq> Some ValidatePanic"
  by (simp_all add: isNotNegated_def isSingular_def isValidRegexp_def isValidRepoRegexp_def isBoolean_def
        isNumber_def isDuration_def isLanguage_def isYesNoOnly_def isValidSelect_def isValidGitDate_def
        split: option.split sum.split num_error.split)

lemma validateField_no_panic: "validateField ext field v negated seen \<noteq> Some ValidatePanic"
  unfolding validateField_def Let_def
  by (simp add: satisfies_avoid checks_no_panic [THEN not_sym])

lemma validate_visited_no_panic:
  "list_all predicate_known ps \<Longrightarrow> validate_visited ext seen ps \<noteq> Some ValidatePanic"
proof (induction ps arbitrary: seen)
  case (Cons p ps)
  have "validate_parameter ext seen p \<noteq> Some ValidatePanic"
    using Cons.prems validateField_no_panic
    by (auto simp: validate_parameter_def validatePredicate_def predicate_known_def split: sum.splits)
  with Cons show ?case by (auto split: option.split)
qed simp

lemma whole_checks_no_panic:
  "validatePattern ext nodes \<noteq> Some ValidatePanic" "validateRepoRevPair nodes \<noteq> Some ValidatePanic"
  "validateRepoHasFile nodes \<noteq> Some ValidatePanic" "validateCommitParameters nodes \<noteq> Some ValidatePanic"
  "validateTypeStructural nodes \<noteq> Some ValidatePanic"
proof -
  show "validatePattern ext nodes \<noteq> Some ValidatePanic"
    unfolding validatePattern_def
    by (rule satisfies_avoid) (auto simp: validate_one_pattern_def isValidRegexp_def Let_def split: if_splits)
  have "type_structural_loop ns s ty d \<noteq> Some ValidatePanic" for ns s ty d
    by (induction ns arbitrary: s ty d) (auto simp: Let_def split: prod.split)
  then show "validateTypeStructural nodes \<noteq> Some ValidatePanic" by (simp add: validateTypeStructural_def)
qed (simp_all add: validateRepoRevPair_def validateRepoHasFile_def validateCommitParameters_def Let_def)

text \<open>
  The last check calls an accessor that panics on a malformed \<open>repo:\<close> filter; it runs only
  after the parameters were found valid.
\<close>

lemma validate_no_panic:
  assumes "list_all predicate_known (VisitParameter nodes)"
  shows "validate ext nodes \<noteq> Some ValidatePanic"
proof (cases "validateParameters ext nodes")
  case None
  then have "parameters_valid ext nodes"
    using validateParameters_valid by (auto simp: parameters_valid_def list_all_iff)
  then obtain r where "Repositories ext nodes = Some r" using Repositories_valid by blast
  then have "validateRefGlobs ext nodes \<noteq> Some ValidatePanic"
    by (auto simp: validateRefGlobs_def ContainsRefGlobs_def Let_def split: bool.split prod.split)
  then show ?thesis
    unfolding validate_def using None by (intro satisfies_avoid) (use whole_checks_no_panic in fastforce)
next
  case (Some e)
  then have "validate ext nodes = Some e" by (simp add: validate_def satisfies.simps)
  with Some validate_visited_no_panic [OF assms, of ext "[]"] show ?thesis by (auto simp: validateParameters_def)
qed

section \<open>Plans\<close>

lemma conjunction_parameters [simp]:
  "bas_Parameters (conjunction l r) = bas_Parameters l @ bas_Parameters r"
  by (simp add: conjunction_def)

lemma BuildPlan_parameters:
  assumes "b \<in> set (BuildPlan nodes)" and "list_all P (VisitParameter nodes)"
  shows "list_all P (bas_Parameters b)"
  using distribute_invariant [of "\<lambda>b. list_all P (bas_Parameters b)" P nodes "[]"] assms
  by (auto simp: BuildPlan_def list_all_iff)

lemma ToParseTree_cases:
  "bas_Parameters b \<noteq> [] \<Longrightarrow>
     ToParseTree b = toNodes (bas_Parameters b) @ (case bas_Pattern b of None \<Rightarrow> [] | Some pat \<Rightarrow> [pat])"
  by (cases "bas_Parameters b")
     (auto simp: ToParseTree_def Let_def Hoist_def toNodes_def split: option.split)

lemma toNodes_visited [simp]: "VisitParameter (toNodes ps) = ps"
  by (induction ps) (simp_all add: toNodes_def)

lemma ToParseTree_visited:
  assumes "basic_ok b"
  shows "set (VisitParameter (ToParseTree b)) = set (bas_Parameters b)"
proof (cases "bas_Pattern b")
  case None
  then show ?thesis by (simp add: ToParseTree_def)
next
  case (Some pat)
  have "p \<notin> set (VisitParameter [pat])" for p
    using assms Some leaves_visited(1) [of p "[pat]"] by (auto simp: basic_ok_def isPatternExpression_leaves)
  then have pat: "set (VisitParameter [pat]) = {}" by (intro equals0I) simp
  show ?thesis
  proof (cases "bas_Parameters b = []")
    case False
    then show ?thesis using Some pat by (simp add: ToParseTree_cases)
  next
    case True
    have "set (VisitParameter ns) = {}" if hoist: "Hoist [pat] = Inr ns" for ns
    proof -
      have "q \<notin> set (VisitParameter ns)" for q
      proof
        assume "q \<in> set (VisitParameter ns)"
        then obtain l where l: "l \<in> set (leaves [pat])" "Parameter q = hoisted_leaf l"
          using Hoist_terms(3) [OF hoist] by (auto simp: leaves_visited(1) [symmetric])
        then have "Parameter q \<in> set (leaves [pat])" by (cases l rule: node.exhaust) auto
        with pat show False by (simp add: leaves_visited(1))
      qed
      then show ?thesis by (intro equals0I) simp
    qed
    with True Some pat show ?thesis by (simp add: ToParseTree_def toNodes_def Let_def split: sum.split)
  qed
qed

lemma MapPlan_Some: "(\<And>b. pass b = Some (f b)) \<Longrightarrow> MapPlan plan pass = Some (map f plan)"
  by (induction plan) auto

lemma validate_parameters_valid: "validate ext nodes = None \<Longrightarrow> parameters_valid ext nodes"
  using validateParameters_valid [of ext nodes] by (simp add: validate_def parameters_valid_def list_all_iff)

text \<open>With a \<open>rev:\<close> filter, no positive \<open>repo:\<close> filter has a revision of its own.\<close>

lemma validate_repo_without_revision:
  assumes "validate ext nodes = None" and "q \<in> set (VisitParameter nodes)" and "par_Field q = FieldRev"
    and "p \<in> set (VisitParameter nodes)" and "par_Field p = FieldRepo" and "\<not> par_Negated p"
  shows "CHR ''@'' \<notin> set (par_Value p)"
proof -
  have "Exists nodes (\<lambda>n. case n of Parameter p \<Rightarrow> par_Field p = FieldRev | _ \<Rightarrow> False)"
    using assms(2,3) by (induction nodes rule: leaves.induct) auto
  moreover have "validateRepoRevPair nodes = None" using assms(1) by (simp add: validate_def)
  ultimately show ?thesis
    using assms(4-6) by (auto simp: validateRepoRevPair_def Let_def VisitField_iff list_ex_iff split: if_splits)
qed

lemma attach_revision_valid:
  assumes "parameter_valid ext p" and "par_Field p = FieldRepo"
    and "\<not> par_Negated p \<Longrightarrow> CHR ''@'' \<notin> set (par_Value p)"
  shows "parameter_valid ext (attach_revision r p)"
proof (cases "par_Negated p \<or> IsSet (ann_Labels (par_Annotation p)) IsPredicate")
  case False
  with assms(3) ParseRepositoryRevisions_attach [of "par_Value p" "ext_Compile ext" r]
  have "isValidRepoRegexp ext (par_Value p @ ''@'' @ r) False = None \<longleftrightarrow>
      isValidRepoRegexp ext (par_Value p) False = None"
    by (auto simp: isValidRepoRegexp_def split: option.splits)
  with False assms(1,2) show ?thesis
    by (simp add: attach_revision_def parameter_valid_def validateField_def)
qed (use assms in \<open>auto simp: attach_revision_def\<close>)

lemma ConcatRevFilters_valid:
  assumes "validate ext (ToParseTree b) = None" and "basic_ok b" and "ConcatRevFilters b = Some b'"
  shows "parameters_valid ext (toNodes (bas_Parameters b'))"
proof -
  have visited: "p \<in> set (VisitParameter (ToParseTree b)) \<longleftrightarrow> p \<in> set (bas_Parameters b)" for p
    using ToParseTree_visited [OF assms(2)] by blast
  then have valid: "parameter_valid ext p" if "p \<in> set (bas_Parameters b)" for p
    using validate_parameters_valid [OF assms(1)] that by (simp add: parameters_valid_def list_all_iff)
  show ?thesis
  proof (cases "revision_of (bas_Parameters b) = []")
    case True
    then show ?thesis using assms(3) valid by (simp add: ConcatRevFilters_spec parameters_valid_def list_all_iff)
  next
    case False
    then have "filter (\<lambda>p. par_Field p = FieldRev) (bas_Parameters b) \<noteq> []" by (auto simp: revision_of_def)
    then obtain q where "q \<in> set (bas_Parameters b)" "par_Field q = FieldRev" by (auto simp: filter_empty_conv)
    then have "parameter_valid ext (attach_revision r p)"
      if "p \<in> set (bas_Parameters b)" "par_Field p = FieldRepo" for r p
      using that visited by (intro attach_revision_valid valid validate_repo_without_revision [OF assms(1)]) simp_all
    then show ?thesis
      using False assms(3) valid by (auto simp: ConcatRevFilters_spec parameters_valid_def list_all_iff)
  qed
qed

lemma ValidatePlan_None: "ValidatePlan ext plan = None \<longleftrightarrow> (\<forall>b \<in> set plan. validate ext (ToParseTree b) = None)"
  by (induction plan) (auto split: option.split)

lemma Pipeline_valid:
  assumes "Pipeline ext steps = Inr plan" and "b \<in> set plan"
  shows "parameters_valid ext (toNodes (bas_Parameters b))"
proof -
  obtain nodes where valid: "ValidatePlan ext (BuildPlan nodes) = None"
    and plan: "MapPlan (BuildPlan nodes) ConcatRevFilters = Some plan"
    using assms(1) by (auto simp: Pipeline_def Let_def split: sum.splits option.splits)
  from plan obtain b0 where b0: "b0 \<in> set (BuildPlan nodes)" "ConcatRevFilters b0 = Some b"
    using assms(2) MapPlan_Some [of ConcatRevFilters "\<lambda>b. the (ConcatRevFilters b)" "BuildPlan nodes"]
    by (auto simp: ConcatRevFilters_spec)
  moreover have "basic_ok b0"
    using distribute_basic_ok [of "[]" nodes] b0(1) by (simp add: BuildPlan_def list_all_iff)
  ultimately show ?thesis using valid by (intro ConcatRevFilters_valid) (auto simp: ValidatePlan_None)
qed

lemma Pipeline_no_panic:
  assumes "Pipeline ext [Init qm buf t] = Inl e"
  shows "e \<noteq> PipelinePanic \<and> e \<noteq> Invalid_query ValidatePanic \<and>
         (\<forall>pe. e = ParseFailed pe \<longrightarrow> proper_error pe)"
proof (cases "Init qm buf t []")
  case (Inl e')
  with assms Parse_proper [of buf t] show ?thesis by (auto simp: Pipeline_def Init_Inl)
next
  case (Inr nodes)
  have "ConcatRevFilters b = Some (the (ConcatRevFilters b))" for b by (simp add: ConcatRevFilters_spec)
  with assms Inr obtain ve where e: "e = Invalid_query ve" and ve: "ValidatePlan ext (BuildPlan nodes) = Some ve"
    using MapPlan_Some [of ConcatRevFilters "\<lambda>b. the (ConcatRevFilters b)" "BuildPlan nodes"]
    by (auto simp: Pipeline_def Let_def split: option.splits)
  have "ValidatePlan ext plan \<noteq> Some ValidatePanic" if "set plan \<subseteq> set (BuildPlan nodes)" for plan
    using that
  proof (induction plan)
    case (Cons b plan)
    have "list_all predicate_known (bas_Parameters b)"
      using Cons.prems Init_ok(2) [OF Inr] by (intro BuildPlan_parameters) auto
    moreover have "basic_ok b"
      using distribute_basic_ok [of "[]" nodes] Cons.prems by (simp add: BuildPlan_def list_all_iff)
    ultimately have "validate ext (ToParseTree b) \<noteq> Some ValidatePanic"
      using ToParseTree_visited by (intro validate_no_panic) (auto simp: list_all_iff)
    with Cons show ?case by (auto split: option.split)
  qed simp
  with e ve show ?thesis by auto
qed

end
