(* ===== verification/Query_Accessors.thy ===== *)
theory Query_Accessors
  imports Query_Pipeline
begin

text \<open>
  The accessors of \<open>internal/search/query/types.go\<close> that later stages of a search call on the
  basic queries of a plan: options of fields, and the arguments of typed predicates. \<open>None\<close> is
  a panic.

  Shown here: on a query with valid parameters none of them panics, and the accessors for
  dependency predicates, which are no longer in the registry, never report anything.
\<close>

section \<open>Fields\<close>

definition StringValue :: "node list \<Rightarrow> string \<Rightarrow> string \<times> string" where
  "StringValue q field =
     fold (\<lambda>p (v, negatedValue). if par_Negated p then (v, par_Value p) else (par_Value p, negatedValue))
       (VisitField q field) ([], [])"

definition Exists_field :: "node list \<Rightarrow> string \<Rightarrow> bool" where
  "Exists_field q field \<longleftrightarrow> fold (\<lambda>_ _. True) (VisitField q field) False"

definition IsCaseSensitive :: "node list \<Rightarrow> bool" where
  "IsCaseSensitive q = BoolValue q FieldCase"

text \<open>\<open>Q.MaxResults\<close>; \<open>None\<close> as the argument is the nil query.\<close>

definition Q_MaxResults :: "node list option \<Rightarrow> int \<Rightarrow> int option" where
  "Q_MaxResults q defaultLimit =
     (case q of
        None \<Rightarrow> Some 0
      | Some nodes \<Rightarrow>
          (case Count nodes of
             None \<Rightarrow> None
           | Some (Some c) \<Rightarrow> Some c
           | Some None \<Rightarrow> Some (if defaultLimit \<noteq> 0 then defaultLimit else DefaultMaxSearchResults)))"

definition Parameters_VisitParameter :: "parameter list \<Rightarrow> string \<Rightarrow> parameter list" where
  "Parameters_VisitParameter ps field = filter (\<lambda>p. par_Field p = field) ps"

definition FindParameter :: "parameter list \<Rightarrow> string \<Rightarrow> parameter option" where
  "FindParameter ps field = find (\<lambda>p. par_Field p = field) ps"

section \<open>Patterns\<close>

definition IsLiteral :: "Basic \<Rightarrow> bool" where
  "IsLiteral b = HasPatternLabel b Literal"

definition IsRegexp :: "Basic \<Rightarrow> bool" where
  "IsRegexp b = HasPatternLabel b Regexp"

definition IsStructural :: "Basic \<Rightarrow> bool" where
  "IsStructural b = HasPatternLabel b Structural"

definition PatternString :: "(string \<Rightarrow> string) \<Rightarrow> Basic \<Rightarrow> string" where
  "PatternString QuoteMeta b =
     (case bas_Pattern b of
        Some (Pattern p) \<Rightarrow> if IsLiteral b then QuoteMeta (pat_Value p) else pat_Value p
      | _ \<Rightarrow> [])"

record Flat =
  flat_Parameters :: "parameter list"
  flat_Pattern :: "pattern option"

definition ToBasic :: "Flat \<Rightarrow> Basic" where
  "ToBasic f = \<lparr>bas_Parameters = flat_Parameters f, bas_Pattern = map_option Pattern (flat_Pattern f)\<rparr>"

section \<open>Predicates\<close>

definition typed :: "externals \<Rightarrow> predicate_kind \<Rightarrow> parameter list \<Rightarrow> predicate list option" where
  "typed ext kind ps = VisitTypedPredicate ext kind (toNodes ps)"

record RepoHasFileContentArgs =
  rhf_Path :: string
  rhf_Content :: string
  rhf_Negated :: bool

fun file_content_args :: "predicate \<Rightarrow> RepoHasFileContentArgs list" where
  "file_content_args (RepoContainsPath pat negated) =
     [\<lparr>rhf_Path = pat, rhf_Content = [], rhf_Negated = negated\<rparr>]"
| "file_content_args (RepoContainsContent pat negated) =
     [\<lparr>rhf_Path = [], rhf_Content = pat, rhf_Negated = negated\<rparr>]"
| "file_content_args (RepoContainsFile path content negated) =
     [\<lparr>rhf_Path = path, rhf_Content = content, rhf_Negated = negated\<rparr>]"
| "file_content_args (RepoContains file content negated) =
     [\<lparr>rhf_Path = file, rhf_Content = content, rhf_Negated = negated\<rparr>]"
| "file_content_args _ = []"

text \<open>The arguments of several typed visits, one after the other.\<close>

fun typed_visits ::
    "externals \<Rightarrow> (predicate \<Rightarrow> 'a list) \<Rightarrow> predicate_kind list \<Rightarrow> parameter list \<Rightarrow> 'a list option" where
  "typed_visits ext f [] ps = Some []"
| "typed_visits ext f (kind # kinds) ps =
     (case typed ext kind ps of
        None \<Rightarrow> None
      | Some preds \<Rightarrow> map_option ((@) (concat (map f preds))) (typed_visits ext f kinds ps))"

definition RepoHasFileContent ::
    "externals \<Rightarrow> parameter list \<Rightarrow> RepoHasFileContentArgs list option" where
  "RepoHasFileContent ext ps =
     map_option
       ((@) (map (\<lambda>p. \<lparr>rhf_Path = par_Value p, rhf_Content = [], rhf_Negated = par_Negated p\<rparr>)
              (VisitField (toNodes ps) FieldRepoHasFile)))
       (typed_visits ext file_content_args
          [RepoContainsPathPredicate, RepoContainsContentPredicate, RepoContainsFilePredicate,
           RepoContainsPredicate] ps)"

definition FileContainsContent_values :: "externals \<Rightarrow> parameter list \<Rightarrow> string list option" where
  "FileContainsContent_values ext ps =
     typed_visits ext (\<lambda>pred. case pred of FileContainsContent pat \<Rightarrow> [pat] | _ \<Rightarrow> [])
       [FileContainsContentPredicate] ps"

text \<open>The last predicate wins over the first \<open>repohascommitafter:\<close> filter.\<close>

definition RepoContainsCommitAfter_value ::
    "externals \<Rightarrow> parameter list \<Rightarrow> (string \<times> bool) option option" where
  "RepoContainsCommitAfter_value ext ps =
     (let res = map_option (\<lambda>p. (par_Value p, par_Negated p)) (FindParameter ps FieldRepoHasCommitAfter)
      in map_option (\<lambda>args. fold (\<lambda>arg _. Some arg) args res)
           (typed_visits ext
              (\<lambda>pred. case pred of RepoContainsCommitAfter r negated \<Rightarrow> [(r, negated)] | _ \<Rightarrow> [])
              [RepoContainsCommitAfterPredicate] ps))"

record RepoKVPFilter =
  kvp_Key :: string
  kvp_Value :: "string option"
  kvp_Negated :: bool
  kvp_KeyOnly :: bool

fun kvp_filter :: "predicate \<Rightarrow> RepoKVPFilter list" where
  "kvp_filter (RepoHasMeta key v negated keyOnly) =
     [\<lparr>kvp_Key = key, kvp_Value = v, kvp_Negated = negated, kvp_KeyOnly = keyOnly\<rparr>]"
| "kvp_filter (RepoHasKVP key v negated) =
     [\<lparr>kvp_Key = key, kvp_Value = Some v, kvp_Negated = negated, kvp_KeyOnly = False\<rparr>]"
| "kvp_filter (RepoHasTag key negated) =
     [\<lparr>kvp_Key = key, kvp_Value = None, kvp_Negated = negated, kvp_KeyOnly = False\<rparr>]"
| "kvp_filter (RepoHasKey key negated) =
     [\<lparr>kvp_Key = key, kvp_Value = None, kvp_Negated = negated, kvp_KeyOnly = True\<rparr>]"
| "kvp_filter _ = []"

definition RepoHasKVPs :: "externals \<Rightarrow> parameter list \<Rightarrow> RepoKVPFilter list option" where
  "RepoHasKVPs ext ps =
     typed_visits ext kvp_filter
       [RepoHasMetaPredicate, RepoHasKVPPredicate, RepoHasTagPredicate, RepoHasKeyPredicate] ps"

definition RepoHasTopics :: "externals \<Rightarrow> parameter list \<Rightarrow> predicate list option" where
  "RepoHasTopics ext ps = typed_visits ext (\<lambda>pred. [pred]) [RepoHasTopicPredicate] ps"

definition FileHasOwner_values :: "externals \<Rightarrow> parameter list \<Rightarrow> (string list \<times> string list) option" where
  "FileHasOwner_values ext ps =
     map_option (\<lambda>owners. (map fst (filter (\<lambda>(_, negated). \<not> negated) owners), map fst (filter snd owners)))
       (typed_visits ext (\<lambda>pred. case pred of FileHasOwner owner negated \<Rightarrow> [(owner, negated)] | _ \<Rightarrow> [])
          [FileHasOwnerPredicate] ps)"

definition RepoHasDescription_patterns :: "externals \<Rightarrow> parameter list \<Rightarrow> string list option" where
  "RepoHasDescription_patterns ext ps =
     typed_visits ext
       (\<lambda>pred. case pred of
          RepoHasDescription pat \<Rightarrow> [''(?:'' @ strings_Join (strings_Split pat CHR '' '') '').*?(?:'' @ '')'']
        | _ \<Rightarrow> [])
       [RepoHasDescriptionPredicate] ps"

text \<open>\<open>VisitPredicate\<close> (\<open>visitor.go\<close>): field, name, argument and negation of every labelled parameter.\<close>

fun VisitPredicate_loop :: "parameter list \<Rightarrow> (string \<times> string \<times> string \<times> bool) list option" where
  "VisitPredicate_loop [] = Some []"
| "VisitPredicate_loop (p # ps) =
     (if \<not> IsSet (ann_Labels (par_Annotation p)) IsPredicate then VisitPredicate_loop ps
      else case ParseAsPredicate (par_Value p) of
        None \<Rightarrow> None
      | Some (name, predValue) \<Rightarrow>
          map_option ((#) (par_Field p, name, predValue, par_Negated p)) (VisitPredicate_loop ps))"

definition VisitPredicate :: "node list \<Rightarrow> (string \<times> string \<times> string \<times> bool) list option" where
  "VisitPredicate nodes = VisitPredicate_loop (VisitParameter nodes)"

definition Dependencies :: "node list \<Rightarrow> string list option" where
  "Dependencies q =
     map_option (concat \<circ> map (\<lambda>(field, name, v, _).
         if field = FieldRepo \<and> (name = ''dependencies'' \<or> name = ''deps'') then [v] else []))
       (VisitPredicate q)"

definition Dependents :: "node list \<Rightarrow> string list option" where
  "Dependents q =
     map_option (concat \<circ> map (\<lambda>(field, name, v, _).
         if field = FieldRepo \<and> (name = ''dependents'' \<or> name = ''revdeps'') then [v] else []))
       (VisitPredicate q)"

section \<open>No accessor panics\<close>

lemma typed_visits_total: "parameters_valid ext (toNodes ps) \<Longrightarrow> typed_visits ext f kinds ps \<noteq> None"
proof (induction kinds)
  case (Cons kind kinds)
  then show ?case using VisitTypedPredicate_valid [OF Cons.prems, of kind] by (auto simp: typed_def)
qed simp

text \<open>The accessors of a basic query that can panic.\<close>

definition accessors_total :: "externals \<Rightarrow> parameter list \<Rightarrow> bool" where
  "accessors_total ext ps \<longleftrightarrow>
     Count (toNodes ps) \<noteq> None \<and> MaxResults ps 0 \<noteq> None \<and> Archived (toNodes ps) \<noteq> None \<and>
     Fork (toNodes ps) \<noteq> None \<and> Index (toNodes ps) \<noteq> None \<and> GetTimeout ext (toNodes ps) \<noteq> None \<and>
     Repositories ext (toNodes ps) \<noteq> None \<and> RepoHasFileContent ext ps \<noteq> None \<and>
     FileContainsContent_values ext ps \<noteq> None \<and> RepoContainsCommitAfter_value ext ps \<noteq> None \<and>
     RepoHasKVPs ext ps \<noteq> None \<and> RepoHasTopics ext ps \<noteq> None \<and> FileHasOwner_values ext ps \<noteq> None \<and>
     RepoHasDescription_patterns ext ps \<noteq> None"

lemma accessors_valid:
  assumes "parameters_valid ext (toNodes ps)"
  shows "accessors_total ext ps"
proof -
  note typed = typed_visits_total [OF assms]
  have "Count (toNodes ps) \<noteq> None" "MaxResults ps 0 \<noteq> None"
    using Count_valid(1) [OF assms] by (auto simp: MaxResults_def split: option.split)
  moreover have "Archived (toNodes ps) \<noteq> None" "Fork (toNodes ps) \<noteq> None" "Index (toNodes ps) \<noteq> None"
    using yesNoOnly_valid [OF assms] by (simp_all add: Archived_def Fork_def Index_def)
  moreover have "RepoHasFileContent ext ps \<noteq> None" "FileContainsContent_values ext ps \<noteq> None"
    "RepoContainsCommitAfter_value ext ps \<noteq> None" "RepoHasKVPs ext ps \<noteq> None" "RepoHasTopics ext ps \<noteq> None"
    "FileHasOwner_values ext ps \<noteq> None" "RepoHasDescription_patterns ext ps \<noteq> None"
    using typed by (simp_all add: RepoHasFileContent_def FileContainsContent_values_def
      RepoContainsCommitAfter_value_def RepoHasKVPs_def RepoHasTopics_def FileHasOwner_values_def
      RepoHasDescription_patterns_def del: typed_visits.simps not_None_eq)
  ultimately show ?thesis
    using GetTimeout_valid [OF assms] Repositories_valid [OF assms] unfolding accessors_total_def by blast
qed

lemma registry_no_dependencies:
  "name \<in> {''dependencies'', ''deps'', ''dependents'', ''revdeps''} \<Longrightarrow>
     registry_Get DefaultPredicateRegistry FieldRepo name = None"
proof -
  have "list_all (\<lambda>name. registry_Get DefaultPredicateRegistry FieldRepo name = None)
      [''dependencies'', ''deps'', ''dependents'', ''revdeps'']" by code_simp
  then show "name \<in> {''dependencies'', ''deps'', ''dependents'', ''revdeps''} \<Longrightarrow>
     registry_Get DefaultPredicateRegistry FieldRepo name = None" by auto
qed

lemma VisitPredicate_known:
  "list_all predicate_known ps \<Longrightarrow> \<exists>calls. VisitPredicate_loop ps = Some calls \<and>
     (\<forall>(field, name, v, negated) \<in> set calls. registry_Get DefaultPredicateRegistry field name \<noteq> None)"
  by (induction ps) (auto simp: predicate_known_def)

lemma Dependencies_empty:
  assumes "list_all predicate_known (VisitParameter nodes)"
  shows "Dependencies nodes = Some []" and "Dependents nodes = Some []"
proof -
  obtain calls where calls: "VisitPredicate nodes = Some calls"
    "\<forall>(field, name, v, negated) \<in> set calls. registry_Get DefaultPredicateRegistry field name \<noteq> None"
    using VisitPredicate_known [OF assms] by (auto simp: VisitPredicate_def)
  then show "Dependencies nodes = Some []" "Dependents nodes = Some []"
    using registry_no_dependencies by (fastforce simp: Dependencies_def Dependents_def)+
qed

lemma VisitField_toNodes: "VisitField (toNodes ps) field = filter (\<lambda>p. par_Field p = field) ps"
  by (simp add: toNodes_def VisitField_flat)

text \<open>The count that \<open>MapCount\<close> writes is the count that \<open>Count\<close> reads.\<close>

lemma MapCount_Count:
  assumes "- (2 ^ 63) \<le> c" and "c < 2 ^ 63" and "MapCount b c = Some b'"
  shows "Count (toNodes (bas_Parameters b')) = Some (if list_ex (\<lambda>p. par_Field p = FieldCount) (bas_Parameters b) then Some c else None)"
    and "bas_Pattern b' = bas_Pattern b"
proof -
  let ?f = "\<lambda>p. if par_Field p = FieldCount then p\<lparr>par_Value := Itoa c\<rparr> else p"
  have map: "MapParameter (toNodes ps) (\<lambda>p. Some (Parameter (?f p))) = map Parameter (map ?f ps)" for ps
    by (induction ps) (simp_all add: MapParameter_def toNodes_def)
  have b': "b' = \<lparr>bas_Parameters = map ?f (bas_Parameters b), bas_Pattern = bas_Pattern b\<rparr>"
    using assms(3) map by (simp add: MapCount_def)
  have atoi: "Atoi (Itoa c) = Inr c" using ParseInt_Itoa [of 64 c] assms(1,2) by (simp add: Atoi_def)
  have "last_value (\<lambda>v. case Atoi v of Inl _ \<Rightarrow> None | Inr c \<Rightarrow> Some c) r (filter (\<lambda>p. par_Field p = FieldCount) (map ?f ps)) =
      Some (if list_ex (\<lambda>p. par_Field p = FieldCount) ps then Some c else r)" for r ps
    by (induction ps arbitrary: r) (auto simp: atoi)
  then show "Count (toNodes (bas_Parameters b')) = Some (if list_ex (\<lambda>p. par_Field p = FieldCount) (bas_Parameters b) then Some c else None)"
    by (simp add: Count_def b' VisitField_toNodes del: filter_map)
  show "bas_Pattern b' = bas_Pattern b" by (simp add: b')
qed

end
