(* ===== verification/Query_Findings.thy ===== *)
theory Query_Findings
  imports Query_Accessors
begin

text \<open>
  Behaviours of the query package that differ from what its comments, documentation or
  neighbouring code say, each proved for the model, in general where possible and on a query
  string otherwise.
\<close>

text \<open>The values of the leaves of a result; \<open>None\<close> is an error.\<close>

definition result_values :: "'e + node list \<Rightarrow> string list option" where
  "result_values r = (case r of Inl _ \<Rightarrow> None | Inr nodes \<Rightarrow> Some (map node_value (leaves nodes)))"

fun root_kind :: "node list \<Rightarrow> OperatorKind option" where
  "root_kind [Operator k operands a] = Some k"
| "root_kind _ = None"

section \<open>Transformations\<close>

text \<open>
  \<open>substituteConcat\<close> starts with the first operand of a concatenation as \<open>previous\<close> and adds it to
  the output only if it is a pattern: an operator in first position is dropped.
\<close>

lemma merge_operands_non_pattern:
  "\<not> isPattern n \<Longrightarrow> \<not> isPattern m \<Longrightarrow> merge_operands callback n ps rest = merge_operands callback m ps rest"
  by (induction rest arbitrary: ps) auto

lemma substituteConcat_drops_first_operator:
  "substituteConcat callback [Operator Concat (Operator k operands a # rest) a'] =
   substituteConcat callback [Operator Concat (Operator k' operands' a'' # rest) a']"
  using merge_operands_non_pattern [of "Operator k operands a" "Operator k' operands' a''"]
  by (simp add: substituteConcat_def)

lemma concat_group_dropped:
  "result_values (Parse ''(a or b) c'' SearchTypeRegex) = Some [''a'', ''b'', ''c''] \<and>
   result_values (Init id ''(a or b) c'' SearchTypeRegex []) = Some [''c'']"
  by code_simp

text \<open>
  The parts of a concatenation with a negated pattern are spliced into the enclosing operator;
  inside an or-expression a conjunct becomes an alternative.
\<close>

lemma concat_spliced_into_or:
  "case Init id ''a not b or c'' SearchTypeRegex [] of
     Inr [Operator Or [Pattern p, Pattern q, Pattern r] _] \<Rightarrow>
       pat_Value p = ''a'' \<and> pat_Value q = ''b'' \<and> pat_Negated q \<and> pat_Value r = ''c''
   | _ \<Rightarrow> False"
  by code_simp

lemma regexp_spliced_into_or:
  "case Init id ''/foo/ bar or baz'' SearchTypeStandard [] of
     Inr nodes \<Rightarrow> root_kind nodes = Some Or \<and> map node_value (leaves nodes) = [''foo'', ''bar'', ''baz''] \<and>
       list_all (\<lambda>n. case n of Operator k _ _ \<Rightarrow> k = Or | _ \<Rightarrow> True) (subnodes nodes)
   | _ \<Rightarrow> False"
  by code_simp

text \<open>An or-expression with other operands turns the siblings before it into alternatives.\<close>

lemma substituteOr_absorbs_siblings:
  "substituteOrForRegexp
     [Pattern (plain_pattern ''x'' zero_annotation),
      Operator Or [Pattern (plain_pattern ''a'' zero_annotation),
                   Operator And [Pattern (plain_pattern ''b'' zero_annotation),
                                 Pattern (plain_pattern ''c'' zero_annotation)] zero_annotation] zero_annotation] =
   [Operator Or [Pattern (plain_pattern ''x'' zero_annotation), Pattern (plain_pattern ''(?:a)'' zero_annotation),
                 Operator And [Pattern (plain_pattern ''b'' zero_annotation),
                               Pattern (plain_pattern ''c'' zero_annotation)] zero_annotation] zero_annotation]"
  by code_simp

section \<open>Parsing\<close>

text \<open>The keywords \<open>and\<close> and \<open>or\<close> after a group need no space after them.\<close>

lemma keyword_without_boundary:
  "result_values (Parse ''(a or b)android'' SearchTypeRegex) = Some [''a'', ''b'', ''roid''] \<and>
   result_values (Parse ''(a or b)orange'' SearchTypeRegex) = Some [''a'', ''b'', ''ange'']"
  by code_simp

text \<open>
  A negated field whose quoted value does not end is an error with the prefix \<open>-\<close>, but after
  \<open>NOT\<close> the error is ignored and the field with its colon disappears.
\<close>

lemma not_field_error_ignored:
  "result_values (Parse (''NOT repo:'' @ [CHR 0x22] @ ''abc'') SearchTypeRegex) = Some [[CHR 0x22] @ ''abc''] \<and>
   result_values (Parse (''-repo:'' @ [CHR 0x22] @ ''abc'') SearchTypeRegex) = None"
  by code_simp

text \<open>The fallback parser drops a closing parenthesis.\<close>

lemma fallback_drops_paren:
  "result_values (Parse ''(a or b ) (c'' SearchTypeRegex) = Some [''(a'', ''b'', ''(c'']"
  by code_simp

text \<open>A trailing parameter of an or-expression stays where it is, at the start of the input.\<close>

lemma hoist_example_not_hoisted:
  "case Parse ''a or b file:bar'' SearchTypeRegex of
     Inr [Operator Or [Pattern p, Operator And [Parameter q, Pattern r] _] _] \<Rightarrow>
       pat_Value p = ''a'' \<and> par_Value q = ''bar'' \<and> pat_Value r = ''b''
   | _ \<Rightarrow> False"
  by code_simp

text \<open>Field names are case-insensitive, except in front of a predicate.\<close>

lemma predicate_field_case_sensitive:
  "case (Parse ''REPO:has.path(x)'' SearchTypeRegex, Parse ''repo:has.path(x)'' SearchTypeRegex) of
     (Inr [Parameter p], Inr [Parameter q]) \<Rightarrow>
       \<not> IsSet (ann_Labels (par_Annotation p)) IsPredicate \<and> IsSet (ann_Labels (par_Annotation q)) IsPredicate
   | _ \<Rightarrow> False"
  by code_simp

section \<open>Validation and predicates\<close>

text \<open>\<open>ForAll\<close> returns with the first operator it meets and never looks at the nodes after it.\<close>

lemma ForAll_ignores_siblings:
  "ForAll (Operator k operands a # ns) fn = ForAll (Operator k operands a # ns') fn"
  by simp

text \<open>An empty \<open>repo:\<close> filter is only seen when it is the last one.\<close>

lemma empty_repo_overlooked:
  "\<exists>empty full revision.
     validateRepoRevPair [Parameter full, Parameter empty, Parameter revision] = Some RevWithEmptyRepo \<and>
     validateRepoRevPair [Parameter empty, Parameter full, Parameter revision] = None"
proof -
  let ?p = "\<lambda>f v. \<lparr>par_Field = f, par_Value = v, par_Negated = False, par_Annotation = zero_annotation\<rparr>"
  have "validateRepoRevPair [Parameter (?p FieldRepo ''a''), Parameter (?p FieldRepo []), Parameter (?p FieldRev ''v'')] =
      Some RevWithEmptyRepo"
    "validateRepoRevPair [Parameter (?p FieldRepo []), Parameter (?p FieldRepo ''a''), Parameter (?p FieldRev ''v'')] = None"
    by code_simp+
  then show ?thesis by blast
qed

text \<open>The fallback of \<open>repo:contains.file\<close> drops the negation of its only pattern.\<close>

lemma contains_file_negation_dropped:
  "Unmarshal_RepoContainsFile (\<lambda>_. True) ''NOT foo'' False = Inr (RepoContainsFile ''foo'' [] False)"
  by code_simp

text \<open>Text after the quoted key of \<open>repo:has.meta\<close> is ignored unless it starts with a colon.\<close>

lemma has_meta_trailing_text:
  "Unmarshal_RepoHasMeta (quote_with CHR 0x22 ''k'' @ '' trailing'') negated = Inr (RepoHasMeta ''k'' None negated True)"
proof -
  have "valid_utf8 ''k''" by code_simp
  then show ?thesis by (intro meta_trailing_ignored) (simp_all add: literal_quote_def)
qed

end
