(* ===== verification/Go_Heap.thy ===== *)
theory Go_Heap
  imports Prelude "HOL-Library.Multiset"
begin

text \<open>
  The standard library's \<open>container/heap\<close>, which \<open>internal/repos/scheduler.go\<close> uses for its
  update queue and its schedule: \<open>up\<close>, \<open>down\<close>, \<open>Push\<close>, \<open>Pop\<close>, \<open>Remove\<close> and \<open>Fix\<close> over a state
  with the methods \<open>Len\<close>, \<open>Less\<close>, \<open>Swap\<close>, \<open>Push\<close> and \<open>Pop\<close> of \<open>heap.Interface\<close>.

  The contract of \<open>heap.Interface\<close> is a locale: \<open>Less\<close> compares the keys at two positions by a
  strict weak order and \<open>Swap\<close> exchanges them. Shown in it: \<open>Push\<close>, \<open>Remove\<close> and \<open>Fix\<close> keep the heap
  order, the first position holds a least key, and whatever \<open>Swap\<close> preserves, the algorithms
  preserve.
\<close>

section \<open>Algorithms\<close>

abbreviation heap_parent :: "nat \<Rightarrow> nat" where
  "heap_parent j \<equiv> (j - 1) div 2"

lemma heap_parent_less: "0 < j \<Longrightarrow> heap_parent j < j"
  by (rule le_less_trans [OF div_le_dividend]) simp

function heap_up ::
    "('s \<Rightarrow> nat \<Rightarrow> nat \<Rightarrow> bool) \<Rightarrow> (nat \<Rightarrow> nat \<Rightarrow> 's \<Rightarrow> 's) \<Rightarrow> 's \<Rightarrow> nat \<Rightarrow> 's" where
  "heap_up Less Swap h j =
     (let i = heap_parent j in
      if i = j \<or> \<not> Less h j i then h else heap_up Less Swap (Swap i j h) i)"
  by pat_completeness auto
termination
  by (relation "measure (\<lambda>(_, _, _, j). j)") auto

declare heap_up.simps [simp del]

text \<open>The child that \<open>down\<close> compares with: the right one if it exists and is smaller.\<close>

definition heap_child :: "('s \<Rightarrow> nat \<Rightarrow> nat \<Rightarrow> bool) \<Rightarrow> 's \<Rightarrow> nat \<Rightarrow> nat \<Rightarrow> nat" where
  "heap_child Less h i n =
     (let j1 = 2 * i + 1; j2 = j1 + 1 in if j2 < n \<and> Less h j2 j1 then j2 else j1)"

lemma heap_child_bounds:
  assumes "2 * i + 1 < n"
  shows "i < heap_child Less h i n" and "heap_child Less h i n < n" and "heap_parent (heap_child Less h i n) = i"
  using assms by (auto simp: heap_child_def Let_def)

text \<open>\<open>down\<close> returns the state and the position the element came to rest at.\<close>

function heap_down ::
    "('s \<Rightarrow> nat \<Rightarrow> nat \<Rightarrow> bool) \<Rightarrow> (nat \<Rightarrow> nat \<Rightarrow> 's \<Rightarrow> 's) \<Rightarrow> 's \<Rightarrow> nat \<Rightarrow> nat \<Rightarrow> 's \<times> nat" where
  "heap_down Less Swap h i n =
     (if n \<le> 2 * i + 1 then (h, i)
      else if \<not> Less h (heap_child Less h i n) i then (h, i)
      else heap_down Less Swap (Swap i (heap_child Less h i n) h) (heap_child Less h i n) n)"
  by pat_completeness auto
termination
proof (relation "measure (\<lambda>(_, _, _, i, n). n - i)", goal_cases)
  case (2 Less Swap h i n)
  then show ?case using heap_child_bounds [of i n Less h] by auto
qed simp

declare heap_down.simps [simp del]

text \<open>The common part of \<open>Fix\<close> and \<open>Remove\<close>: \<open>if !down(h, i, n) { up(h, i) }\<close>.\<close>

definition heap_down_up ::
    "('s \<Rightarrow> nat \<Rightarrow> nat \<Rightarrow> bool) \<Rightarrow> (nat \<Rightarrow> nat \<Rightarrow> 's \<Rightarrow> 's) \<Rightarrow> 's \<Rightarrow> nat \<Rightarrow> nat \<Rightarrow> 's" where
  "heap_down_up Less Swap h i n =
     (case heap_down Less Swap h i n of (h', i') \<Rightarrow>
        if i < i' then h' else heap_up Less Swap h' i)"

definition heap_Fix ::
    "('s \<Rightarrow> nat) \<Rightarrow> ('s \<Rightarrow> nat \<Rightarrow> nat \<Rightarrow> bool) \<Rightarrow> (nat \<Rightarrow> nat \<Rightarrow> 's \<Rightarrow> 's) \<Rightarrow> 's \<Rightarrow> nat \<Rightarrow> 's" where
  "heap_Fix Len Less Swap h i = heap_down_up Less Swap h i (Len h)"

text \<open>\<open>Push\<close> after the interface's own \<open>Push\<close> has appended the element.\<close>

definition heap_Push ::
    "('s \<Rightarrow> nat) \<Rightarrow> ('s \<Rightarrow> nat \<Rightarrow> nat \<Rightarrow> bool) \<Rightarrow> (nat \<Rightarrow> nat \<Rightarrow> 's \<Rightarrow> 's) \<Rightarrow> ('s \<Rightarrow> 's) \<Rightarrow> 's \<Rightarrow> 's" where
  "heap_Push Len Less Swap Push h = (let h' = Push h in heap_up Less Swap h' (Len h' - 1))"

definition heap_Remove ::
    "('s \<Rightarrow> nat) \<Rightarrow> ('s \<Rightarrow> nat \<Rightarrow> nat \<Rightarrow> bool) \<Rightarrow> (nat \<Rightarrow> nat \<Rightarrow> 's \<Rightarrow> 's) \<Rightarrow> ('s \<Rightarrow> 's) \<Rightarrow> 's \<Rightarrow> nat \<Rightarrow> 's" where
  "heap_Remove Len Less Swap Pop h i =
     (let n = Len h - 1 in
      Pop (if n \<noteq> i then heap_down_up Less Swap (Swap i n h) i n else h))"

definition heap_Pop ::
    "('s \<Rightarrow> nat) \<Rightarrow> ('s \<Rightarrow> nat \<Rightarrow> nat \<Rightarrow> bool) \<Rightarrow> (nat \<Rightarrow> nat \<Rightarrow> 's \<Rightarrow> 's) \<Rightarrow> ('s \<Rightarrow> 's) \<Rightarrow> 's \<Rightarrow> 's" where
  "heap_Pop Len Less Swap Pop h =
     (let n = Len h - 1 in Pop (fst (heap_down Less Swap (Swap 0 n h) 0 n)))"

section \<open>Heap order\<close>

definition list_swap :: "'a list \<Rightarrow> nat \<Rightarrow> nat \<Rightarrow> 'a list" where
  "list_swap xs i j = xs[i := xs ! j, j := xs ! i]"

lemma length_list_swap [simp]: "length (list_swap xs i j) = length xs"
  by (simp add: list_swap_def)

lemma nth_list_swap:
  "i < length xs \<Longrightarrow> j < length xs \<Longrightarrow> k < length xs \<Longrightarrow>
     list_swap xs i j ! k = (if k = i then xs ! j else if k = j then xs ! i else xs ! k)"
  by (auto simp: list_swap_def nth_list_update)

lemma mset_list_swap [simp]: "i < length xs \<Longrightarrow> j < length xs \<Longrightarrow> mset (list_swap xs i j) = mset xs"
  by (simp add: list_swap_def mset_swap)

lemma map_list_swap: "i < length xs \<Longrightarrow> j < length xs \<Longrightarrow> map f (list_swap xs i j) = list_swap (map f xs) i j"
  by (simp add: list_swap_def map_update)

text \<open>The element at position \<open>k\<close> does not precede its parent.\<close>

definition above_parent :: "('k \<Rightarrow> 'k \<Rightarrow> bool) \<Rightarrow> 'k list \<Rightarrow> nat \<Rightarrow> bool" where
  "above_parent lt xs k \<longleftrightarrow> \<not> lt (xs ! k) (xs ! heap_parent k)"

definition heap_ordered :: "('k \<Rightarrow> 'k \<Rightarrow> bool) \<Rightarrow> 'k list \<Rightarrow> nat \<Rightarrow> bool" where
  "heap_ordered lt xs n \<longleftrightarrow> (\<forall>k. 0 < k \<and> k < n \<longrightarrow> above_parent lt xs k)"

text \<open>The children of \<open>i\<close> do not precede the parent of \<open>i\<close>.\<close>

definition children_above :: "('k \<Rightarrow> 'k \<Rightarrow> bool) \<Rightarrow> 'k list \<Rightarrow> nat \<Rightarrow> nat \<Rightarrow> bool" where
  "children_above lt xs n i \<longleftrightarrow>
     (0 < i \<longrightarrow> (\<forall>k. 0 < k \<and> k < n \<and> heap_parent k = i \<longrightarrow> \<not> lt (xs ! k) (xs ! heap_parent i)))"

text \<open>Heap order everywhere except around position \<open>i\<close>.\<close>

definition ordered_except :: "('k \<Rightarrow> 'k \<Rightarrow> bool) \<Rightarrow> 'k list \<Rightarrow> nat \<Rightarrow> nat \<Rightarrow> bool" where
  "ordered_except lt xs n i \<longleftrightarrow>
     (\<forall>k. 0 < k \<and> k < n \<and> k \<noteq> i \<and> heap_parent k \<noteq> i \<longrightarrow> above_parent lt xs k) \<and> children_above lt xs n i"

section \<open>The contract of \<open>heap.Interface\<close>\<close>

locale heap_interface =
  fixes lt :: "'k \<Rightarrow> 'k \<Rightarrow> bool"
    and keys :: "'s \<Rightarrow> 'k list"
    and Less :: "'s \<Rightarrow> nat \<Rightarrow> nat \<Rightarrow> bool"
    and Swap :: "nat \<Rightarrow> nat \<Rightarrow> 's \<Rightarrow> 's"
  assumes asym: "lt a b \<Longrightarrow> \<not> lt b a"
    and neg_trans: "\<not> lt a b \<Longrightarrow> \<not> lt b c \<Longrightarrow> \<not> lt a c"
    and Less_keys: "i < length (keys s) \<Longrightarrow> j < length (keys s) \<Longrightarrow> Less s i j \<longleftrightarrow> lt (keys s ! i) (keys s ! j)"
    and Swap_keys: "i < length (keys s) \<Longrightarrow> j < length (keys s) \<Longrightarrow> keys (Swap i j s) = list_swap (keys s) i j"
begin

abbreviation "up \<equiv> heap_up Less Swap"
abbreviation "down \<equiv> heap_down Less Swap"

lemma irrefl: "\<not> lt a a"
  using asym by blast

text \<open>Whatever \<open>Swap\<close> preserves below a position, the algorithms preserve below it.\<close>

definition kept_by_Swap :: "nat \<Rightarrow> ('s \<Rightarrow> bool) \<Rightarrow> bool" where
  "kept_by_Swap n P \<longleftrightarrow>
     (\<forall>s i j. P s \<longrightarrow> n \<le> length (keys s) \<longrightarrow> i < n \<longrightarrow> j < n \<longrightarrow> i \<noteq> j \<longrightarrow> P (Swap i j s))"

lemma kept_length: "kept_by_Swap n (\<lambda>s. length (keys s) = l)"
  by (simp add: kept_by_Swap_def Swap_keys)

lemma up_keeps:
  assumes "kept_by_Swap n P"
  shows "P s \<Longrightarrow> j < n \<Longrightarrow> n \<le> length (keys s) \<Longrightarrow> P (up s j)"
proof (induction j arbitrary: s rule: less_induct)
  case (less j)
  show ?case
  proof (cases "heap_parent j = j \<or> \<not> Less s j (heap_parent j)")
    case True
    with less.prems show ?thesis by (auto simp: heap_up.simps [of _ _ s j] Let_def)
  next
    case False
    then have lt: "heap_parent j < j" by auto
    let ?s = "Swap (heap_parent j) j s"
    have "P ?s" "heap_parent j < n" "n \<le> length (keys ?s)"
      using assms less.prems lt by (auto simp: kept_by_Swap_def Swap_keys)
    with less.IH [OF lt] False show ?thesis by (auto simp: heap_up.simps [of _ _ s j] Let_def)
  qed
qed

lemma down_keeps:
  assumes "kept_by_Swap n P"
  shows "P s \<Longrightarrow> n \<le> length (keys s) \<Longrightarrow> P (fst (down s i n))"
proof (induction "n - i" arbitrary: s i rule: less_induct)
  case less
  let ?j = "heap_child Less s i n"
  show ?case
  proof (cases "n \<le> 2 * i + 1 \<or> \<not> Less s ?j i")
    case True
    with less.prems show ?thesis by (auto simp: heap_down.simps [of _ _ s i])
  next
    case False
    then have j: "i < ?j" "?j < n" using heap_child_bounds [of i n Less s] by auto
    have "P (Swap i ?j s)" "n \<le> length (keys (Swap i ?j s))"
      using assms less.prems j by (auto simp: kept_by_Swap_def Swap_keys)
    moreover have "n - ?j < n - i" using j by auto
    ultimately have "P (fst (down (Swap i ?j s) ?j n))" using less.hyps [of ?j "Swap i ?j s"] by blast
    with False show ?thesis by (simp add: heap_down.simps [of _ _ s i])
  qed
qed

lemma down_up_keeps:
  assumes "kept_by_Swap n P" and "P s" and "i < n" and "n \<le> length (keys s)"
  shows "P (heap_down_up Less Swap s i n)"
proof -
  have "length (keys (fst (down s i n))) = length (keys s)"
    by (rule down_keeps [OF kept_length refl assms(4)])
  with up_keeps [OF assms(1), of "fst (down s i n)" i] down_keeps [OF assms(1,2,4), of i] assms(3,4)
  show ?thesis by (cases "down s i n") (simp add: heap_down_up_def)
qed

text \<open>Moving an element up restores the order below a position.\<close>

lemma up_ordered:
  "j < n \<Longrightarrow> n \<le> length (keys s) \<Longrightarrow>
   (\<forall>k. 0 < k \<and> k < n \<and> k \<noteq> j \<longrightarrow> above_parent lt (keys s) k) \<Longrightarrow> children_above lt (keys s) n j \<Longrightarrow>
     heap_ordered lt (keys (up s j)) n"
proof (induction j arbitrary: s rule: less_induct)
  case (less j)
  let ?i = "heap_parent j" and ?xs = "keys s"
  have len: "?i < length ?xs" "j < length ?xs" using less.prems by auto
  show ?case
  proof (cases "?i = j \<or> \<not> Less s j ?i")
    case True
    have "above_parent lt ?xs k" if "0 < k" "k < n" for k
      using that True less.prems(3) len by (cases "k = j") (auto simp: above_parent_def Less_keys)
    then show ?thesis using True by (auto simp: heap_ordered_def heap_up.simps [of _ _ s j] Let_def)
  next
    case False
    then have i: "?i < j" by auto
    let ?s = "Swap ?i j s"
    have ys: "keys ?s ! k = (if k = ?i then ?xs ! j else if k = j then ?xs ! ?i else ?xs ! k)" if "k < n" for k
      using that less.prems(2) len by (simp add: Swap_keys nth_list_swap)
    have ji: "keys ?s ! j = ?xs ! ?i" "keys ?s ! ?i = ?xs ! j" using ys [of j] ys [of ?i] i less.prems(1) by auto
    have lt: "lt (?xs ! j) (?xs ! ?i)" using False len by (simp add: Less_keys)
    have others: "above_parent lt (keys ?s) k" if k: "0 < k" "k < n" "k \<noteq> ?i" for k
    proof -
      have pk: "heap_parent k < n" using k by auto
      consider "k = j" | "k \<noteq> j" "heap_parent k = ?i" | "k \<noteq> j" "heap_parent k = j" | "heap_parent k \<notin> {?i, j}" "k \<noteq> j" by blast
      then show ?thesis
      proof cases
        case 1
        with asym [OF lt] show ?thesis by (simp only: above_parent_def ji not_False_eq_True)
      next
        case 2
        have "\<not> lt (?xs ! k) (?xs ! ?i)" using less.prems(3) k 2 by (auto simp: above_parent_def)
        then have "\<not> lt (?xs ! k) (?xs ! j)" using neg_trans asym [OF lt] by blast
        with 2 k show ?thesis by (simp only: above_parent_def ji ys if_False not_False_eq_True)
      next
        case 3
        have "\<not> lt (?xs ! k) (?xs ! ?i)" using less.prems(4) k 3 i by (auto simp: children_above_def)
        with 3 k show ?thesis by (simp only: above_parent_def ji ys if_False not_False_eq_True)
      next
        case 4
        then have "above_parent lt ?xs k" using less.prems(3) k by auto
        with 4 k ys [OF k(2)] ys [OF pk] show ?thesis by (simp add: above_parent_def)
      qed
    qed
    have "children_above lt (keys ?s) n ?i"
      unfolding children_above_def
    proof (intro impI allI, elim conjE)
      fix k
      assume k: "0 < ?i" "0 < k" "k < n" "heap_parent k = ?i"
      have gp: "heap_parent ?i < ?i" "?i < n" using heap_parent_less [OF k(1)] i less.prems(1) by auto
      have "\<not> lt (?xs ! ?i) (?xs ! heap_parent ?i)" using less.prems(3) gp k(1) i by (auto simp: above_parent_def)
      moreover have "\<not> lt (?xs ! k) (?xs ! ?i)" if "k \<noteq> j" using less.prems(3) that k by (auto simp: above_parent_def)
      moreover have "keys ?s ! heap_parent ?i = ?xs ! heap_parent ?i" using gp i ys [of "heap_parent ?i"] by simp
      moreover have "keys ?s ! k = (if k = j then ?xs ! ?i else ?xs ! k)" using ys [OF k(3)] k gp by auto
      ultimately show "\<not> lt (keys ?s ! k) (keys ?s ! heap_parent ?i)"
        using neg_trans [of "?xs ! k" "?xs ! ?i" "?xs ! heap_parent ?i"] by (cases "k = j") simp_all
    qed
    then have "heap_ordered lt (keys (up ?s ?i)) n"
      using others i less.prems by (intro less.IH) (auto simp: Swap_keys)
    with False show ?thesis by (auto simp: heap_up.simps [of _ _ s j] Let_def)
  qed
qed

lemma child_least:
  assumes "0 < k" "k < n" "heap_parent k = i" and "n \<le> length (keys s)"
  shows "\<not> lt (keys s ! k) (keys s ! heap_child Less s i n)"
proof -
  have "k = 2 * i + 1 \<or> k = 2 * i + 2" using assms(1,3) by auto
  then show ?thesis
  proof
    assume k: "k = 2 * i + 1"
    show ?thesis
    proof (cases "2 * i + 2 < n \<and> Less s (2 * i + 2) (2 * i + 1)")
      case True
      then have "lt (keys s ! (2 * i + 2)) (keys s ! (2 * i + 1))"
        using Less_keys [of "2 * i + 2" s "2 * i + 1"] assms(4) by simp
      from asym [OF this] show ?thesis using k True by (simp add: heap_child_def)
    next
      case False
      then have "heap_child Less s i n = 2 * i + 1" by (auto simp: heap_child_def Let_def)
      with k irrefl show ?thesis by simp
    qed
  next
    assume k: "k = 2 * i + 2"
    show ?thesis
    proof (cases "Less s (2 * i + 2) (2 * i + 1)")
      case True
      then have "heap_child Less s i n = 2 * i + 2" using k assms(2) by (simp add: heap_child_def)
      with k irrefl show ?thesis by simp
    next
      case False
      then have "\<not> lt (keys s ! (2 * i + 2)) (keys s ! (2 * i + 1))"
        using Less_keys [of "2 * i + 2" s "2 * i + 1"] assms(2,4) k by simp
      with False k show ?thesis by (simp add: heap_child_def)
    qed
  qed
qed

text \<open>One step down: the smaller child takes the place of its parent.\<close>

lemma down_step:
  assumes "ordered_except lt (keys s) n i" and "2 * i + 1 < n" and "n \<le> length (keys s)"
    and "Less s (heap_child Less s i n) i"
  defines "j \<equiv> heap_child Less s i n"
  shows "ordered_except lt (keys (Swap i j s)) n j" and "above_parent lt (keys (Swap i j s)) j"
proof -
  let ?xs = "keys s" and ?ys = "keys (Swap i j s)"
  note j = heap_child_bounds [OF assms(2), of Less s, folded j_def]
  have len: "i < length ?xs" "j < length ?xs" using j assms(3) by auto
  have ys: "?ys ! k = (if k = i then ?xs ! j else if k = j then ?xs ! i else ?xs ! k)" if "k < n" for k
    using that assms(3) len by (simp add: Swap_keys nth_list_swap)
  have ij: "?ys ! i = ?xs ! j" "?ys ! j = ?xs ! i" using ys [of i] ys [of j] j by auto
  have lt: "lt (?xs ! j) (?xs ! i)" using assms(4) len by (simp add: Less_keys j_def [symmetric])
  show up: "above_parent lt ?ys j" using asym [OF lt] by (simp only: above_parent_def j(3) ij not_False_eq_True)
  have "above_parent lt ?ys k" if k: "0 < k" "k < n" "k \<noteq> j" "heap_parent k \<noteq> j" for k
  proof -
    have pk: "heap_parent k < n" using k by auto
    consider "k = i" | "k \<noteq> i" "heap_parent k = i" | "k \<noteq> i" "heap_parent k \<noteq> i" by blast
    then show ?thesis
    proof cases
      case 1
      have "\<not> lt (?xs ! j) (?xs ! heap_parent i)"
        using assms(1) j k 1 by (auto simp: ordered_except_def children_above_def)
      moreover have "heap_parent i \<noteq> i" using heap_parent_less [of i] k 1 by auto
      ultimately show ?thesis using 1 k ys [OF pk] ij by (simp add: above_parent_def)
    next
      case 2
      with child_least [OF k(1,2) _ assms(3), of i] k ys [OF k(2)] ij show ?thesis
        by (simp add: above_parent_def j_def [symmetric])
    next
      case 3
      then have "above_parent lt ?xs k" using assms(1) k by (simp add: ordered_except_def)
      with 3 k ys [OF k(2)] ys [OF pk] show ?thesis by (simp add: above_parent_def)
    qed
  qed
  moreover have "children_above lt ?ys n j"
    unfolding children_above_def
  proof (intro impI allI, elim conjE)
    fix k
    assume k: "0 < j" "0 < k" "k < n" "heap_parent k = j"
    have ki: "k \<noteq> i" "k \<noteq> j" "heap_parent k \<noteq> i" using k j heap_parent_less [OF k(2)] by auto
    have "above_parent lt ?xs k" using assms(1) k ki by (simp add: ordered_except_def)
    then have "\<not> lt (?xs ! k) (?xs ! j)" using k(4) by (simp add: above_parent_def)
    with ys [OF k(3)] ki ij j show "\<not> lt (?ys ! k) (?ys ! heap_parent j)" by simp
  qed
  ultimately show "ordered_except lt ?ys n j" by (simp add: ordered_except_def)
qed

lemma down_rests:
  assumes "ordered_except lt (keys s) n i" and "n \<le> length (keys s)"
    and "n \<le> 2 * i + 1 \<or> \<not> Less s (heap_child Less s i n) i" and "0 < k" "k < n" "k \<noteq> i"
  shows "above_parent lt (keys s) k"
proof (cases "heap_parent k = i")
  case True
  then have k: "k = 2 * i + 1 \<or> k = 2 * i + 2" using assms(4) by auto
  then have n: "2 * i + 1 < n" using assms(5) by auto
  note j = heap_child_bounds [OF n, of Less s]
  have "\<not> lt (keys s ! heap_child Less s i n) (keys s ! i)" using assms(2,3) n j by (auto simp: Less_keys)
  moreover have "\<not> lt (keys s ! k) (keys s ! heap_child Less s i n)"
    by (rule child_least [OF assms(4,5) True assms(2)])
  ultimately show ?thesis using True neg_trans by (auto simp: above_parent_def)
qed (use assms in \<open>simp add: ordered_except_def\<close>)

lemma down_ordered:
  "ordered_except lt (keys s) n i \<Longrightarrow> n \<le> length (keys s) \<Longrightarrow> i < n \<Longrightarrow> (0 < i \<longrightarrow> above_parent lt (keys s) i) \<Longrightarrow>
     heap_ordered lt (keys (fst (down s i n))) n \<and> i \<le> snd (down s i n)"
proof (induction "n - i" arbitrary: s i rule: less_induct)
  case less
  let ?j = "heap_child Less s i n"
  show ?case
  proof (cases "n \<le> 2 * i + 1 \<or> \<not> Less s ?j i")
    case True
    have "above_parent lt (keys s) k" if "0 < k" "k < n" for k
      using down_rests [OF less.prems(1,2) True that] less.prems(4) that by (cases "k = i") auto
    with True show ?thesis by (auto simp: heap_ordered_def heap_down.simps [of _ _ s i])
  next
    case False
    then have n: "2 * i + 1 < n" by simp
    note j = heap_child_bounds [OF n, of Less s]
    note step = down_step [OF less.prems(1) n less.prems(2)]
    have "heap_ordered lt (keys (fst (down (Swap i ?j s) ?j n))) n \<and> ?j \<le> snd (down (Swap i ?j s) ?j n)"
      using step False j less.prems(2) by (intro less.hyps) (auto simp: Swap_keys)
    with False j show ?thesis by (auto simp: heap_down.simps [of _ _ s i])
  qed
qed

text \<open>The combination of both, as \<open>Fix\<close> and \<open>Remove\<close> use it, repairs any single position.\<close>

lemma down_up_ordered:
  assumes "ordered_except lt (keys s) n i" and "n \<le> length (keys s)" and "i < n"
  shows "heap_ordered lt (keys (heap_down_up Less Swap s i n)) n"
proof (cases "n \<le> 2 * i + 1 \<or> \<not> Less s (heap_child Less s i n) i")
  case True
  have "heap_ordered lt (keys (up s i)) n"
    using assms down_rests [OF assms(1,2) True] by (intro up_ordered) (auto simp: ordered_except_def)
  moreover have "down s i n = (s, i)" using True by (auto simp: heap_down.simps [of _ _ s i])
  ultimately show ?thesis by (simp add: heap_down_up_def)
next
  case False
  let ?j = "heap_child Less s i n"
  have n: "2 * i + 1 < n" using False by simp
  note j = heap_child_bounds [OF n, of Less s]
  have "heap_ordered lt (keys (fst (down (Swap i ?j s) ?j n))) n \<and> ?j \<le> snd (down (Swap i ?j s) ?j n)"
    using down_step [OF assms(1) n assms(2)] False j assms(2) by (intro down_ordered) (auto simp: Swap_keys)
  moreover have "down s i n = down (Swap i ?j s) ?j n" using False by (auto simp: heap_down.simps [of _ _ s i])
  ultimately have "heap_ordered lt (keys (fst (down s i n))) n" "i < snd (down s i n)" using j by auto
  then show ?thesis by (cases "down s i n") (simp add: heap_down_up_def)
qed

section \<open>Operations\<close>

lemma head_least: "heap_ordered lt xs n \<Longrightarrow> k < n \<Longrightarrow> \<not> lt (xs ! k) (xs ! 0)"
proof (induction k rule: less_induct)
  case (less k)
  show ?case
  proof (cases "k = 0")
    case False
    then have p: "heap_parent k < k" by (intro heap_parent_less) simp
    have "\<not> lt (xs ! k) (xs ! heap_parent k)" using less.prems False by (auto simp: heap_ordered_def above_parent_def)
    moreover have "\<not> lt (xs ! heap_parent k) (xs ! 0)" using less.IH [OF p] less.prems p by simp
    ultimately show ?thesis using neg_trans by blast
  qed (simp add: irrefl)
qed

lemma ordered_except_update:
  assumes "heap_ordered lt xs n" and "i < n" and "\<And>k. k < n \<Longrightarrow> k \<noteq> i \<Longrightarrow> ys ! k = xs ! k"
  shows "ordered_except lt ys n i"
proof -
  have same: "ys ! k = xs ! k" "ys ! heap_parent k = xs ! heap_parent k"
    if "0 < k" "k < n" "k \<noteq> i" "heap_parent k \<noteq> i" for k
    using assms(3) that by auto
  have "\<not> lt (ys ! k) (ys ! heap_parent i)" if k: "0 < k" "k < n" "heap_parent k = i" "0 < i" for k
  proof -
    have "\<not> lt (xs ! k) (xs ! i)" "\<not> lt (xs ! i) (xs ! heap_parent i)"
      using assms(1,2) k by (auto simp: heap_ordered_def above_parent_def)
    then have "\<not> lt (xs ! k) (xs ! heap_parent i)" by (rule neg_trans)
    moreover have "k \<noteq> i" "heap_parent i \<noteq> i" "heap_parent i < n"
      using heap_parent_less [OF k(1)] heap_parent_less [OF k(4)] k(3) assms(2) by auto
    ultimately show ?thesis using assms(3) k(2) by simp
  qed
  with same assms(1) show ?thesis
    by (auto simp: ordered_except_def children_above_def heap_ordered_def above_parent_def)
qed

text \<open>\<open>Fix\<close> after the key at one position has changed.\<close>

lemma Fix_ordered:
  assumes "heap_ordered lt xs (length (keys s))" and "i < length (keys s)"
    and "\<And>k. k < length (keys s) \<Longrightarrow> k \<noteq> i \<Longrightarrow> keys s ! k = xs ! k"
  shows "heap_ordered lt (keys (heap_down_up Less Swap s i (length (keys s)))) (length (keys s))"
  using ordered_except_update [OF assms] assms(2) by (intro down_up_ordered) simp_all

text \<open>\<open>up\<close> after an element was appended.\<close>

lemma Push_ordered:
  assumes "heap_ordered lt (butlast (keys s)) (length (keys s) - 1)" and "keys s \<noteq> []"
  shows "heap_ordered lt (keys (up s (length (keys s) - 1))) (length (keys s))"
proof (rule up_ordered)
  let ?n = "length (keys s) - 1"
  show "?n < length (keys s)" using assms(2) by simp
  have same: "butlast (keys s) ! k = keys s ! k" if "k < ?n" for k using that by (simp add: nth_butlast)
  show "\<forall>k. 0 < k \<and> k < length (keys s) \<and> k \<noteq> ?n \<longrightarrow> above_parent lt (keys s) k"
  proof (intro allI impI, elim conjE)
    fix k
    assume k: "0 < k" "k < length (keys s)" "k \<noteq> ?n"
    then have n: "k < ?n" "heap_parent k < ?n" using heap_parent_less [OF k(1)] by auto
    have "above_parent lt (butlast (keys s)) k" using assms(1) k(1) n(1) by (simp add: heap_ordered_def)
    with same [OF n(1)] same [OF n(2)] show "above_parent lt (keys s) k" by (simp add: above_parent_def)
  qed
  show "children_above lt (keys s) (length (keys s)) ?n"
    unfolding children_above_def
  proof (intro impI allI, elim conjE)
    fix k
    assume "0 < k" "k < length (keys s)" "heap_parent k = ?n"
    with heap_parent_less [of k] show "\<not> lt (keys s ! k) (keys s ! heap_parent ?n)" by simp
  qed
qed simp

text \<open>The state \<open>Remove\<close> hands to the interface's \<open>Pop\<close>: the last position holds the element.\<close>

lemma Remove_ordered:
  assumes "heap_ordered lt (keys s) (length (keys s))" and "i < length (keys s)"
  defines "n \<equiv> length (keys s) - 1"
  shows "heap_ordered lt (keys (if n \<noteq> i then heap_down_up Less Swap (Swap i n s) i n else s)) n"
proof (cases "n = i")
  case True
  then show ?thesis using assms(1) by (auto simp: heap_ordered_def n_def)
next
  case False
  then have i: "i < n" "n < length (keys s)" using assms(2) by (auto simp: n_def)
  have "heap_ordered lt (keys s) n" using assms(1) i by (auto simp: heap_ordered_def)
  then have "ordered_except lt (keys (Swap i n s)) n i"
    using i by (intro ordered_except_update) (auto simp: Swap_keys nth_list_swap)
  with False i show ?thesis using down_up_ordered [of "Swap i n s" n i] by (simp add: Swap_keys)
qed

end

end
