(* ===== verification/Indexed_Heap.thy ===== *)
theory Indexed_Heap
  imports Go_Heap
begin

text \<open>
  Heaps of pointers whose elements know their own position and can be looked up by an
  identifier: the representation that the update queue and the schedule of
  \<open>internal/repos/scheduler.go\<close> share (the fields \<open>heap\<close>, \<open>index\<close> and \<open>Index\<close>).

  The locale fixes how such a state is read (addresses in heap order, position, contents and
  lookup) and how \<open>Swap\<close> changes it. Shown in it, once for both components: the positions stored
  in the elements and the lookup table stay consistent with the heap under \<open>Push\<close>, \<open>Fix\<close> and
  \<open>Remove\<close>, and these operations change no contents.
\<close>

locale indexed_heap = heap_interface lt keys Less Swap
  for lt :: "'k \<Rightarrow> 'k \<Rightarrow> bool" and keys :: "'s \<Rightarrow> 'k list"
    and Less :: "'s \<Rightarrow> nat \<Rightarrow> nat \<Rightarrow> bool" and Swap :: "nat \<Rightarrow> nat \<Rightarrow> 's \<Rightarrow> 's" +
  fixes addrs :: "'s \<Rightarrow> nat list"
    and position :: "'s \<Rightarrow> nat \<Rightarrow> int"
    and contents :: "'s \<Rightarrow> nat \<Rightarrow> 'v"
    and lookup :: "'s \<Rightarrow> int \<rightharpoonup> nat"
    and frame :: "'s \<Rightarrow> 'f"
    and ident :: "'v \<Rightarrow> int"
    and rank :: "'v \<Rightarrow> 'k"
  assumes keys_rank: "keys s = map (\<lambda>a. rank (contents s a)) (addrs s)"
    and Swap_addrs: "i < length (addrs s) \<Longrightarrow> j < length (addrs s) \<Longrightarrow> addrs (Swap i j s) = list_swap (addrs s) i j"
    and Swap_position: "i < length (addrs s) \<Longrightarrow> j < length (addrs s) \<Longrightarrow> i \<noteq> j \<Longrightarrow> addrs s ! i \<noteq> addrs s ! j \<Longrightarrow>
      position (Swap i j s) = (position s)(addrs s ! j := int i, addrs s ! i := int j)"
    and Swap_contents: "i < length (addrs s) \<Longrightarrow> j < length (addrs s) \<Longrightarrow> contents (Swap i j s) = contents s"
    and Swap_lookup: "i < length (addrs s) \<Longrightarrow> j < length (addrs s) \<Longrightarrow> lookup (Swap i j s) = lookup s"
    and Swap_frame: "i < length (addrs s) \<Longrightarrow> j < length (addrs s) \<Longrightarrow> frame (Swap i j s) = frame s"
begin

lemma length_keys [simp]: "length (keys s) = length (addrs s)"
  by (simp add: keys_rank)

text \<open>Positions and lookup agree with the heap.\<close>

definition consistent :: "'s \<Rightarrow> bool" where
  "consistent s \<longleftrightarrow>
     distinct (addrs s) \<and> (\<forall>i < length (addrs s). position s (addrs s ! i) = int i) \<and>
     (\<forall>id a. lookup s id = Some a \<longleftrightarrow> a \<in> set (addrs s) \<and> ident (contents s a) = id)"

definition ordered :: "'s \<Rightarrow> bool" where
  "ordered s \<longleftrightarrow> heap_ordered lt (keys s) (length (addrs s))"

text \<open>The contents by identifier, and everything else that is not a position.\<close>

definition entries :: "'s \<Rightarrow> int \<rightharpoonup> 'v" where
  "entries s = (\<lambda>id. map_option (contents s) (lookup s id))"

definition same_contents :: "'s \<Rightarrow> 's \<Rightarrow> bool" where
  "same_contents s s' \<longleftrightarrow>
     contents s' = contents s \<and> lookup s' = lookup s \<and> frame s' = frame s \<and> mset (addrs s') = mset (addrs s)"

lemma same_contents_refl [simp]: "same_contents s s"
  by (simp add: same_contents_def)

lemma same_contents_entries: "same_contents s s' \<Longrightarrow> entries s' = entries s"
  by (simp add: same_contents_def entries_def)

lemma same_contents_length: "same_contents s s' \<Longrightarrow> length (addrs s') = length (addrs s)"
  unfolding same_contents_def using mset_eq_length by metis

lemma same_contents_set: "same_contents s s' \<Longrightarrow> set (addrs s') = set (addrs s)"
  unfolding same_contents_def by (elim conjE) (rule mset_eq_setD)

lemma kept_contents:
  assumes "consistent s0"
  shows "kept_by_Swap n (\<lambda>s. consistent s \<and> same_contents s0 s)"
  unfolding kept_by_Swap_def
proof (intro allI impI conjI; elim conjE)
  fix s i j
  assume c: "consistent s" and same: "same_contents s0 s" and n: "n \<le> length (keys s)" "i < n" "j < n" "i \<noteq> j"
  then have i: "i < length (addrs s)" "j < length (addrs s)" by simp_all
  show "same_contents s0 (Swap i j s)"
    using same i by (simp add: same_contents_def Swap_addrs Swap_contents Swap_lookup Swap_frame)
  have ne: "addrs s ! i \<noteq> addrs s ! j" using c i n(4) by (simp add: consistent_def nth_eq_iff_index_eq)
  have "mset (addrs (Swap i j s)) = mset (addrs s)" using i by (simp add: Swap_addrs)
  then have dist: "distinct (addrs (Swap i j s)) \<and> set (addrs (Swap i j s)) = set (addrs s)"
    using c mset_eq_imp_distinct_iff mset_eq_setD by (metis consistent_def)
  have "position (Swap i j s) (addrs (Swap i j s) ! k) = int k" if k: "k < length (addrs s)" for k
  proof -
    have "addrs (Swap i j s) ! k = (if k = i then addrs s ! j else if k = j then addrs s ! i else addrs s ! k)"
      using i k by (simp add: Swap_addrs nth_list_swap)
    moreover have "addrs s ! k \<noteq> addrs s ! i" if "k \<noteq> i" using c i k that by (simp add: consistent_def nth_eq_iff_index_eq)
    moreover have "addrs s ! k \<noteq> addrs s ! j" if "k \<noteq> j" using c i k that by (simp add: consistent_def nth_eq_iff_index_eq)
    ultimately show ?thesis
      using c i k ne Swap_position [OF i n(4) ne] by (auto simp: consistent_def)
  qed
  then show "consistent (Swap i j s)"
    using dist c i by (simp add: consistent_def Swap_contents Swap_lookup Swap_addrs)
qed

end

context indexed_heap
begin

lemma lookup_position:
  assumes "consistent s" and "lookup s x = Some a"
  obtains i where "i < length (addrs s)" and "addrs s ! i = a" and "position s a = int i"
    and "ident (contents s a) = x"
proof -
  have "a \<in> set (addrs s)" "ident (contents s a) = x" using assms by (auto simp: consistent_def)
  then obtain i where i: "i < length (addrs s)" "addrs s ! i = a" by (auto simp: in_set_conv_nth)
  moreover have "position s a = int i" using assms(1) i by (auto simp: consistent_def)
  ultimately show ?thesis using that \<open>ident (contents s a) = x\<close> by blast
qed

lemma entries_iff:
  "consistent s \<Longrightarrow> entries s x = Some v \<longleftrightarrow> (\<exists>a \<in> set (addrs s). contents s a = v \<and> ident v = x)"
  by (auto simp: entries_def consistent_def)

text \<open>Changing the contents of one element, but not its identifier.\<close>

lemma update_ok:
  assumes "consistent s" and "lookup s x = Some a" and "addrs s' = addrs s" and "position s' = position s"
    and "lookup s' = lookup s" and "contents s' = (contents s)(a := v)" and "ident v = x"
  shows "consistent s'" and "entries s' = (entries s)(x \<mapsto> v)"
proof -
  have id: "ident (contents s a) = x" using assms(1,2) by (auto simp: consistent_def)
  then have "ident (contents s' b) = ident (contents s b)" for b using assms(6,7) by simp
  then show "consistent s'" using assms(1,3-5) by (simp add: consistent_def)
  have other: "y = x" if "lookup s y = Some a" for y using that id assms(1) by (simp add: consistent_def)
  show "entries s' = (entries s)(x \<mapsto> v)"
  proof
    fix y
    show "entries s' y = ((entries s)(x \<mapsto> v)) y"
    proof (cases "lookup s y")
      case (Some b)
      then show ?thesis using other [of y] assms(2) by (cases "b = a") (auto simp: entries_def assms(5,6))
    qed (use assms(2) in \<open>auto simp: entries_def assms(5)\<close>)
  qed
qed

lemma head_least_entry:
  assumes "consistent s" and "ordered s" and "entries s x = Some v"
  shows "addrs s \<noteq> []" and "\<not> lt (rank v) (rank (contents s (addrs s ! 0)))"
proof -
  obtain k where k: "k < length (addrs s)" "contents s (addrs s ! k) = v"
    using assms(1,3) by (auto simp: entries_iff in_set_conv_nth)
  then show "addrs s \<noteq> []" by auto
  with head_least [of "keys s" "length (addrs s)" k] assms(2) k
  show "\<not> lt (rank v) (rank (contents s (addrs s ! 0)))" by (simp add: ordered_def keys_rank)
qed

text \<open>\<open>Fix\<close> after the contents of one element have changed.\<close>

lemma Fix_ok:
  assumes "ordered s" and "consistent s'" and "addrs s' = addrs s" and "i < length (addrs s)"
    and "\<And>k. k < length (addrs s) \<Longrightarrow> k \<noteq> i \<Longrightarrow> contents s' (addrs s ! k) = contents s (addrs s ! k)"
  defines "t \<equiv> heap_down_up Less Swap s' i (length (addrs s))"
  shows "consistent t" and "ordered t" and "same_contents s' t"
proof -
  have "consistent t \<and> same_contents s' t"
    unfolding t_def using assms(2-4) by (intro down_up_keeps [OF kept_contents]) simp_all
  then show "consistent t" "same_contents s' t" by simp_all
  have "heap_ordered lt (keys t) (length (addrs s))"
    unfolding t_def using assms(1,3-5) Fix_ordered [of "keys s" s' i] by (simp add: ordered_def keys_rank)
  then show "ordered t"
    using same_contents_length [OF \<open>same_contents s' t\<close>] assms(3) by (simp add: ordered_def)
qed

text \<open>\<open>up\<close> after an element was appended.\<close>

lemma Push_ok:
  assumes "ordered s" and "consistent s'" and "addrs s' = addrs s @ [a]"
    and "\<And>b. b \<in> set (addrs s) \<Longrightarrow> contents s' b = contents s b"
  defines "t \<equiv> heap_up Less Swap s' (length (addrs s))"
  shows "consistent t" and "ordered t" and "same_contents s' t"
proof -
  have "consistent t \<and> same_contents s' t"
    unfolding t_def using assms(2,3) by (intro up_keeps [OF kept_contents [OF assms(2), of "Suc (length (addrs s))"]]) simp_all
  then show "consistent t" "same_contents s' t" by simp_all
  have "butlast (keys s') = keys s" using assms(3,4) by (simp add: keys_rank)
  moreover have "keys s' \<noteq> []" using assms(3) by (simp add: keys_rank)
  ultimately have "heap_ordered lt (keys t) (length (addrs s'))"
    unfolding t_def using assms(1,3) Push_ordered [of s'] by (simp add: ordered_def)
  then show "ordered t" using same_contents_length [OF \<open>same_contents s' t\<close>] by (simp add: ordered_def)
qed

text \<open>The state before the last step of \<open>Remove\<close>: the element is in the last position.\<close>

lemma Remove_ok:
  assumes "consistent s" and "ordered s" and "i < length (addrs s)"
  defines "n \<equiv> length (addrs s) - 1"
  defines "t \<equiv> if n \<noteq> i then heap_down_up Less Swap (Swap i n s) i n else s"
  shows "consistent t" and "same_contents s t" and "heap_ordered lt (keys t) n" and "last (addrs t) = addrs s ! i"
proof -
  have all: "consistent t \<and> same_contents s t \<and> addrs t ! n = addrs s ! i"
  proof (cases "n = i")
    case False
    then have i: "i < n" "n < length (addrs s)" using assms(3) by (auto simp: n_def)
    have swap: "consistent (Swap i n s) \<and> same_contents s (Swap i n s)"
      using kept_contents [OF assms(1), of "Suc n"] assms(1) i False by (simp add: kept_by_Swap_def)
    have len: "n \<le> length (keys (Swap i n s))" using i by (simp add: Swap_addrs)
    have "kept_by_Swap n (\<lambda>s'. length (addrs s') = length (addrs s) \<and> addrs s' ! n = addrs s ! i)"
      using i by (auto simp: kept_by_Swap_def Swap_addrs nth_list_swap)
    from down_up_keeps [OF this _ i(1) len] have "addrs t ! n = addrs s ! i"
      using i False by (simp add: t_def Swap_addrs nth_list_swap)
    moreover have "consistent t \<and> same_contents s t"
      using down_up_keeps [OF kept_contents [OF assms(1)] swap i(1) len] False by (simp add: t_def)
    ultimately show ?thesis by simp
  qed (use assms in simp)
  then show "consistent t" "same_contents s t" by simp_all
  show "heap_ordered lt (keys t) n"
    using Remove_ordered [of s i] assms(2,3) unfolding ordered_def t_def n_def length_keys by blast
  have "length (addrs t) = length (addrs s)" using all same_contents_length by blast
  moreover from this have "addrs t \<noteq> []" using assms(3) by auto
  ultimately show "last (addrs t) = addrs s ! i" using all by (simp add: last_conv_nth n_def)
qed

text \<open>The interface's \<open>Pop\<close> drops the last element.\<close>

lemma Pop_ok:
  assumes "consistent s" and "heap_ordered lt (keys s) (length (addrs s) - 1)" and "addrs s \<noteq> []"
    and "addrs t = butlast (addrs s)"
    and "\<And>b. b \<in> set (butlast (addrs s)) \<Longrightarrow> position t b = position s b \<and> contents t b = contents s b"
    and "lookup t = (lookup s)(ident (contents s (last (addrs s))) := None)"
  shows "consistent t" and "ordered t" and "entries t = (entries s)(ident (contents s (last (addrs s))) := None)"
proof -
  let ?a = "last (addrs s)"
  obtain ys a where ys: "addrs s = ys @ [a]" using assms(3) by (cases "addrs s" rule: rev_cases) auto
  then have dist: "distinct (butlast (addrs s))" "?a \<notin> set (butlast (addrs s))"
    and set: "set (addrs s) = insert ?a (set (butlast (addrs s)))"
    using assms(1) by (auto simp: consistent_def)
  have look: "lookup s x = Some a \<longleftrightarrow> a \<in> set (addrs s) \<and> ident (contents s a) = x" for x a
    using assms(1) by (simp add: consistent_def)
  have inj: "b = ?a" if b: "b \<in> set (addrs s)" "ident (contents s b) = ident (contents s ?a)" for b
  proof -
    have "lookup s (ident (contents s ?a)) = Some b" "lookup s (ident (contents s ?a)) = Some ?a"
      unfolding look using b last_in_set [OF assms(3)] by blast+
    then show ?thesis by simp
  qed
  have "position t (addrs t ! k) = int k" if "k < length (addrs t)" for k
  proof -
    have k: "k < length (addrs s)" "addrs t ! k = addrs s ! k" "addrs t ! k \<in> set (butlast (addrs s))"
      using that nth_mem [OF that] by (simp_all add: assms(4) nth_butlast)
    then show ?thesis using assms(1) assms(5) [OF k(3)] by (simp add: consistent_def)
  qed
  moreover have "lookup t x = Some a \<longleftrightarrow> a \<in> set (addrs t) \<and> ident (contents t a) = x" for x a
  proof
    assume l: "lookup t x = Some a"
    then have x: "lookup s x = Some a" "x \<noteq> ident (contents s ?a)" using assms(6) by (auto split: if_splits)
    then have "a \<in> set (butlast (addrs s))" using look [of x a] set by auto
    with x look [of x a] assms(4,5) show "a \<in> set (addrs t) \<and> ident (contents t a) = x" by simp
  next
    assume a: "a \<in> set (addrs t) \<and> ident (contents t a) = x"
    then have b: "a \<in> set (butlast (addrs s))" "ident (contents s a) = x" using assms(4,5) by auto
    then have "lookup s x = Some a" "a \<noteq> ?a" using look [of x a] set dist(2) by auto
    moreover from this have "x \<noteq> ident (contents s ?a)" using inj [of a] look [of x a] by auto
    ultimately show "lookup t x = Some a" by (simp add: assms(6))
  qed
  ultimately show "consistent t" using dist assms(4) by (simp add: consistent_def)
  have keys: "keys t ! k = keys s ! k" if "k < length (addrs t)" for k
    using that assms(4) assms(5) [OF nth_mem [of k "butlast (addrs s)"]] by (simp add: keys_rank nth_butlast)
  show "ordered t"
    unfolding ordered_def heap_ordered_def
  proof (intro allI impI, elim conjE)
    fix k
    assume k: "0 < k" "k < length (addrs t)"
    then have "above_parent lt (keys s) k" using assms(2,4) by (simp add: heap_ordered_def)
    with keys [OF k(2)] keys [of "heap_parent k"] heap_parent_less [OF k(1)] k show "above_parent lt (keys t) k"
      by (simp add: above_parent_def)
  qed
  show "entries t = (entries s)(ident (contents s ?a) := None)"
  proof
    fix x
    have "contents t a = contents s a" if "lookup s x = Some a" "x \<noteq> ident (contents s ?a)" for a
    proof -
      have "a \<in> set (butlast (addrs s))" using look [of x a] that set by auto
      then show ?thesis using assms(5) by blast
    qed
    then show "entries t x = ((entries s)(ident (contents s ?a) := None)) x"
      using assms(6) by (cases "lookup s x") (auto simp: entries_def)
  qed
qed

end

text \<open>
  A client's view: the operations of \<open>container/heap\<close> on such a heap, with the number of elements
  and the removal of the last one as the client defines them, as changes of the table of entries.
\<close>

locale pointer_heap = indexed_heap lt keys Less Swap addrs position contents lookup frame ident rank
  for lt :: "'k \<Rightarrow> 'k \<Rightarrow> bool" and keys :: "'s \<Rightarrow> 'k list"
    and Less :: "'s \<Rightarrow> nat \<Rightarrow> nat \<Rightarrow> bool" and Swap :: "nat \<Rightarrow> nat \<Rightarrow> 's \<Rightarrow> 's"
    and addrs :: "'s \<Rightarrow> nat list" and position :: "'s \<Rightarrow> nat \<Rightarrow> int" and contents :: "'s \<Rightarrow> nat \<Rightarrow> 'v"
    and lookup :: "'s \<Rightarrow> int \<rightharpoonup> nat" and frame :: "'s \<Rightarrow> 'f" and ident :: "'v \<Rightarrow> int" and rank :: "'v \<Rightarrow> 'k" +
  fixes Len :: "'s \<Rightarrow> nat" and Pop :: "'s \<Rightarrow> 's"
  assumes Len_addrs: "Len s = length (addrs s)"
    and Pop_addrs: "addrs s \<noteq> [] \<Longrightarrow> addrs (Pop s) = butlast (addrs s)"
    and Pop_contents: "addrs s \<noteq> [] \<Longrightarrow> contents (Pop s) = contents s"
    and Pop_position: "addrs s \<noteq> [] \<Longrightarrow> a \<noteq> last (addrs s) \<Longrightarrow> position (Pop s) a = position s a"
    and Pop_lookup: "addrs s \<noteq> [] \<Longrightarrow> lookup (Pop s) = (lookup s)(ident (contents s (last (addrs s))) := None)"
    and Pop_frame: "addrs s \<noteq> [] \<Longrightarrow> frame (Pop s) = frame s"
begin

definition heap_ok :: "'s \<Rightarrow> bool" where
  "heap_ok s \<longleftrightarrow> consistent s \<and> ordered s"

lemma Fix_entry:
  assumes s: "heap_ok s" and a: "lookup s x = Some a" and s': "addrs s' = addrs s" "position s' = position s"
      "lookup s' = lookup s" "contents s' = (contents s)(a := v)" and v: "ident v = x"
  obtains i where "position s' a = int i" and "i < Len s'" and "heap_ok (heap_Fix Len Less Swap s' i)"
    and "same_contents s' (heap_Fix Len Less Swap s' i)" and "entries (heap_Fix Len Less Swap s' i) = (entries s)(x \<mapsto> v)"
proof -
  have c: "consistent s" and o: "ordered s" using s by (simp_all add: heap_ok_def)
  note upd = update_ok [OF c a s' v]
  obtain i where i: "i < length (addrs s)" "addrs s ! i = a" "position s a = int i"
    using lookup_position [OF c a] by blast
  have other: "contents s' (addrs s ! k) = contents s (addrs s ! k)" if "k < length (addrs s)" "k \<noteq> i" for k
    using that i c s'(4) by (auto simp: consistent_def nth_eq_iff_index_eq)
  note ok = Fix_ok [OF o upd(1) s'(1) i(1) other]
  have t: "heap_Fix Len Less Swap s' i = heap_down_up Less Swap s' i (length (addrs s))"
    by (simp add: heap_Fix_def Len_addrs s'(1))
  show ?thesis
    using that [of i] ok i s' same_contents_entries [OF ok(3)] upd(2) by (simp add: t heap_ok_def Len_addrs)
qed

lemma append_consistent:
  assumes s: "consistent s" and x: "lookup s x = None" "a \<notin> set (addrs s)"
    and s': "addrs s' = addrs s @ [a]" "position s' = (position s)(a := int (length (addrs s)))"
      "lookup s' = (lookup s)(x \<mapsto> a)" "contents s' = (contents s)(a := v)" and v: "ident v = x"
  shows "consistent s'" and "entries s' = (entries s)(x \<mapsto> v)"
proof -
  have look: "lookup s y = Some b \<longleftrightarrow> b \<in> set (addrs s) \<and> ident (contents s b) = y" for y b
    using s by (simp add: consistent_def)
  have "addrs s ! i \<noteq> a" if "i < length (addrs s)" for i using that x(2) nth_mem by metis
  moreover have "ident (contents s b) \<noteq> x" if "b \<in> set (addrs s)" for b using look [of x b] that x(1) by simp
  moreover have "b \<noteq> a" if "lookup s y = Some b" for y b using that look [of y b] x(2) by auto
  ultimately show "consistent s'" "entries s' = (entries s)(x \<mapsto> v)"
    using s x s' v by (auto simp: consistent_def entries_def nth_append less_Suc_eq fun_eq_iff look option.map_comp
        intro!: option.map_cong)
qed

lemma Push_entry:
  assumes s: "heap_ok s" and x: "lookup s x = None" "a \<notin> set (addrs s)"
    and s': "addrs s' = addrs s @ [a]" "position s' = (position s)(a := int (length (addrs s)))"
      "lookup s' = (lookup s)(x \<mapsto> a)" "contents s' = (contents s)(a := v)" and v: "ident v = x"
  defines "t \<equiv> heap_up Less Swap s' (Len s' - 1)"
  shows "heap_ok t" and "same_contents s' t" and "entries t = (entries s)(x \<mapsto> v)"
proof -
  have c: "consistent s" and o: "ordered s" using s by (simp_all add: heap_ok_def)
  note app = append_consistent [OF c x s' v]
  have "contents s' b = contents s b" if "b \<in> set (addrs s)" for b using that x(2) s'(4) by auto
  note ok = Push_ok [OF o app(1) s'(1) this]
  have t: "t = heap_up Less Swap s' (length (addrs s))" by (simp add: t_def Len_addrs s'(1))
  show "heap_ok t" "same_contents s' t" using ok by (simp_all add: t heap_ok_def)
  then show "entries t = (entries s)(x \<mapsto> v)" using same_contents_entries app(2) by simp
qed

lemma Remove_entry:
  assumes s: "heap_ok s" and i: "i < Len s"
  defines "t \<equiv> heap_Remove Len Less Swap Pop s i"
  shows "heap_ok t" and "entries t = (entries s)(ident (contents s (addrs s ! i)) := None)" and "frame t = frame s"
    and "set (addrs t) \<subseteq> set (addrs s)" and "lookup t = (lookup s)(ident (contents s (addrs s ! i)) := None)"
    and "contents t = contents s"
proof -
  define n where "n = length (addrs s) - 1"
  define u where "u = (if n \<noteq> i then heap_down_up Less Swap (Swap i n s) i n else s)"
  have c: "consistent s" and o: "ordered s" and il: "i < length (addrs s)" using s i by (simp_all add: heap_ok_def Len_addrs)
  note rem = Remove_ok [OF c o il, folded n_def, folded u_def]
  have len: "length (addrs u) = length (addrs s)" and ne: "addrs u \<noteq> []"
    using same_contents_length [OF rem(2)] il by auto
  have t: "t = Pop u" by (simp add: t_def heap_Remove_def u_def n_def Len_addrs Let_def)
  have last: "contents u = contents s" "lookup u = lookup s" "frame u = frame s"
    using rem(2) by (simp_all add: same_contents_def)
  have pos: "position (Pop u) b = position u b \<and> contents (Pop u) b = contents u b" if "b \<in> set (butlast (addrs u))" for b
  proof -
    have "distinct (butlast (addrs u) @ [last (addrs u)])" using rem(1) ne by (simp add: consistent_def)
    then have "b \<noteq> last (addrs u)" using that by auto
    with ne show ?thesis by (simp add: Pop_position Pop_contents)
  qed
  note pop = Pop_ok [OF rem(1) _ ne Pop_addrs [OF ne] pos Pop_lookup [OF ne]]
  have "heap_ordered lt (keys u) (length (addrs u) - 1)" using rem(3) by (simp add: len n_def)
  from pop [OF this] show "heap_ok t" "entries t = (entries s)(ident (contents s (addrs s ! i)) := None)"
    using same_contents_entries [OF rem(2)] by (simp_all add: t heap_ok_def rem(4) last)
  show "frame t = frame s" "lookup t = (lookup s)(ident (contents s (addrs s ! i)) := None)" "contents t = contents s"
    using ne rem(4) last by (simp_all add: t Pop_frame Pop_lookup Pop_contents)
  show "set (addrs t) \<subseteq> set (addrs s)"
    using same_contents_set [OF rem(2)] ne by (auto simp: t Pop_addrs dest: in_set_butlastD)
qed

end

end
