(* ===== verification/Update_Queue.thy ===== *)
theory Update_Queue
  imports Indexed_Heap
begin

text \<open>
  The update queue of \<open>internal/repos/scheduler.go\<close>: a priority queue of repositories waiting
  for a git update, kept as a heap of pointers with an index by repository.

  Pointers are addresses into a memory that the queue owns; \<open>uq_next\<close> is the next free one. The
  sequence numbers are 64-bit words and wrap around. The buffered notification channel is the
  flag \<open>uq_notify\<close>. \<open>None\<close> stands for a panic: a repository without id, or a heap operation at
  a position outside the heap.

  Shown here: every operation keeps the queue well formed and panics only for the zero id; the
  queue refines a table of entries by repository id; and \<open>acquireNext\<close> hands out, in the order of
  priority and then of arrival, each waiting repository, and fails only when none waits.
\<close>

section \<open>Data\<close>

record configuredRepo =
  cr_ID :: int
  cr_Name :: string

type_synonym priority = int

abbreviation (input) priorityLow :: priority where "priorityLow \<equiv> 0"
abbreviation (input) priorityHigh :: priority where "priorityHigh \<equiv> 1"

record repoUpdate =
  ru_Repo :: configuredRepo
  ru_Priority :: priority
  ru_Seq :: "64 word"
  ru_Updating :: bool
  ru_Index :: int

record updateQueue =
  uq_mem :: "nat \<Rightarrow> repoUpdate"
  uq_next :: nat
  uq_heap :: "nat list"
  uq_index :: "int \<rightharpoonup> nat"
  uq_seq :: "64 word"
  uq_notify :: bool

definition zero_repo :: configuredRepo where
  "zero_repo = \<lparr>cr_ID = 0, cr_Name = []\<rparr>"

definition new_repoUpdate :: "configuredRepo \<Rightarrow> priority \<Rightarrow> repoUpdate" where
  "new_repoUpdate repo p =
     \<lparr>ru_Repo = repo, ru_Priority = p, ru_Seq = 0, ru_Updating = False, ru_Index = 0\<rparr>"

definition new_updateQueue :: updateQueue where
  "new_updateQueue =
     \<lparr>uq_mem = (\<lambda>_. new_repoUpdate zero_repo 0), uq_next = 0, uq_heap = [], uq_index = Map.empty,
      uq_seq = 0, uq_notify = False\<rparr>"

section \<open>Methods of \<open>heap.Interface\<close>\<close>

abbreviation uq_item :: "updateQueue \<Rightarrow> nat \<Rightarrow> repoUpdate" where
  "uq_item q i \<equiv> uq_mem q (uq_heap q ! i)"

definition uq_set :: "nat \<Rightarrow> (repoUpdate \<Rightarrow> repoUpdate) \<Rightarrow> updateQueue \<Rightarrow> updateQueue" where
  "uq_set a f q = q\<lparr>uq_mem := (uq_mem q)(a := f (uq_mem q a))\<rparr>"

definition uq_Len :: "updateQueue \<Rightarrow> nat" where
  "uq_Len q = length (uq_heap q)"

definition uq_Less :: "updateQueue \<Rightarrow> nat \<Rightarrow> nat \<Rightarrow> bool" where
  "uq_Less q i j =
     (let qi = uq_item q i; qj = uq_item q j in
      if ru_Updating qi \<noteq> ru_Updating qj then ru_Updating qj
      else if ru_Priority qi \<noteq> ru_Priority qj then ru_Priority qi > ru_Priority qj
      else ru_Seq qi < ru_Seq qj)"

definition uq_Swap :: "nat \<Rightarrow> nat \<Rightarrow> updateQueue \<Rightarrow> updateQueue" where
  "uq_Swap i j q =
     (let q1 = q\<lparr>uq_heap := (uq_heap q)[i := uq_heap q ! j, j := uq_heap q ! i]\<rparr>;
          q2 = uq_set (uq_heap q1 ! i) (ru_Index_update (\<lambda>_. int i)) q1
      in uq_set (uq_heap q2 ! j) (ru_Index_update (\<lambda>_. int j)) q2)"

definition uq_nextSeq :: "updateQueue \<Rightarrow> 64 word \<times> updateQueue" where
  "uq_nextSeq q = (let s = uq_seq q + 1 in (s, q\<lparr>uq_seq := s\<rparr>))"

definition uq_Push :: "nat \<Rightarrow> updateQueue \<Rightarrow> updateQueue" where
  "uq_Push a q =
     (let n = length (uq_heap q);
          q1 = uq_set a (ru_Index_update (\<lambda>_. int n)) q;
          (s, q2) = uq_nextSeq q1;
          q3 = uq_set a (ru_Seq_update (\<lambda>_. s)) q2
      in q3\<lparr>uq_heap := uq_heap q3 @ [a], uq_index := (uq_index q3)(cr_ID (ru_Repo (uq_mem q3 a)) \<mapsto> a)\<rparr>)"

definition uq_Pop :: "updateQueue \<Rightarrow> updateQueue" where
  "uq_Pop q =
     (let n = length (uq_heap q);
          a = uq_heap q ! (n - 1);
          q1 = uq_set a (ru_Index_update (\<lambda>_. - 1)) q
      in q1\<lparr>uq_heap := take (n - 1) (uq_heap q1), uq_index := (uq_index q1)(cr_ID (ru_Repo (uq_mem q1 a)) := None)\<rparr>)"

abbreviation "uq_Fix \<equiv> heap_Fix uq_Len uq_Less uq_Swap"
abbreviation "uq_heap_Push a \<equiv> heap_Push uq_Len uq_Less uq_Swap (uq_Push a)"
abbreviation "uq_heap_Remove \<equiv> heap_Remove uq_Len uq_Less uq_Swap uq_Pop"

text \<open>A position stored in an element, if it is inside the heap; otherwise the slice access panics.\<close>

definition uq_position :: "updateQueue \<Rightarrow> nat \<Rightarrow> nat option" where
  "uq_position q a =
     (let i = ru_Index (uq_mem q a) in if 0 \<le> i \<and> i < int (uq_Len q) then Some (nat i) else None)"

section \<open>Operations\<close>

definition uq_reset :: "updateQueue \<Rightarrow> updateQueue" where
  "uq_reset q = q\<lparr>uq_heap := [], uq_index := Map.empty, uq_seq := 0, uq_notify := False\<rparr>"

definition enqueue :: "configuredRepo \<Rightarrow> priority \<Rightarrow> updateQueue \<Rightarrow> (bool \<times> updateQueue) option" where
  "enqueue repo p q =
     (if cr_ID repo = 0 then None
      else case uq_index q (cr_ID repo) of
        None \<Rightarrow>
          (let a = uq_next q;
               q1 = (uq_set a (\<lambda>_. new_repoUpdate repo p) q)\<lparr>uq_next := a + 1\<rparr>;
               q2 = uq_heap_Push a q1
           in Some (False, q2\<lparr>uq_notify := True\<rparr>))
      | Some a \<Rightarrow>
          if ru_Updating (uq_mem q a) then Some (False, q)
          else
            let q1 = uq_set a (ru_Repo_update (\<lambda>_. repo)) q in
            if p \<le> ru_Priority (uq_mem q1 a) then Some (True, q1)
            else
              let q2 = uq_set a (ru_Priority_update (\<lambda>_. p)) q1;
                  (s, q3) = uq_nextSeq q2;
                  q4 = uq_set a (ru_Seq_update (\<lambda>_. s)) q3
              in case uq_position q4 a of
                None \<Rightarrow> None
              | Some i \<Rightarrow> Some (True, (uq_Fix q4 i)\<lparr>uq_notify := True\<rparr>))"

definition uq_remove :: "configuredRepo \<Rightarrow> bool \<Rightarrow> updateQueue \<Rightarrow> (bool \<times> updateQueue) option" where
  "uq_remove repo updating q =
     (if cr_ID repo = 0 then None
      else case uq_index q (cr_ID repo) of
        None \<Rightarrow> Some (False, q)
      | Some a \<Rightarrow>
          if ru_Updating (uq_mem q a) = updating then
            (case uq_position q a of None \<Rightarrow> None | Some i \<Rightarrow> Some (True, uq_heap_Remove q i))
          else Some (False, q))"

definition acquireNext :: "updateQueue \<Rightarrow> (configuredRepo option \<times> updateQueue) option" where
  "acquireNext q =
     (if length (uq_heap q) = 0 then Some (None, q)
      else
        let a = uq_heap q ! 0 in
        if ru_Updating (uq_mem q a) then Some (None, q)
        else
          let q1 = uq_set a (ru_Updating_update (\<lambda>_. True)) q in
          case uq_position q1 a of
            None \<Rightarrow> None
          | Some i \<Rightarrow> (let q2 = uq_Fix q1 i in Some (Some (ru_Repo (uq_mem q2 a)), q2)))"

section \<open>The queue as an indexed heap\<close>

definition uq_rank :: "repoUpdate \<Rightarrow> bool \<times> int \<times> 64 word" where
  "uq_rank u = (ru_Updating u, ru_Priority u, ru_Seq u)"

fun uq_lt :: "bool \<times> int \<times> 64 word \<Rightarrow> bool \<times> int \<times> 64 word \<Rightarrow> bool" where
  "uq_lt (u1, p1, s1) (u2, p2, s2) \<longleftrightarrow>
     (if u1 \<noteq> u2 then u2 else if p1 \<noteq> p2 then p1 > p2 else s1 < s2)"

text \<open>The contents of an element, without the position.\<close>

definition uq_contents :: "updateQueue \<Rightarrow> nat \<Rightarrow> repoUpdate" where
  "uq_contents q a = (uq_mem q a)\<lparr>ru_Index := 0\<rparr>"

definition uq_keys :: "updateQueue \<Rightarrow> (bool \<times> int \<times> 64 word) list" where
  "uq_keys q = map (\<lambda>a. uq_rank (uq_contents q a)) (uq_heap q)"

definition uq_ident :: "repoUpdate \<Rightarrow> int" where
  "uq_ident u = cr_ID (ru_Repo u)"

lemma uq_set_simps [simp]:
  "uq_heap (uq_set a f q) = uq_heap q" "uq_index (uq_set a f q) = uq_index q"
  "uq_next (uq_set a f q) = uq_next q" "uq_seq (uq_set a f q) = uq_seq q"
  "uq_notify (uq_set a f q) = uq_notify q"
  "uq_mem (uq_set a f q) = (uq_mem q)(a := f (uq_mem q a))"
  by (simp_all add: uq_set_def)

lemma uq_Swap_simps:
  "uq_heap (uq_Swap i j q) = list_swap (uq_heap q) i j"
  "uq_index (uq_Swap i j q) = uq_index q" "uq_next (uq_Swap i j q) = uq_next q"
  "uq_seq (uq_Swap i j q) = uq_seq q" "uq_notify (uq_Swap i j q) = uq_notify q"
  "uq_contents (uq_Swap i j q) = uq_contents q"
  by (auto simp: uq_Swap_def Let_def list_swap_def uq_contents_def fun_eq_iff)

lemma uq_Swap_Index:
  assumes "i < length (uq_heap q)" "j < length (uq_heap q)" "i \<noteq> j" "uq_heap q ! i \<noteq> uq_heap q ! j"
  shows "(\<lambda>a. ru_Index (uq_mem (uq_Swap i j q) a)) =
           (\<lambda>a. ru_Index (uq_mem q a))(uq_heap q ! j := int i, uq_heap q ! i := int j)"
  using assms by (auto simp: uq_Swap_def Let_def fun_eq_iff nth_list_update)

lemma uq_Pop_simps:
  assumes "uq_heap q \<noteq> []"
  shows "uq_heap (uq_Pop q) = butlast (uq_heap q)" "uq_next (uq_Pop q) = uq_next q"
    "uq_seq (uq_Pop q) = uq_seq q" "uq_notify (uq_Pop q) = uq_notify q" "uq_contents (uq_Pop q) = uq_contents q"
    "a \<noteq> last (uq_heap q) \<Longrightarrow> ru_Index (uq_mem (uq_Pop q) a) = ru_Index (uq_mem q a)"
    "uq_index (uq_Pop q) = (uq_index q)(uq_ident (uq_contents q (last (uq_heap q))) := None)"
  using assms by (auto simp: uq_Pop_def Let_def uq_contents_def uq_ident_def fun_eq_iff butlast_conv_take last_conv_nth)

lemma uq_lt_order: "uq_lt a b \<Longrightarrow> \<not> uq_lt b a" "\<not> uq_lt a b \<Longrightarrow> \<not> uq_lt b c \<Longrightarrow> \<not> uq_lt a c"
  by (cases a; cases b; cases c; auto split: if_splits)+

interpretation uq: pointer_heap uq_lt uq_keys uq_Less uq_Swap uq_heap "\<lambda>q a. ru_Index (uq_mem q a)"
  uq_contents uq_index "\<lambda>q. (uq_next q, uq_seq q, uq_notify q)" uq_ident uq_rank uq_Len uq_Pop
proof
  show "uq_lt a b \<Longrightarrow> \<not> uq_lt b a" for a b by (rule uq_lt_order(1))
  show "\<not> uq_lt a b \<Longrightarrow> \<not> uq_lt b c \<Longrightarrow> \<not> uq_lt a c" for a b c by (rule uq_lt_order(2))
  show "i < length (uq_keys s) \<Longrightarrow> j < length (uq_keys s) \<Longrightarrow>
      uq_Less s i j \<longleftrightarrow> uq_lt (uq_keys s ! i) (uq_keys s ! j)" for i s j
    by (simp add: uq_Less_def uq_keys_def uq_rank_def uq_contents_def Let_def)
  show "i < length (uq_keys s) \<Longrightarrow> j < length (uq_keys s) \<Longrightarrow>
      uq_keys (uq_Swap i j s) = list_swap (uq_keys s) i j" for i s j
    by (simp add: uq_keys_def uq_Swap_simps map_list_swap)
qed (simp_all add: uq_keys_def uq_Swap_simps uq_Swap_Index uq_Len_def uq_Pop_simps)

text \<open>A well-formed queue.\<close>

definition queue_ok :: "updateQueue \<Rightarrow> bool" where
  "queue_ok q \<longleftrightarrow> uq.heap_ok q \<and> (\<forall>a \<in> set (uq_heap q). a < uq_next q) \<and> uq_index q 0 = None"

lemma new_updateQueue_ok: "queue_ok new_updateQueue"
  by (simp add: queue_ok_def uq.heap_ok_def uq.consistent_def uq.ordered_def heap_ordered_def new_updateQueue_def)

lemma uq_reset_ok: "queue_ok (uq_reset q)"
  by (simp add: queue_ok_def uq.heap_ok_def uq.consistent_def uq.ordered_def heap_ordered_def uq_reset_def)

section \<open>The queue as a table\<close>

text \<open>What the queue promises: a table of entries by repository, without heap or positions.\<close>

record queue_table =
  qt_entries :: "int \<rightharpoonup> repoUpdate"
  qt_seq :: "64 word"
  qt_notify :: bool

definition uq_abs :: "updateQueue \<Rightarrow> queue_table" where
  "uq_abs q = \<lparr>qt_entries = uq.entries q, qt_seq = uq_seq q, qt_notify = uq_notify q\<rparr>"

lemma uq_abs_simps [simp]:
  "qt_entries (uq_abs q) = uq.entries q" "qt_seq (uq_abs q) = uq_seq q" "qt_notify (uq_abs q) = uq_notify q"
  by (simp_all add: uq_abs_def)

definition spec_enqueue :: "configuredRepo \<Rightarrow> priority \<Rightarrow> queue_table \<Rightarrow> bool \<times> queue_table" where
  "spec_enqueue repo p t =
     (let s = qt_seq t + 1;
          bump = (\<lambda>u. t\<lparr>qt_entries := (qt_entries t)(cr_ID repo \<mapsto> u), qt_seq := s, qt_notify := True\<rparr>)
      in case qt_entries t (cr_ID repo) of
        None \<Rightarrow> (False, bump ((new_repoUpdate repo p)\<lparr>ru_Seq := s\<rparr>))
      | Some u \<Rightarrow>
          if ru_Updating u then (False, t)
          else if p \<le> ru_Priority u
            then (True, t\<lparr>qt_entries := (qt_entries t)(cr_ID repo \<mapsto> u\<lparr>ru_Repo := repo\<rparr>)\<rparr>)
          else (True, bump (u\<lparr>ru_Repo := repo, ru_Priority := p, ru_Seq := s\<rparr>)))"

definition spec_remove :: "configuredRepo \<Rightarrow> bool \<Rightarrow> queue_table \<Rightarrow> bool \<times> queue_table" where
  "spec_remove repo updating t =
     (case qt_entries t (cr_ID repo) of
        None \<Rightarrow> (False, t)
      | Some u \<Rightarrow>
          if ru_Updating u = updating then (True, t\<lparr>qt_entries := (qt_entries t)(cr_ID repo := None)\<rparr>)
          else (False, t))"

lemma uq_abs_eqI:
  "uq.entries q = e \<Longrightarrow> uq_seq q = s \<Longrightarrow> uq_notify q = b \<Longrightarrow>
     uq_abs q = \<lparr>qt_entries = e, qt_seq = s, qt_notify = b\<rparr>"
  by (simp add: uq_abs_def)

lemma queue_ok_same:
  assumes "uq.heap_ok t" and "uq.same_contents q t" and "\<forall>a \<in> set (uq_heap q). a < uq_next q" and "uq_index q 0 = None"
  shows "queue_ok t"
  using assms uq.same_contents_set [OF assms(2)] by (simp add: queue_ok_def uq.same_contents_def)

lemma queue_ok_notify [simp]: "queue_ok (q\<lparr>uq_notify := b\<rparr>) = queue_ok q"
proof -
  have "uq_contents (q\<lparr>uq_notify := b\<rparr>) = uq_contents q" by (simp add: uq_contents_def fun_eq_iff)
  then show ?thesis
    by (simp add: queue_ok_def uq.heap_ok_def uq.consistent_def uq.ordered_def uq_keys_def)
qed

lemma uq_abs_notify [simp]: "uq_abs (q\<lparr>uq_notify := b\<rparr>) = (uq_abs q)\<lparr>qt_notify := b\<rparr>"
proof -
  have "uq_contents (q\<lparr>uq_notify := b\<rparr>) = uq_contents q" by (simp add: uq_contents_def fun_eq_iff)
  then show ?thesis by (simp add: uq_abs_def uq.entries_def)
qed

text \<open>\<open>heap.Fix\<close> after an element has changed.\<close>

lemma uq_Fix_ok:
  assumes q: "queue_ok q" and a: "uq_index q x = Some a"
    and q': "uq_heap q' = uq_heap q" "(\<lambda>b. ru_Index (uq_mem q' b)) = (\<lambda>b. ru_Index (uq_mem q b))"
      "uq_index q' = uq_index q" "uq_contents q' = (uq_contents q)(a := v)" "uq_next q' = uq_next q"
    and v: "uq_ident v = x"
  obtains i where "uq_position q' a = Some i" and "queue_ok (uq_Fix q' i)" and "uq_contents (uq_Fix q' i) = uq_contents q'"
    and "uq_abs (uq_Fix q' i) = \<lparr>qt_entries = (uq.entries q)(x \<mapsto> v), qt_seq = uq_seq q', qt_notify = uq_notify q'\<rparr>"
proof (rule uq.Fix_entry [OF _ a q'(1-4) v])
  show "uq.heap_ok q" using q by (simp add: queue_ok_def)
next
  fix i
  let ?t = "uq_Fix q' i"
  assume i: "ru_Index (uq_mem q' a) = int i" "i < uq_Len q'" and ok: "uq.heap_ok ?t" "uq.same_contents q' ?t"
    and e: "uq.entries ?t = (uq.entries q)(x \<mapsto> v)"
  have "uq_position q' a = Some i" using i by (simp add: uq_position_def)
  moreover have "queue_ok ?t" using queue_ok_same [OF ok] q q' by (simp add: queue_ok_def)
  moreover have "uq_abs ?t = \<lparr>qt_entries = (uq.entries q)(x \<mapsto> v), qt_seq = uq_seq q', qt_notify = uq_notify q'\<rparr>"
    using ok(2) e by (intro uq_abs_eqI) (simp_all add: uq.same_contents_def)
  ultimately show ?thesis using that ok(2) by (simp add: uq.same_contents_def)
qed

text \<open>\<open>heap.Push\<close> of a new element.\<close>

lemma uq_Push_ok:
  fixes p :: priority
  assumes q: "queue_ok q" and x: "uq_index q (cr_ID repo) = None" "cr_ID repo \<noteq> 0"
  defines "a \<equiv> uq_next q"
  defines "q1 \<equiv> (uq_set a (\<lambda>_. new_repoUpdate repo p) q)\<lparr>uq_next := a + 1\<rparr>"
  shows "queue_ok (uq_heap_Push a q1)"
    and "uq_abs (uq_heap_Push a q1) =
           \<lparr>qt_entries = (uq.entries q)(cr_ID repo \<mapsto> (new_repoUpdate repo p)\<lparr>ru_Seq := uq_seq q + 1\<rparr>),
            qt_seq = uq_seq q + 1, qt_notify = uq_notify q\<rparr>"
proof -
  let ?q2 = "uq_Push a q1" and ?v = "(new_repoUpdate repo p)\<lparr>ru_Seq := uq_seq q + 1\<rparr>"
  have fresh: "a \<notin> set (uq_heap q)" "uq.heap_ok q" "\<forall>b \<in> set (uq_heap q). b < a" "uq_index q 0 = None"
    using q by (auto simp: queue_ok_def a_def)
  have q2: "uq_heap ?q2 = uq_heap q @ [a]"
    "(\<lambda>b. ru_Index (uq_mem ?q2 b)) = (\<lambda>b. ru_Index (uq_mem q b))(a := int (length (uq_heap q)))"
    "uq_index ?q2 = (uq_index q)(cr_ID repo \<mapsto> a)" "uq_contents ?q2 = (uq_contents q)(a := ?v)" "uq_ident ?v = cr_ID repo"
    "uq_seq ?q2 = uq_seq q + 1" "uq_notify ?q2 = uq_notify q" "uq_next ?q2 = a + 1"
    by (auto simp: uq_Push_def uq_nextSeq_def q1_def Let_def uq_contents_def uq_ident_def new_repoUpdate_def fun_eq_iff)
  have t: "uq_heap_Push a q1 = heap_up uq_Less uq_Swap ?q2 (uq_Len ?q2 - 1)" by (simp add: heap_Push_def Let_def)
  note push = uq.Push_entry [OF fresh(2) x(1) fresh(1) q2(1-5), folded t]
  show "queue_ok (uq_heap_Push a q1)"
    using fresh(3,4) x(2) by (intro queue_ok_same [OF push(1,2)]) (auto simp: q2 less_Suc_eq)
  show "uq_abs (uq_heap_Push a q1) =
      \<lparr>qt_entries = (uq.entries q)(cr_ID repo \<mapsto> ?v), qt_seq = uq_seq q + 1, qt_notify = uq_notify q\<rparr>"
    using push(2,3) by (intro uq_abs_eqI) (simp_all add: uq.same_contents_def q2)
qed

text \<open>An entry that changes without changing its place in the queue.\<close>

lemma enqueue_same_rank:
  assumes q: "queue_ok q" and a: "uq_index q (cr_ID repo) = Some a"
  defines "q' \<equiv> uq_set a (ru_Repo_update (\<lambda>_. repo)) q"
  shows "queue_ok q'" and "uq.entries q' = (uq.entries q)(cr_ID repo \<mapsto> (uq_contents q a)\<lparr>ru_Repo := repo\<rparr>)"
proof -
  have c: "uq.consistent q" using q by (simp add: queue_ok_def uq.heap_ok_def)
  have "uq_contents q' = (uq_contents q)(a := (uq_contents q a)\<lparr>ru_Repo := repo\<rparr>)"
    unfolding q'_def by (auto simp: uq_contents_def fun_eq_iff)
  moreover have "(\<lambda>b. ru_Index (uq_mem q' b)) = (\<lambda>b. ru_Index (uq_mem q b))" by (auto simp: q'_def)
  ultimately have upd: "uq.consistent q'"
    "uq.entries q' = (uq.entries q)(cr_ID repo \<mapsto> (uq_contents q a)\<lparr>ru_Repo := repo\<rparr>)"
    using uq.update_ok [OF c a] by (simp_all add: q'_def uq_ident_def)
  have "uq_keys q' = uq_keys q" by (simp add: q'_def uq_keys_def uq_contents_def uq_rank_def)
  then show "queue_ok q'" using q upd(1) by (simp add: queue_ok_def uq.heap_ok_def uq.ordered_def q'_def)
  show "uq.entries q' = (uq.entries q)(cr_ID repo \<mapsto> (uq_contents q a)\<lparr>ru_Repo := repo\<rparr>)" by (rule upd(2))
qed

text \<open>An entry that moves forward because of a higher priority.\<close>

lemma enqueue_bump:
  fixes p :: priority
  assumes q: "queue_ok q" and a: "uq_index q (cr_ID repo) = Some a"
  defines "q' \<equiv> uq_set a (ru_Seq_update (\<lambda>_. uq_seq q + 1))
     ((uq_set a (ru_Priority_update (\<lambda>_. p)) (uq_set a (ru_Repo_update (\<lambda>_. repo)) q))\<lparr>uq_seq := uq_seq q + 1\<rparr>)"
  obtains i where "uq_position q' a = Some i" and "queue_ok (uq_Fix q' i)"
    and "uq_abs (uq_Fix q' i) =
           \<lparr>qt_entries = (uq.entries q)(cr_ID repo \<mapsto>
              (uq_contents q a)\<lparr>ru_Repo := repo, ru_Priority := p, ru_Seq := uq_seq q + 1\<rparr>),
            qt_seq = uq_seq q + 1, qt_notify = uq_notify q\<rparr>"
proof -
  let ?v = "(uq_contents q a)\<lparr>ru_Repo := repo, ru_Priority := p, ru_Seq := uq_seq q + 1\<rparr>"
  have facts: "uq_heap q' = uq_heap q" "(\<lambda>b. ru_Index (uq_mem q' b)) = (\<lambda>b. ru_Index (uq_mem q b))"
    "uq_index q' = uq_index q" "uq_contents q' = (uq_contents q)(a := ?v)" "uq_next q' = uq_next q" "uq_ident ?v = cr_ID repo"
    "uq_seq q' = uq_seq q + 1" "uq_notify q' = uq_notify q"
    by (auto simp: q'_def uq_contents_def uq_ident_def fun_eq_iff)
  show ?thesis using uq_Fix_ok [OF q a facts(1-6)] that unfolding facts(7,8) by blast
qed

text \<open>\<open>enqueue\<close> keeps the queue well formed and does to the table what it promises.\<close>

lemma enqueue_refines:
  assumes q: "queue_ok q" and repo: "cr_ID repo \<noteq> 0"
  obtains q' where "enqueue repo p q = Some (fst (spec_enqueue repo p (uq_abs q)), q')"
    and "queue_ok q'" and "uq_abs q' = snd (spec_enqueue repo p (uq_abs q))"
proof (cases "uq_index q (cr_ID repo)")
  case None
  note push = uq_Push_ok [OF q None repo, where p = p]
  have "uq.entries q (cr_ID repo) = None" using None by (simp add: uq.entries_def)
  then have "spec_enqueue repo p (uq_abs q) = (False, uq_abs ((uq_heap_Push (uq_next q)
      ((uq_set (uq_next q) (\<lambda>_. new_repoUpdate repo p) q)\<lparr>uq_next := uq_next q + 1\<rparr>))\<lparr>uq_notify := True\<rparr>))"
    unfolding spec_enqueue_def Let_def uq_abs_notify push(2) by (simp add: uq_abs_def)
  then show ?thesis
    using that [OF _ queue_ok_notify [THEN iffD2, OF push(1), of True]] None repo
    by (simp add: enqueue_def Let_def)
next
  case (Some a)
  let ?u = "uq_contents q a"
  have u: "uq.entries q (cr_ID repo) = Some ?u" using Some by (simp add: uq.entries_def)
  have same: "ru_Updating (uq_mem q a) = ru_Updating ?u" "ru_Priority (uq_mem q a) = ru_Priority ?u"
    by (simp_all add: uq_contents_def)
  consider "ru_Updating ?u" | "\<not> ru_Updating ?u" "p \<le> ru_Priority ?u" | "\<not> ru_Updating ?u" "\<not> p \<le> ru_Priority ?u"
    by blast
  then show ?thesis
  proof cases
    case 1
    then show ?thesis using that [OF _ q] Some u same repo by (simp add: enqueue_def spec_enqueue_def Let_def)
  next
    case 2
    note ok = enqueue_same_rank [OF q Some]
    from 2 show ?thesis
      using that [OF _ ok(1)] Some u same repo ok(2)
      by (simp add: enqueue_def spec_enqueue_def Let_def uq_abs_def)
  next
    case 3
    let ?q = "uq_set a (ru_Seq_update (\<lambda>_. uq_seq q + 1))
      ((uq_set a (ru_Priority_update (\<lambda>_. p)) (uq_set a (ru_Repo_update (\<lambda>_. repo)) q))\<lparr>uq_seq := uq_seq q + 1\<rparr>)"
    obtain i where i: "uq_position ?q a = Some i"
      and ok: "queue_ok (uq_Fix ?q i)"
      and abs: "uq_abs (uq_Fix ?q i) =
           \<lparr>qt_entries = (uq.entries q)(cr_ID repo \<mapsto> ?u\<lparr>ru_Repo := repo, ru_Priority := p, ru_Seq := uq_seq q + 1\<rparr>),
            qt_seq = uq_seq q + 1, qt_notify = uq_notify q\<rparr>"
      by (rule enqueue_bump [OF q Some, of p]) blast
    have run: "enqueue repo p q = Some (True, (uq_Fix ?q i)\<lparr>uq_notify := True\<rparr>)"
      using 3 Some same repo i by (simp add: enqueue_def uq_nextSeq_def Let_def)
    have spec: "spec_enqueue repo p (uq_abs q) = (True, uq_abs ((uq_Fix ?q i)\<lparr>uq_notify := True\<rparr>))"
      using 3 u by (simp add: spec_enqueue_def Let_def uq_abs_notify abs)
    show ?thesis using that [OF _ queue_ok_notify [THEN iffD2, OF ok]] run spec by simp
  qed
qed

lemma uq_entries_index: "uq.entries q x = map_option (uq_contents q) (uq_index q x)"
  by (simp add: uq.entries_def)

lemma uq_position_ok:
  assumes "queue_ok q" and "uq_index q x = Some a"
  obtains i where "uq_position q a = Some i" and "i < uq_Len q" and "uq_heap q ! i = a" and "uq_ident (uq_contents q a) = x"
proof (rule uq.lookup_position [OF _ assms(2)])
  show "uq.consistent q" using assms(1) by (simp add: queue_ok_def uq.heap_ok_def)
next
  fix i
  assume i: "i < length (uq_heap q)" "uq_heap q ! i = a" "ru_Index (uq_mem q a) = int i" "uq_ident (uq_contents q a) = x"
  then have "uq_position q a = Some i" by (simp add: uq_position_def uq_Len_def)
  with i that show ?thesis by (simp add: uq_Len_def)
qed

lemma uq_Remove_ok:
  assumes q: "queue_ok q" and i: "i < uq_Len q" "uq_ident (uq_contents q (uq_heap q ! i)) = x"
  shows "queue_ok (uq_heap_Remove q i)" and "uq_abs (uq_heap_Remove q i) = (uq_abs q)\<lparr>qt_entries := (uq.entries q)(x := None)\<rparr>"
proof -
  have "uq.heap_ok q" using q by (simp add: queue_ok_def)
  note rem = uq.Remove_entry [OF this i(1)]
  show "queue_ok (uq_heap_Remove q i)" using q rem(1,3-5) by (auto simp: queue_ok_def)
  show "uq_abs (uq_heap_Remove q i) = (uq_abs q)\<lparr>qt_entries := (uq.entries q)(x := None)\<rparr>"
    using rem(2,3) i(2) by (simp add: uq_abs_def)
qed

text \<open>\<open>remove\<close> takes the entry out of the table if it is in the expected state.\<close>

lemma uq_remove_refines:
  assumes q: "queue_ok q" and repo: "cr_ID repo \<noteq> 0"
  obtains q' where "uq_remove repo updating q = Some (fst (spec_remove repo updating (uq_abs q)), q')"
    and "queue_ok q'" and "uq_abs q' = snd (spec_remove repo updating (uq_abs q))"
proof (cases "uq_index q (cr_ID repo)")
  case None
  then show ?thesis using that [OF _ q] repo by (simp add: uq_remove_def spec_remove_def uq_entries_index)
next
  case (Some a)
  have same: "ru_Updating (uq_contents q a) = ru_Updating (uq_mem q a)" by (simp add: uq_contents_def)
  show ?thesis
  proof (cases "ru_Updating (uq_mem q a) = updating")
    case True
    obtain i where i: "uq_position q a = Some i" "i < uq_Len q" "uq_heap q ! i = a" "uq_ident (uq_contents q a) = cr_ID repo"
      by (rule uq_position_ok [OF q Some])
    then have "uq_ident (uq_contents q (uq_heap q ! i)) = cr_ID repo" by simp
    note rem = uq_Remove_ok [OF q i(2) this]
    show ?thesis
      using that [OF _ rem(1)] True Some i(1) same repo rem(2) by (simp add: uq_remove_def spec_remove_def uq_entries_index)
  next
    case False
    then show ?thesis using that [OF _ q] Some same repo by (simp add: uq_remove_def spec_remove_def uq_entries_index)
  qed
qed

section \<open>Handing out work\<close>

text \<open>The entry that goes next: it waits, and no other entry comes before it.\<close>

definition next_entry :: "queue_table \<Rightarrow> configuredRepo \<Rightarrow> bool" where
  "next_entry t repo \<longleftrightarrow>
     (\<exists>u. qt_entries t (cr_ID repo) = Some u \<and> \<not> ru_Updating u \<and> ru_Repo u = repo \<and>
        (\<forall>y v. qt_entries t y = Some v \<longrightarrow> \<not> uq_lt (uq_rank v) (uq_rank u)))"

definition spec_start :: "configuredRepo \<Rightarrow> queue_table \<Rightarrow> queue_table" where
  "spec_start repo t =
     t\<lparr>qt_entries := (qt_entries t)(cr_ID repo := map_option (ru_Updating_update (\<lambda>_. True)) (qt_entries t (cr_ID repo)))\<rparr>"

definition waiting :: "queue_table \<Rightarrow> int set" where
  "waiting t = {x. \<exists>u. qt_entries t x = Some u \<and> \<not> ru_Updating u}"

definition updating :: "queue_table \<Rightarrow> int set" where
  "updating t = {x. \<exists>u. qt_entries t x = Some u \<and> ru_Updating u}"

lemma acquireNext_none:
  assumes q: "queue_ok q" and head: "uq_heap q = [] \<or> ru_Updating (uq_mem q (uq_heap q ! 0))"
  shows "waiting (uq_abs q) = {}"
proof -
  have "ru_Updating v" if v: "uq.entries q x = Some v" for x v
  proof -
    have "uq.consistent q" "uq.ordered q" using q by (simp_all add: queue_ok_def uq.heap_ok_def)
    from uq.head_least_entry [OF this v] have ne: "uq_heap q \<noteq> []"
      and "\<not> uq_lt (uq_rank v) (uq_rank (uq_contents q (uq_heap q ! 0)))" by auto
    with head show ?thesis by (auto simp: uq_rank_def uq_contents_def split: if_splits)
  qed
  then show ?thesis by (auto simp: waiting_def)
qed

lemma acquireNext_some:
  assumes q: "queue_ok q" and head: "uq_heap q \<noteq> []" "\<not> ru_Updating (uq_mem q (uq_heap q ! 0))"
  obtains repo q' where "acquireNext q = Some (Some repo, q')" and "queue_ok q'"
    and "next_entry (uq_abs q) repo" and "uq_abs q' = spec_start repo (uq_abs q)"
proof -
  let ?a = "uq_heap q ! 0"
  let ?u = "uq_contents q ?a" and ?q1 = "uq_set ?a (ru_Updating_update (\<lambda>_. True)) q"
  let ?repo = "ru_Repo ?u" and ?v = "?u\<lparr>ru_Updating := True\<rparr>"
  have c: "uq.consistent q" and o: "uq.ordered q" using q by (simp_all add: queue_ok_def uq.heap_ok_def)
  have look: "uq_index q (cr_ID ?repo) = Some ?a"
    using c head(1) by (simp add: uq.consistent_def uq_ident_def)
  have facts: "uq_heap ?q1 = uq_heap q" "(\<lambda>b. ru_Index (uq_mem ?q1 b)) = (\<lambda>b. ru_Index (uq_mem q b))"
    "uq_index ?q1 = uq_index q" "uq_contents ?q1 = (uq_contents q)(?a := ?v)" "uq_next ?q1 = uq_next q" "uq_ident ?v = cr_ID ?repo"
    "uq_seq ?q1 = uq_seq q" "uq_notify ?q1 = uq_notify q"
    by (auto simp: uq_contents_def uq_ident_def fun_eq_iff)
  obtain i where i: "uq_position ?q1 ?a = Some i" "queue_ok (uq_Fix ?q1 i)" "uq_contents (uq_Fix ?q1 i) = uq_contents ?q1"
      "uq_abs (uq_Fix ?q1 i) = \<lparr>qt_entries = (uq.entries q)(cr_ID ?repo \<mapsto> ?v), qt_seq = uq_seq q, qt_notify = uq_notify q\<rparr>"
    using uq_Fix_ok [OF q look facts(1-6)] unfolding facts(7,8) by blast
  have e: "uq.entries q (cr_ID ?repo) = Some ?u" using look by (simp add: uq_entries_index)
  have "ru_Repo (uq_mem (uq_Fix ?q1 i) ?a) = ru_Repo (uq_contents (uq_Fix ?q1 i) ?a)" by (simp add: uq_contents_def)
  also have "\<dots> = ?repo" by (simp add: i(3) facts(4))
  finally have "acquireNext q = Some (Some ?repo, uq_Fix ?q1 i)"
    using head i(1) by (simp add: acquireNext_def Let_def)
  moreover have "next_entry (uq_abs q) ?repo"
    unfolding next_entry_def using e head(2) uq.head_least_entry(2) [OF c o] by (auto simp: uq_contents_def)
  moreover have "uq_abs (uq_Fix ?q1 i) = spec_start ?repo (uq_abs q)"
    using i(4) e by (simp add: spec_start_def uq_abs_def)
  ultimately show ?thesis using that i(2) by blast
qed

text \<open>\<open>acquireNext\<close> starts the entry that goes next, and returns nothing only when none waits.\<close>

lemma acquireNext_refines:
  assumes q: "queue_ok q"
  obtains r q' where "acquireNext q = Some (r, q')" and "queue_ok q'"
    and "case r of None \<Rightarrow> q' = q \<and> waiting (uq_abs q) = {}
         | Some repo \<Rightarrow> next_entry (uq_abs q) repo \<and> uq_abs q' = spec_start repo (uq_abs q)"
proof (cases "uq_heap q = [] \<or> ru_Updating (uq_mem q (uq_heap q ! 0))")
  case True
  then have "acquireNext q = Some (None, q)" by (auto simp: acquireNext_def Let_def)
  with that [of None q] q acquireNext_none [OF q True] show ?thesis by simp
next
  case False
  then obtain repo q' where "acquireNext q = Some (Some repo, q')" "queue_ok q'"
    "next_entry (uq_abs q) repo" "uq_abs q' = spec_start repo (uq_abs q)"
    using acquireNext_some [OF q] by blast
  with that [of "Some repo" q'] show ?thesis by simp
qed

section \<open>Properties of the table\<close>

lemma spec_enqueue_notifies:
  "x \<in> waiting (snd (spec_enqueue repo p t)) - waiting t \<Longrightarrow> qt_notify (snd (spec_enqueue repo p t))"
  by (auto simp: spec_enqueue_def waiting_def Let_def split: option.splits if_splits)

lemma spec_enqueue_sets:
  "updating (snd (spec_enqueue repo p t)) = updating t"
  "waiting (snd (spec_enqueue repo p t)) = (if cr_ID repo \<in> updating t then waiting t else insert (cr_ID repo) (waiting t))"
  by (auto simp: spec_enqueue_def waiting_def updating_def Let_def new_repoUpdate_def split: option.splits if_splits)

lemma spec_remove_sets:
  "updating (snd (spec_remove repo True t)) = updating t - {cr_ID repo}"
  "waiting (snd (spec_remove repo True t)) = waiting t"
  "updating (snd (spec_remove repo False t)) = updating t"
  "waiting (snd (spec_remove repo False t)) = waiting t - {cr_ID repo}"
  by (auto simp: spec_remove_def waiting_def updating_def split: option.splits if_splits)

lemma spec_start_sets:
  assumes "next_entry t repo"
  shows "cr_ID repo \<in> waiting t" and "cr_ID repo \<notin> updating t"
    and "waiting (spec_start repo t) = waiting t - {cr_ID repo}"
    and "updating (spec_start repo t) = insert (cr_ID repo) (updating t)"
  using assms by (auto simp: next_entry_def spec_start_def waiting_def updating_def split: if_splits)

lemma finite_waiting: "queue_ok q \<Longrightarrow> finite (waiting (uq_abs q))"
proof -
  assume "queue_ok q"
  then have "uq.consistent q" by (simp add: queue_ok_def uq.heap_ok_def)
  then have "waiting (uq_abs q) \<subseteq> (\<lambda>a. uq_ident (uq_contents q a)) ` set (uq_heap q)"
    by (auto simp: waiting_def uq.entries_iff)
  then show ?thesis using finite_surj by blast
qed

text \<open>
  Sequence numbers are distinct and at most the counter, as long as the counter does not wrap around.
\<close>

definition seq_ok :: "queue_table \<Rightarrow> bool" where
  "seq_ok t \<longleftrightarrow>
     (\<forall>x u. qt_entries t x = Some u \<longrightarrow> ru_Seq u \<le> qt_seq t) \<and>
     (\<forall>x y u v. qt_entries t x = Some u \<longrightarrow> qt_entries t y = Some v \<longrightarrow> ru_Seq u = ru_Seq v \<longrightarrow> x = y)"

lemma word_less_plus_one: "(s :: 64 word) \<noteq> - 1 \<Longrightarrow> r \<le> s \<Longrightarrow> r < s + 1"
proof -
  assume s: "s \<noteq> - 1" and r: "r \<le> s"
  then have "unat s \<noteq> unat (- 1 :: 64 word)" by (metis unsigned_word_eqI)
  moreover have "unat s \<le> unat (- 1 :: 64 word)" by (simp add: word_le_nat_alt [symmetric])
  ultimately have "unat s + 1 < 2 ^ 64" by (simp add: unsigned_minus_1_eq_mask mask_eq_exp_minus_1)
  then have "unat (s + 1) = unat s + 1" by (simp add: unat_word_ariths)
  with r show "r < s + 1" by (simp add: word_less_nat_alt word_le_nat_alt)
qed

lemma seq_ok_upd:
  assumes "seq_ok t" and "qt_seq t \<noteq> - 1" and "ru_Seq u = qt_seq t + 1"
  shows "seq_ok (t\<lparr>qt_entries := (qt_entries t)(x \<mapsto> u), qt_seq := qt_seq t + 1, qt_notify := b\<rparr>)"
proof -
  have "ru_Seq v < qt_seq t + 1" if "qt_entries t y = Some v" for y v
    using that assms(1,2) by (intro word_less_plus_one) (auto simp: seq_ok_def)
  then show ?thesis using assms(1,3) by (fastforce simp: seq_ok_def)
qed

lemma spec_enqueue_seq_ok:
  assumes "seq_ok t" and "qt_seq t \<noteq> - 1"
  shows "seq_ok (snd (spec_enqueue repo p t))"
proof (cases "qt_entries t (cr_ID repo)")
  case None
  then show ?thesis using seq_ok_upd [OF assms] by (simp add: spec_enqueue_def Let_def)
next
  case (Some u)
  have "seq_ok (t\<lparr>qt_entries := (qt_entries t)(cr_ID repo \<mapsto> u\<lparr>ru_Repo := repo\<rparr>)\<rparr>)"
    using assms(1) Some by (auto simp: seq_ok_def split: if_splits)
  with Some assms show ?thesis using seq_ok_upd [OF assms] by (simp add: spec_enqueue_def Let_def)
qed

lemma spec_remove_seq_ok: "seq_ok t \<Longrightarrow> seq_ok (snd (spec_remove repo b t))"
  by (auto simp: spec_remove_def seq_ok_def split: option.splits if_splits)

lemma spec_start_seq_ok: "seq_ok t \<Longrightarrow> seq_ok (spec_start repo t)"
  by (auto simp: spec_start_def seq_ok_def split: if_splits)

text \<open>With distinct sequence numbers the entry that goes next is the only one.\<close>

lemma next_entry_first:
  assumes "seq_ok t" and "next_entry t repo" and "qt_entries t (cr_ID repo) = Some u"
    and "qt_entries t y = Some v" and "\<not> ru_Updating v" and "y \<noteq> cr_ID repo"
  shows "ru_Priority v < ru_Priority u \<or> ru_Priority v = ru_Priority u \<and> ru_Seq u < ru_Seq v"
proof -
  have "\<not> uq_lt (uq_rank v) (uq_rank u)" "\<not> ru_Updating u" using assms(2-4) by (auto simp: next_entry_def)
  moreover have "ru_Seq u \<noteq> ru_Seq v" using assms(1,3,4,6) by (auto simp: seq_ok_def)
  ultimately show ?thesis using assms(5) by (auto simp: uq_rank_def split: if_splits)
qed

end
