(* ===== verification/Update_Schedule.thy ===== *)
theory Update_Schedule
  imports Update_Queue
begin

text \<open>
  The schedule of \<open>internal/repos/scheduler.go\<close>: when each repository is next due for an update,
  kept as a heap of pointers ordered by due time, with an index by repository and one timer for
  the entry that is due first.

  Times are nanoseconds since a fixed origin and durations are nanoseconds. A clock reading is an
  argument of the operation that takes it, one argument for each reading in the order of the code.
  The random source is an argument as well. A timer is the reading at which it was started, the
  delay and whether it has fired; the buffered channel that it writes to is the flag \<open>sc_wakeup\<close>. \<open>None\<close> is a panic.

  Shown here: every operation keeps the heap, the index and the timer consistent; the schedule
  refines a table of entries by repository; and intervals stay within fixed bounds.
\<close>

section \<open>Times and durations\<close>

type_synonym time = int
type_synonym duration = int

abbreviation (input) Nanosecond :: duration where "Nanosecond \<equiv> 1"
abbreviation (input) Millisecond :: duration where "Millisecond \<equiv> 1000000"
abbreviation (input) Second :: duration where "Second \<equiv> 1000000000"
abbreviation (input) Minute :: duration where "Minute \<equiv> 60 * Second"
abbreviation (input) Hour :: duration where "Hour \<equiv> 60 * Minute"

definition wrap64 :: "int \<Rightarrow> int" where
  "wrap64 n = (n + 2 ^ 63) mod 2 ^ 64 - 2 ^ 63"

text \<open>The difference of two times saturates at the largest and the smallest duration.\<close>

definition time_Sub :: "time \<Rightarrow> time \<Rightarrow> duration" where
  "time_Sub t u = max (- (2 ^ 63)) (min (2 ^ 63 - 1) (t - u))"

text \<open>\<open>Int63n\<close> panics unless its argument is positive; \<open>r\<close> stands for the random source.\<close>

definition Int63n :: "int \<Rightarrow> int \<Rightarrow> int option" where
  "Int63n r n = (if n \<le> 0 then None else Some (r mod n))"

definition minDelay :: duration where "minDelay = 45 * Second"

definition maxDelay :: duration where "maxDelay = 8 * Hour"

section \<open>Data\<close>

record scheduledRepoUpdate =
  su_Repo :: configuredRepo
  su_Interval :: duration
  su_Due :: time
  su_Index :: int

record timer =
  tm_start :: time
  tm_delay :: duration
  tm_fired :: bool

record schedule =
  sc_mem :: "nat \<Rightarrow> scheduledRepoUpdate"
  sc_next :: nat
  sc_heap :: "nat list"
  sc_index :: "int \<rightharpoonup> nat"
  sc_timer :: "timer option"
  sc_wakeup :: bool

record MinimalRepo =
  mr_ID :: int
  mr_Name :: string
  mr_Stars :: int

definition new_scheduledRepoUpdate :: "configuredRepo \<Rightarrow> duration \<Rightarrow> time \<Rightarrow> scheduledRepoUpdate" where
  "new_scheduledRepoUpdate repo interval due =
     \<lparr>su_Repo = repo, su_Interval = interval, su_Due = due, su_Index = 0\<rparr>"

definition new_schedule :: schedule where
  "new_schedule =
     \<lparr>sc_mem = (\<lambda>_. new_scheduledRepoUpdate zero_repo 0 0), sc_next = 0, sc_heap = [], sc_index = Map.empty,
      sc_timer = None, sc_wakeup = False\<rparr>"

section \<open>Methods of \<open>heap.Interface\<close>\<close>

definition sc_set :: "nat \<Rightarrow> (scheduledRepoUpdate \<Rightarrow> scheduledRepoUpdate) \<Rightarrow> schedule \<Rightarrow> schedule" where
  "sc_set a f s = s\<lparr>sc_mem := (sc_mem s)(a := f (sc_mem s a))\<rparr>"

definition sc_Len :: "schedule \<Rightarrow> nat" where
  "sc_Len s = length (sc_heap s)"

definition sc_Less :: "schedule \<Rightarrow> nat \<Rightarrow> nat \<Rightarrow> bool" where
  "sc_Less s i j \<longleftrightarrow> su_Due (sc_mem s (sc_heap s ! i)) < su_Due (sc_mem s (sc_heap s ! j))"

definition sc_Swap :: "nat \<Rightarrow> nat \<Rightarrow> schedule \<Rightarrow> schedule" where
  "sc_Swap i j s =
     (let s1 = s\<lparr>sc_heap := (sc_heap s)[i := sc_heap s ! j, j := sc_heap s ! i]\<rparr>;
          s2 = sc_set (sc_heap s1 ! i) (su_Index_update (\<lambda>_. int i)) s1
      in sc_set (sc_heap s2 ! j) (su_Index_update (\<lambda>_. int j)) s2)"

definition sc_Push :: "nat \<Rightarrow> schedule \<Rightarrow> schedule" where
  "sc_Push a s =
     (let n = length (sc_heap s);
          s1 = sc_set a (su_Index_update (\<lambda>_. int n)) s
      in s1\<lparr>sc_heap := sc_heap s1 @ [a], sc_index := (sc_index s1)(cr_ID (su_Repo (sc_mem s1 a)) \<mapsto> a)\<rparr>)"

definition sc_Pop :: "schedule \<Rightarrow> schedule" where
  "sc_Pop s =
     (let n = length (sc_heap s);
          a = sc_heap s ! (n - 1);
          s1 = sc_set a (su_Index_update (\<lambda>_. - 1)) s
      in s1\<lparr>sc_heap := take (n - 1) (sc_heap s1), sc_index := (sc_index s1)(cr_ID (su_Repo (sc_mem s1 a)) := None)\<rparr>)"

abbreviation "sc_Fix \<equiv> heap_Fix sc_Len sc_Less sc_Swap"
abbreviation "sc_heap_Push a \<equiv> heap_Push sc_Len sc_Less sc_Swap (sc_Push a)"
abbreviation "sc_heap_Remove \<equiv> heap_Remove sc_Len sc_Less sc_Swap sc_Pop"

text \<open>\<open>heap.Push\<close> of a newly allocated element.\<close>

definition sc_push_new :: "scheduledRepoUpdate \<Rightarrow> schedule \<Rightarrow> schedule" where
  "sc_push_new u s =
     (let a = sc_next s in sc_heap_Push a ((sc_set a (\<lambda>_. u) s)\<lparr>sc_next := a + 1\<rparr>))"

text \<open>\<open>heap.Fix\<close> and \<open>heap.Remove\<close> at the position stored in an element.\<close>

definition sc_position :: "schedule \<Rightarrow> nat \<Rightarrow> nat option" where
  "sc_position s a =
     (let i = su_Index (sc_mem s a) in if 0 \<le> i \<and> i < int (sc_Len s) then Some (nat i) else None)"

definition sc_fix_at :: "nat \<Rightarrow> schedule \<Rightarrow> schedule option" where
  "sc_fix_at a s = map_option (sc_Fix s) (sc_position s a)"

definition sc_remove_at :: "nat \<Rightarrow> schedule \<Rightarrow> schedule option" where
  "sc_remove_at a s = map_option (sc_heap_Remove s) (sc_position s a)"

section \<open>Operations\<close>

definition rescheduleTimer :: "time \<Rightarrow> schedule \<Rightarrow> schedule" where
  "rescheduleTimer now s =
     (let s1 = s\<lparr>sc_timer := None\<rparr> in
      if length (sc_heap s1) > 0
      then s1\<lparr>sc_timer := Some \<lparr>tm_start = now, tm_delay = time_Sub (su_Due (sc_mem s1 (sc_heap s1 ! 0))) now, tm_fired = False\<rparr>\<rparr>
      else s1)"

definition timer_fires :: "schedule \<Rightarrow> schedule" where
  "timer_fires s = s\<lparr>sc_timer := map_option (tm_fired_update (\<lambda>_. True)) (sc_timer s), sc_wakeup := True\<rparr>"

definition sc_reset :: "schedule \<Rightarrow> schedule" where
  "sc_reset s = s\<lparr>sc_heap := [], sc_index := Map.empty, sc_wakeup := False, sc_timer := None\<rparr>"

definition sc_upsert :: "configuredRepo \<Rightarrow> time \<Rightarrow> time \<Rightarrow> schedule \<Rightarrow> (bool \<times> schedule) option" where
  "sc_upsert repo now1 now2 s =
     (if cr_ID repo = 0 then None
      else case sc_index s (cr_ID repo) of
        Some a \<Rightarrow> Some (True, sc_set a (su_Repo_update (\<lambda>_. repo)) s)
      | None \<Rightarrow>
          Some (False, rescheduleTimer now2 (sc_push_new (new_scheduledRepoUpdate repo minDelay (now1 + minDelay)) s)))"

fun prioritise_loop :: "time \<Rightarrow> MinimalRepo list \<Rightarrow> bool \<Rightarrow> schedule \<Rightarrow> (bool \<times> schedule) option" where
  "prioritise_loop due [] resched s = Some (resched, s)"
| "prioritise_loop due (r # rs) resched s =
     (case sc_index s (mr_ID r) of
        None \<Rightarrow>
          prioritise_loop due rs True
            (sc_push_new (new_scheduledRepoUpdate \<lparr>cr_ID = mr_ID r, cr_Name = mr_Name r\<rparr> minDelay due) s)
      | Some a \<Rightarrow>
          if su_Due (sc_mem s a) > due then
            (case sc_fix_at a (sc_set a (su_Due_update (\<lambda>_. due)) s) of
               None \<Rightarrow> None
             | Some s' \<Rightarrow> prioritise_loop due rs True s')
          else prioritise_loop due rs resched s)"

definition prioritiseUncloned :: "MinimalRepo list \<Rightarrow> time \<Rightarrow> time \<Rightarrow> schedule \<Rightarrow> schedule option" where
  "prioritiseUncloned uncloned now1 now2 s =
     (case prioritise_loop (now1 + minDelay) uncloned False s of
        None \<Rightarrow> None
      | Some (resched, s') \<Rightarrow> Some (if resched then rescheduleTimer now2 s' else s'))"

fun insertNew_loop :: "time \<Rightarrow> configuredRepo list \<Rightarrow> bool \<Rightarrow> schedule \<Rightarrow> bool \<times> schedule" where
  "insertNew_loop due [] resched s = (resched, s)"
| "insertNew_loop due (repo # repos) resched s =
     (case sc_index s (cr_ID repo) of
        Some _ \<Rightarrow> insertNew_loop due repos resched s
      | None \<Rightarrow> insertNew_loop due repos True (sc_push_new (new_scheduledRepoUpdate repo minDelay due) s))"

definition insertNew :: "MinimalRepo list \<Rightarrow> time \<Rightarrow> time \<Rightarrow> schedule \<Rightarrow> schedule" where
  "insertNew repos now1 now2 s =
     (let configuredRepos = map (\<lambda>r. \<lparr>cr_ID = mr_ID r, cr_Name = mr_Name r\<rparr>) repos;
          (resched, s') = insertNew_loop (now1 + minDelay) configuredRepos False s
      in if resched then rescheduleTimer now2 s' else s')"

definition clampInterval :: "duration \<Rightarrow> duration" where
  "clampInterval interval =
     (if interval > maxDelay then maxDelay else if interval < minDelay then minDelay else interval)"

definition jitterInterval :: "int \<Rightarrow> duration \<Rightarrow> duration option" where
  "jitterInterval r interval =
     (let delta = interval div 20 in
      case Int63n r (wrap64 (2 * delta)) of None \<Rightarrow> None | Some n \<Rightarrow> Some (wrap64 (interval + (n - delta))))"

definition updateInterval ::
    "configuredRepo \<Rightarrow> duration \<Rightarrow> int \<Rightarrow> time \<Rightarrow> time \<Rightarrow> schedule \<Rightarrow> schedule option" where
  "updateInterval repo interval r now1 now2 s =
     (if cr_ID repo = 0 then None
      else case sc_index s (cr_ID repo) of
        None \<Rightarrow> Some s
      | Some a \<Rightarrow>
          (case jitterInterval r (clampInterval interval) of
             None \<Rightarrow> None
           | Some i \<Rightarrow>
               (let s1 = sc_set a (su_Interval_update (\<lambda>_. i)) s;
                    s2 = sc_set a (su_Due_update (\<lambda>_. now1 + su_Interval (sc_mem s1 a))) s1
                in map_option (rescheduleTimer now2) (sc_fix_at a s2))))"

definition getCurrentInterval :: "configuredRepo \<Rightarrow> schedule \<Rightarrow> duration \<times> bool" where
  "getCurrentInterval repo s =
     (case sc_index s (cr_ID repo) of None \<Rightarrow> (0, False) | Some a \<Rightarrow> (su_Interval (sc_mem s a), True))"

definition sc_remove :: "configuredRepo \<Rightarrow> time \<Rightarrow> schedule \<Rightarrow> (bool \<times> schedule) option" where
  "sc_remove repo now s =
     (if cr_ID repo = 0 then None
      else case sc_index s (cr_ID repo) of
        None \<Rightarrow> Some (False, s)
      | Some a \<Rightarrow>
          (let reschedule = (su_Index (sc_mem s a) = 0) in
           case sc_remove_at a s of
             None \<Rightarrow> None
           | Some s' \<Rightarrow> Some (True, if reschedule then rescheduleTimer now s' else s')))"

section \<open>The schedule as an indexed heap\<close>

text \<open>The contents of an element, without the position.\<close>

definition sc_contents :: "schedule \<Rightarrow> nat \<Rightarrow> scheduledRepoUpdate" where
  "sc_contents s a = (sc_mem s a)\<lparr>su_Index := 0\<rparr>"

definition sc_keys :: "schedule \<Rightarrow> time list" where
  "sc_keys s = map (\<lambda>a. su_Due (sc_contents s a)) (sc_heap s)"

definition su_ident :: "scheduledRepoUpdate \<Rightarrow> int" where
  "su_ident u = cr_ID (su_Repo u)"

lemma sc_set_simps [simp]:
  "sc_heap (sc_set a f s) = sc_heap s" "sc_index (sc_set a f s) = sc_index s"
  "sc_next (sc_set a f s) = sc_next s" "sc_timer (sc_set a f s) = sc_timer s"
  "sc_wakeup (sc_set a f s) = sc_wakeup s"
  "sc_mem (sc_set a f s) = (sc_mem s)(a := f (sc_mem s a))"
  by (simp_all add: sc_set_def)

lemma sc_Swap_simps:
  "sc_heap (sc_Swap i j s) = list_swap (sc_heap s) i j"
  "sc_index (sc_Swap i j s) = sc_index s" "sc_next (sc_Swap i j s) = sc_next s"
  "sc_timer (sc_Swap i j s) = sc_timer s" "sc_wakeup (sc_Swap i j s) = sc_wakeup s"
  "sc_contents (sc_Swap i j s) = sc_contents s"
  by (auto simp: sc_Swap_def Let_def list_swap_def sc_contents_def fun_eq_iff)

lemma sc_Swap_Index:
  assumes "i < length (sc_heap s)" "j < length (sc_heap s)" "i \<noteq> j" "sc_heap s ! i \<noteq> sc_heap s ! j"
  shows "(\<lambda>a. su_Index (sc_mem (sc_Swap i j s) a)) =
           (\<lambda>a. su_Index (sc_mem s a))(sc_heap s ! j := int i, sc_heap s ! i := int j)"
  using assms by (auto simp: sc_Swap_def Let_def fun_eq_iff nth_list_update)

lemma sc_Pop_simps:
  assumes "sc_heap s \<noteq> []"
  shows "sc_heap (sc_Pop s) = butlast (sc_heap s)" "sc_next (sc_Pop s) = sc_next s"
    "sc_timer (sc_Pop s) = sc_timer s" "sc_wakeup (sc_Pop s) = sc_wakeup s" "sc_contents (sc_Pop s) = sc_contents s"
    "a \<noteq> last (sc_heap s) \<Longrightarrow> su_Index (sc_mem (sc_Pop s) a) = su_Index (sc_mem s a)"
    "sc_index (sc_Pop s) = (sc_index s)(su_ident (sc_contents s (last (sc_heap s))) := None)"
  using assms by (auto simp: sc_Pop_def Let_def sc_contents_def su_ident_def fun_eq_iff butlast_conv_take last_conv_nth)

interpretation sc: pointer_heap "(<) :: time \<Rightarrow> time \<Rightarrow> bool" sc_keys sc_Less sc_Swap sc_heap "\<lambda>s a. su_Index (sc_mem s a)"
  sc_contents sc_index "\<lambda>s. (sc_next s, sc_timer s, sc_wakeup s)" su_ident su_Due sc_Len sc_Pop
proof
  show "i < length (sc_keys s) \<Longrightarrow> j < length (sc_keys s) \<Longrightarrow> sc_Less s i j \<longleftrightarrow> sc_keys s ! i < sc_keys s ! j" for i s j
    by (simp add: sc_Less_def sc_keys_def sc_contents_def)
  show "i < length (sc_keys s) \<Longrightarrow> j < length (sc_keys s) \<Longrightarrow>
      sc_keys (sc_Swap i j s) = list_swap (sc_keys s) i j" for i s j
    by (simp add: sc_keys_def sc_Swap_simps map_list_swap)
qed (auto simp: sc_keys_def sc_Swap_simps sc_Swap_Index sc_Len_def sc_Pop_simps)

text \<open>
  The timer is set for the entry that is due first, and there is one exactly when there is an entry.
\<close>

definition timer_ok :: "schedule \<Rightarrow> bool" where
  "timer_ok s \<longleftrightarrow>
     (case sc_timer s of
        None \<Rightarrow> sc_heap s = []
      | Some t \<Rightarrow> sc_heap s \<noteq> [] \<and> tm_delay t = time_Sub (su_Due (sc_contents s (sc_heap s ! 0))) (tm_start t))"

definition heap_part_ok :: "schedule \<Rightarrow> bool" where
  "heap_part_ok s \<longleftrightarrow> sc.heap_ok s \<and> (\<forall>a \<in> set (sc_heap s). a < sc_next s)"

definition schedule_ok :: "schedule \<Rightarrow> bool" where
  "schedule_ok s \<longleftrightarrow> heap_part_ok s \<and> timer_ok s"

lemma new_schedule_ok: "schedule_ok new_schedule"
  by (simp add: schedule_ok_def heap_part_ok_def timer_ok_def sc.heap_ok_def sc.consistent_def sc.ordered_def
      heap_ordered_def new_schedule_def)

lemma sc_reset_ok: "schedule_ok (sc_reset s)" "sc.entries (sc_reset s) = Map.empty"
  by (simp_all add: schedule_ok_def heap_part_ok_def timer_ok_def sc.heap_ok_def sc.consistent_def sc.ordered_def
      heap_ordered_def sc_reset_def sc.entries_def fun_eq_iff)

lemma sc_frame_change:
  assumes "sc_heap s' = sc_heap s" "sc_index s' = sc_index s" "sc_mem s' = sc_mem s" "sc_next s' = sc_next s"
  shows "heap_part_ok s' = heap_part_ok s" "sc.entries s' = sc.entries s" "sc_contents s' = sc_contents s"
proof -
  show c: "sc_contents s' = sc_contents s" by (simp add: sc_contents_def assms fun_eq_iff)
  show "heap_part_ok s' = heap_part_ok s" "sc.entries s' = sc.entries s"
    by (simp_all add: heap_part_ok_def sc.heap_ok_def sc.consistent_def sc.ordered_def sc_keys_def sc.entries_def assms c)
qed

lemma rescheduleTimer_simps [simp]:
  "sc_heap (rescheduleTimer now s) = sc_heap s" "sc_index (rescheduleTimer now s) = sc_index s"
  "sc_mem (rescheduleTimer now s) = sc_mem s" "sc_next (rescheduleTimer now s) = sc_next s"
  "sc_wakeup (rescheduleTimer now s) = sc_wakeup s"
  by (simp_all add: rescheduleTimer_def Let_def)

lemma rescheduleTimer_ok:
  "heap_part_ok s \<Longrightarrow> schedule_ok (rescheduleTimer now s)" "sc.entries (rescheduleTimer now s) = sc.entries s"
proof -
  note same = sc_frame_change [of "rescheduleTimer now s" s, simplified]
  show "sc.entries (rescheduleTimer now s) = sc.entries s" by (rule same(2))
  assume "heap_part_ok s"
  moreover have "timer_ok (rescheduleTimer now s)" by (simp add: timer_ok_def rescheduleTimer_def Let_def sc_contents_def)
  ultimately show "schedule_ok (rescheduleTimer now s)" by (simp add: schedule_ok_def same(1))
qed

text \<open>Neither a wakeup nor a timer that has fired is lost: a changed timer is a new one.\<close>

definition wake_kept :: "schedule \<Rightarrow> schedule \<Rightarrow> bool" where
  "wake_kept s s' \<longleftrightarrow>
     sc_wakeup s' = sc_wakeup s \<and> (sc_timer s' = sc_timer s \<or> (\<forall>t. sc_timer s' = Some t \<longrightarrow> \<not> tm_fired t))"

lemma wake_kept_refl: "sc_timer s' = sc_timer s \<Longrightarrow> sc_wakeup s' = sc_wakeup s \<Longrightarrow> wake_kept s s'"
  by (simp add: wake_kept_def)

lemma rescheduleTimer_wake: "sc_wakeup s' = sc_wakeup s \<Longrightarrow> wake_kept s (rescheduleTimer now s')"
  by (simp add: wake_kept_def) (simp add: rescheduleTimer_def Let_def)

lemma heap_part_ok_same:
  assumes "sc.heap_ok t" and "sc.same_contents s t" and "\<forall>a \<in> set (sc_heap s). a < sc_next s"
  shows "heap_part_ok t"
  using assms sc.same_contents_set [OF assms(2)] by (simp add: heap_part_ok_def sc.same_contents_def)

lemma sc_push_new_ok:
  assumes s: "heap_part_ok s" and x: "sc_index s (cr_ID (su_Repo u)) = None" and u: "su_Index u = 0"
  shows "heap_part_ok (sc_push_new u s)" and "sc.entries (sc_push_new u s) = (sc.entries s)(cr_ID (su_Repo u) \<mapsto> u)"
    and "sc_timer (sc_push_new u s) = sc_timer s" and "sc_wakeup (sc_push_new u s) = sc_wakeup s"
proof -
  let ?a = "sc_next s"
  let ?s1 = "(sc_set ?a (\<lambda>_. u) s)\<lparr>sc_next := ?a + 1\<rparr>"
  let ?s2 = "sc_Push ?a ?s1"
  have fresh: "?a \<notin> set (sc_heap s)" "sc.heap_ok s" "\<forall>b \<in> set (sc_heap s). b < ?a"
    using s by (auto simp: heap_part_ok_def)
  have s2: "sc_heap ?s2 = sc_heap s @ [?a]"
    "(\<lambda>b. su_Index (sc_mem ?s2 b)) = (\<lambda>b. su_Index (sc_mem s b))(?a := int (length (sc_heap s)))"
    "sc_index ?s2 = (sc_index s)(cr_ID (su_Repo u) \<mapsto> ?a)" "sc_contents ?s2 = (sc_contents s)(?a := u)"
    "su_ident u = cr_ID (su_Repo u)" "sc_next ?s2 = ?a + 1" "sc_timer ?s2 = sc_timer s" "sc_wakeup ?s2 = sc_wakeup s"
    using u by (auto simp: sc_Push_def Let_def sc_contents_def su_ident_def fun_eq_iff)
  have t: "sc_push_new u s = heap_up sc_Less sc_Swap ?s2 (sc_Len ?s2 - 1)" by (simp add: sc_push_new_def heap_Push_def Let_def)
  note push = sc.Push_entry [OF fresh(2) x fresh(1) s2(1-5), folded t]
  have "\<forall>b \<in> set (sc_heap ?s2). b < sc_next ?s2" unfolding s2 using fresh(3) by auto
  from heap_part_ok_same [OF push(1,2) this] show "heap_part_ok (sc_push_new u s)" .
  show "sc.entries (sc_push_new u s) = (sc.entries s)(cr_ID (su_Repo u) \<mapsto> u)" by (rule push(3))
  show "sc_timer (sc_push_new u s) = sc_timer s" "sc_wakeup (sc_push_new u s) = sc_wakeup s"
    using push(2) s2(7,8) by (simp_all add: sc.same_contents_def)
qed

lemma sc_fix_at_ok:
  assumes s: "heap_part_ok s" and a: "sc_index s x = Some a"
    and s': "sc_heap s' = sc_heap s" "(\<lambda>b. su_Index (sc_mem s' b)) = (\<lambda>b. su_Index (sc_mem s b))"
      "sc_index s' = sc_index s" "sc_contents s' = (sc_contents s)(a := v)" "sc_next s' = sc_next s"
    and v: "su_ident v = x"
  obtains t where "sc_fix_at a s' = Some t" and "heap_part_ok t" and "sc.entries t = (sc.entries s)(x \<mapsto> v)"
    and "sc_timer t = sc_timer s'" and "sc_wakeup t = sc_wakeup s'"
proof (rule sc.Fix_entry [OF _ a s'(1-4) v])
  show "sc.heap_ok s" using s by (simp add: heap_part_ok_def)
next
  fix i
  let ?t = "sc_Fix s' i"
  assume i: "su_Index (sc_mem s' a) = int i" "i < sc_Len s'" and ok: "sc.heap_ok ?t" "sc.same_contents s' ?t"
    and e: "sc.entries ?t = (sc.entries s)(x \<mapsto> v)"
  have "sc_fix_at a s' = Some ?t" using i by (simp add: sc_fix_at_def sc_position_def)
  moreover have "heap_part_ok ?t" using heap_part_ok_same [OF ok] s s' by (simp add: heap_part_ok_def)
  ultimately show ?thesis using that e ok(2) by (simp add: sc.same_contents_def)
qed

lemma sc_remove_at_ok:
  assumes s: "heap_part_ok s" and a: "sc_index s x = Some a"
  obtains t where "sc_remove_at a s = Some t" and "heap_part_ok t" and "sc.entries t = (sc.entries s)(x := None)"
    and "sc_timer t = sc_timer s" and "sc_wakeup t = sc_wakeup s"
proof (rule sc.lookup_position [OF _ a])
  show "sc.consistent s" using s by (simp add: heap_part_ok_def sc.heap_ok_def)
next
  fix i
  assume i: "i < length (sc_heap s)" "sc_heap s ! i = a" "su_Index (sc_mem s a) = int i" "su_ident (sc_contents s a) = x"
  have ok: "sc.heap_ok s" "i < sc_Len s" using s i(1) by (simp_all add: heap_part_ok_def sc_Len_def)
  note rem = sc.Remove_entry [OF ok]
  have "sc_remove_at a s = Some (sc_heap_Remove s i)" using i by (simp add: sc_remove_at_def sc_position_def sc_Len_def)
  moreover have "heap_part_ok (sc_heap_Remove s i)" using rem(1,3,4) s by (auto simp: heap_part_ok_def)
  ultimately show ?thesis using that rem(2,3) i(2,4) by simp
qed

section \<open>The schedule as a table\<close>

text \<open>The time of the entry that is due first.\<close>

definition first_due :: "(int \<rightharpoonup> scheduledRepoUpdate) \<Rightarrow> time \<Rightarrow> bool" where
  "first_due e d \<longleftrightarrow> (\<exists>x u. e x = Some u \<and> su_Due u = d) \<and> (\<forall>y v. e y = Some v \<longrightarrow> d \<le> su_Due v)"

lemma head_entry:
  assumes "heap_part_ok s" and "sc_heap s \<noteq> []"
  defines "u \<equiv> sc_contents s (sc_heap s ! 0)"
  shows "sc_index s (cr_ID (su_Repo u)) = Some (sc_heap s ! 0)" and "sc.entries s (cr_ID (su_Repo u)) = Some u"
    and "\<And>y v. sc.entries s y = Some v \<Longrightarrow> su_Due u \<le> su_Due v"
proof -
  have c: "sc.consistent s" "sc.ordered s" using assms(1) by (simp_all add: heap_part_ok_def sc.heap_ok_def)
  show i: "sc_index s (cr_ID (su_Repo u)) = Some (sc_heap s ! 0)"
    using c(1) assms(2) by (simp add: sc.consistent_def su_ident_def u_def)
  then show "sc.entries s (cr_ID (su_Repo u)) = Some u" by (simp add: sc.entries_def u_def)
  show "su_Due u \<le> su_Due v" if "sc.entries s y = Some v" for y v
    using sc.head_least_entry(2) [OF c that] by (simp add: u_def)
qed

lemma heap_empty_iff:
  assumes "heap_part_ok s"
  shows "sc_heap s = [] \<longleftrightarrow> sc.entries s = Map.empty"
proof
  assume "sc_heap s = []"
  then have "sc.entries s x \<noteq> Some u" for x u
    using assms by (simp add: sc.entries_iff heap_part_ok_def sc.heap_ok_def)
  then show "sc.entries s = Map.empty" by (metis ext option.exhaust)
qed (use head_entry(2) [OF assms] in auto)

lemma first_due_head:
  assumes "heap_part_ok s" and "sc_heap s \<noteq> []"
  shows "first_due (sc.entries s) d \<longleftrightarrow> d = su_Due (sc_contents s (sc_heap s ! 0))"
  unfolding first_due_def using head_entry(2,3) [OF assms] by (metis order_antisym)

text \<open>The condition on the timer depends on the table only.\<close>

lemma timer_ok_table:
  assumes "heap_part_ok s"
  shows "timer_ok s \<longleftrightarrow>
    (case sc_timer s of
       None \<Rightarrow> sc.entries s = Map.empty
     | Some t \<Rightarrow> (\<exists>d. first_due (sc.entries s) d \<and> tm_delay t = time_Sub d (tm_start t)))"
proof -
  have "sc_heap s \<noteq> []" if "first_due (sc.entries s) d" for d
    using that heap_empty_iff [OF assms] by (auto simp: first_due_def)
  then show ?thesis
    using heap_empty_iff [OF assms] first_due_head [OF assms] by (auto simp: timer_ok_def split: option.splits)
qed

lemma sc_entries_index: "sc.entries s x = map_option (sc_contents s) (sc_index s x)"
  by (simp add: sc.entries_def)

definition spec_upsert :: "configuredRepo \<Rightarrow> time \<Rightarrow> (int \<rightharpoonup> scheduledRepoUpdate) \<Rightarrow> (int \<rightharpoonup> scheduledRepoUpdate)" where
  "spec_upsert repo due e =
     (case e (cr_ID repo) of
        None \<Rightarrow> e(cr_ID repo \<mapsto> new_scheduledRepoUpdate repo minDelay due)
      | Some u \<Rightarrow> e(cr_ID repo \<mapsto> u\<lparr>su_Repo := repo\<rparr>))"

lemma new_scheduledRepoUpdate_simps [simp]:
  "su_Index (new_scheduledRepoUpdate repo i d) = 0" "su_Repo (new_scheduledRepoUpdate repo i d) = repo"
  "su_Interval (new_scheduledRepoUpdate repo i d) = i" "su_Due (new_scheduledRepoUpdate repo i d) = d"
  by (simp_all add: new_scheduledRepoUpdate_def)

lemma sc_set_Repo_ok:
  assumes s: "schedule_ok s" and a: "sc_index s (cr_ID repo) = Some a"
  shows "schedule_ok (sc_set a (su_Repo_update (\<lambda>_. repo)) s)"
    and "sc.entries (sc_set a (su_Repo_update (\<lambda>_. repo)) s) = (sc.entries s)(cr_ID repo \<mapsto> (sc_contents s a)\<lparr>su_Repo := repo\<rparr>)"
proof -
  let ?s = "sc_set a (su_Repo_update (\<lambda>_. repo)) s"
  have c: "sc.consistent s" using s by (simp add: schedule_ok_def heap_part_ok_def sc.heap_ok_def)
  have con: "sc_contents ?s = (sc_contents s)(a := (sc_contents s a)\<lparr>su_Repo := repo\<rparr>)"
    by (auto simp: sc_contents_def fun_eq_iff)
  moreover have "(\<lambda>b. su_Index (sc_mem ?s b)) = (\<lambda>b. su_Index (sc_mem s b))" by auto
  ultimately have upd: "sc.consistent ?s" "sc.entries ?s = (sc.entries s)(cr_ID repo \<mapsto> (sc_contents s a)\<lparr>su_Repo := repo\<rparr>)"
    using sc.update_ok [OF c a] by (simp_all add: su_ident_def)
  have due: "su_Due (sc_contents ?s b) = su_Due (sc_contents s b)" for b by (simp add: con)
  then have "sc_keys ?s = sc_keys s" by (simp add: sc_keys_def)
  with s upd(1) due show "schedule_ok ?s"
    by (simp add: schedule_ok_def heap_part_ok_def sc.heap_ok_def sc.ordered_def timer_ok_def split: option.splits)
  show "sc.entries ?s = (sc.entries s)(cr_ID repo \<mapsto> (sc_contents s a)\<lparr>su_Repo := repo\<rparr>)" by (rule upd(2))
qed

lemma sc_upsert_refines:
  assumes s: "schedule_ok s" and repo: "cr_ID repo \<noteq> 0"
  obtains s' where "sc_upsert repo now1 now2 s = Some (cr_ID repo \<in> dom (sc.entries s), s')" and "schedule_ok s'"
    and "sc.entries s' = spec_upsert repo (now1 + minDelay) (sc.entries s)" and "wake_kept s s'"
proof (cases "sc_index s (cr_ID repo)")
  case None
  have h: "heap_part_ok s" using s by (simp add: schedule_ok_def)
  note push = sc_push_new_ok [OF h, of "new_scheduledRepoUpdate repo minDelay (now1 + minDelay)", simplified, OF None]
  have e: "sc.entries s (cr_ID repo) = None" using None by (simp add: sc_entries_index)
  show ?thesis
    using that [OF _ rescheduleTimer_ok(1) [OF push(1), of now2]] None repo e push(2) rescheduleTimer_wake [OF push(4)]
    by (simp add: sc_upsert_def spec_upsert_def rescheduleTimer_ok(2) domIff)
next
  case (Some a)
  note ok = sc_set_Repo_ok [OF s Some]
  show ?thesis
    using that [OF _ ok(1)] Some repo ok(2) by (simp add: sc_upsert_def spec_upsert_def sc_entries_index domIff wake_kept_def)
qed

text \<open>\<open>remove\<close> restarts the timer only if it removes the first entry.\<close>

lemma sc_remove_refines:
  assumes s: "schedule_ok s" and repo: "cr_ID repo \<noteq> 0"
  obtains s' where "sc_remove repo now s = Some (cr_ID repo \<in> dom (sc.entries s), s')" and "schedule_ok s'"
    and "sc.entries s' = (sc.entries s)(cr_ID repo := None)" and "wake_kept s s'"
proof (cases "sc_index s (cr_ID repo)")
  case None
  then show ?thesis using that [OF _ s] repo by (simp add: sc_remove_def sc_entries_index domIff fun_upd_idem wake_kept_def)
next
  case (Some a)
  have h: "heap_part_ok s" and c: "sc.consistent s" using s by (simp_all add: schedule_ok_def heap_part_ok_def sc.heap_ok_def)
  obtain t where t: "sc_remove_at a s = Some t" "heap_part_ok t" "sc.entries t = (sc.entries s)(cr_ID repo := None)"
      "sc_timer t = sc_timer s" "sc_wakeup t = sc_wakeup s"
    by (rule sc_remove_at_ok [OF h Some])
  have dom: "cr_ID repo \<in> dom (sc.entries s)" using Some by (simp add: sc_entries_index domIff)
  show ?thesis
  proof (cases "su_Index (sc_mem s a) = 0")
    case True
    then show ?thesis
      using that [OF _ rescheduleTimer_ok(1) [OF t(2), of now]] Some t(1,3) repo dom rescheduleTimer_wake [OF t(5)]
      by (simp add: sc_remove_def rescheduleTimer_ok(2))
  next
    case False
    obtain i where i: "i < length (sc_heap s)" "sc_heap s ! i = a" "su_Index (sc_mem s a) = int i"
      using sc.lookup_position [OF c Some] by blast
    let ?u = "sc_contents s (sc_heap s ! 0)"
    have "sc_heap s \<noteq> []" using i(1) by auto
    moreover from this have "sc_heap s ! 0 \<noteq> a"
      using i False c nth_eq_iff_index_eq [of "sc_heap s" 0 i] by (simp add: sc.consistent_def)
    ultimately have ne: "sc_heap s \<noteq> []" "sc_heap s ! 0 \<noteq> a" .
    have "cr_ID (su_Repo ?u) \<noteq> cr_ID repo" using head_entry(1) [OF h ne(1)] Some ne(2) by auto
    with head_entry(2,3) [OF h ne(1)] have "first_due (sc.entries t) (su_Due ?u)"
      by (auto simp: t(3) first_due_def split: if_splits)
    then have "timer_ok t" using s t(2,4) ne(1) timer_ok_table [OF t(2)] by (auto simp: schedule_ok_def timer_ok_def split: option.splits)
    with t(2) have "schedule_ok t" by (simp add: schedule_ok_def)
    then show ?thesis using that [of t] Some t(1,3) repo dom False wake_kept_refl [OF t(4,5)] by (simp add: sc_remove_def)
  qed
qed

text \<open>What one repository of the list does to the table.\<close>

definition spec_prioritise :: "time \<Rightarrow> MinimalRepo \<Rightarrow> (int \<rightharpoonup> scheduledRepoUpdate) \<Rightarrow> (int \<rightharpoonup> scheduledRepoUpdate)" where
  "spec_prioritise due r e =
     e(mr_ID r \<mapsto> (case e (mr_ID r) of
        None \<Rightarrow> new_scheduledRepoUpdate \<lparr>cr_ID = mr_ID r, cr_Name = mr_Name r\<rparr> minDelay due
      | Some u \<Rightarrow> u\<lparr>su_Due := min (su_Due u) due\<rparr>))"

definition spec_insert :: "time \<Rightarrow> configuredRepo \<Rightarrow> (int \<rightharpoonup> scheduledRepoUpdate) \<Rightarrow> (int \<rightharpoonup> scheduledRepoUpdate)" where
  "spec_insert due repo e =
     (if cr_ID repo \<in> dom e then e else e(cr_ID repo \<mapsto> new_scheduledRepoUpdate repo minDelay due))"

lemma sc_set_Due_ok:
  assumes s: "heap_part_ok s" and a: "sc_index s x = Some a"
  obtains t where "sc_fix_at a (sc_set a (su_Due_update (\<lambda>_. d)) s) = Some t" and "heap_part_ok t"
    and "sc.entries t = (sc.entries s)(x \<mapsto> (sc_contents s a)\<lparr>su_Due := d\<rparr>)" and "sc_timer t = sc_timer s"
    and "sc_wakeup t = sc_wakeup s"
proof -
  let ?s = "sc_set a (su_Due_update (\<lambda>_. d)) s" and ?v = "(sc_contents s a)\<lparr>su_Due := d\<rparr>"
  have c: "sc.consistent s" using s by (simp add: heap_part_ok_def sc.heap_ok_def)
  have "sc_contents ?s = (sc_contents s)(a := ?v)" "(\<lambda>b. su_Index (sc_mem ?s b)) = (\<lambda>b. su_Index (sc_mem s b))"
    "su_ident ?v = x"
    using a c by (auto simp: sc_contents_def fun_eq_iff su_ident_def sc.consistent_def)
  from sc_fix_at_ok [OF s a _ this(2) _ this(1) _ this(3)] that show ?thesis by auto
qed

lemma prioritise_loop_refines:
  assumes "heap_part_ok s" and "\<not> resched \<longrightarrow> timer_ok s"
  shows "\<exists>b s'. prioritise_loop due rs resched s = Some (b, s') \<and> heap_part_ok s' \<and> (\<not> b \<longrightarrow> timer_ok s') \<and>
    sc_timer s' = sc_timer s \<and> sc_wakeup s' = sc_wakeup s \<and> sc.entries s' = fold (spec_prioritise due) rs (sc.entries s)"
  using assms
proof (induction rs arbitrary: resched s)
  case Nil
  then show ?case by simp
next
  case (Cons r rs)
  let ?repo = "\<lparr>cr_ID = mr_ID r, cr_Name = mr_Name r\<rparr>"
  show ?case
  proof (cases "sc_index s (mr_ID r)")
    case None
    note push = sc_push_new_ok [OF Cons.prems(1), of "new_scheduledRepoUpdate ?repo minDelay due", simplified, OF None]
    have "spec_prioritise due r (sc.entries s) = (sc.entries s)(mr_ID r \<mapsto> new_scheduledRepoUpdate ?repo minDelay due)"
      using None by (simp add: spec_prioritise_def sc_entries_index)
    with Cons.IH [OF push(1), of True] None show ?thesis unfolding push(2-4) by (simp del: fun_upd_apply)
  next
    case (Some a)
    let ?u = "sc_contents s a"
    have e: "sc.entries s (mr_ID r) = Some ?u" and due: "su_Due ?u = su_Due (sc_mem s a)"
      using Some by (simp_all add: sc_entries_index sc_contents_def)
    show ?thesis
    proof (cases "su_Due (sc_mem s a) > due")
      case True
      obtain t where t: "sc_fix_at a (sc_set a (su_Due_update (\<lambda>_. due)) s) = Some t" "heap_part_ok t"
          "sc.entries t = (sc.entries s)(mr_ID r \<mapsto> ?u\<lparr>su_Due := due\<rparr>)" "sc_timer t = sc_timer s" "sc_wakeup t = sc_wakeup s"
        by (rule sc_set_Due_ok [OF Cons.prems(1) Some])
      have "spec_prioritise due r (sc.entries s) = sc.entries t"
        using True e due by (simp add: spec_prioritise_def t(3))
      with Cons.IH [OF t(2), of True] Some True t(1,4,5) show ?thesis by simp
    next
      case False
      then have "spec_prioritise due r (sc.entries s) = sc.entries s"
        using e due by (simp add: spec_prioritise_def min_absorb1 fun_upd_idem)
      with Cons.IH [OF Cons.prems] Some False show ?thesis by simp
    qed
  qed
qed

text \<open>\<open>prioritiseUncloned\<close> and \<open>insertNew\<close> restart the timer if they changed the table.\<close>

lemma prioritiseUncloned_refines:
  assumes "schedule_ok s"
  obtains s' where "prioritiseUncloned rs now1 now2 s = Some s'" and "schedule_ok s'"
    and "sc.entries s' = fold (spec_prioritise (now1 + minDelay)) rs (sc.entries s)" and "wake_kept s s'"
proof -
  have "heap_part_ok s" "\<not> False \<longrightarrow> timer_ok s" using assms by (simp_all add: schedule_ok_def)
  then obtain b s' where s': "prioritise_loop (now1 + minDelay) rs False s = Some (b, s')" "heap_part_ok s'" "\<not> b \<longrightarrow> timer_ok s'"
    "sc_timer s' = sc_timer s" "sc_wakeup s' = sc_wakeup s"
    "sc.entries s' = fold (spec_prioritise (now1 + minDelay)) rs (sc.entries s)"
    using prioritise_loop_refines by blast
  then show ?thesis
    using that [of "if b then rescheduleTimer now2 s' else s'"] rescheduleTimer_ok
      wake_kept_refl [OF s'(4,5)] rescheduleTimer_wake [OF s'(5), of now2]
    by (auto simp: prioritiseUncloned_def schedule_ok_def)
qed

lemma insertNew_loop_refines:
  assumes "heap_part_ok s" and "\<not> resched \<longrightarrow> timer_ok s" and "insertNew_loop due repos resched s = (b, s')"
  shows "heap_part_ok s' \<and> (\<not> b \<longrightarrow> timer_ok s') \<and> sc_timer s' = sc_timer s \<and> sc_wakeup s' = sc_wakeup s \<and>
    sc.entries s' = fold (spec_insert due) repos (sc.entries s)"
  using assms
proof (induction repos arbitrary: resched s)
  case Nil
  then show ?case by simp
next
  case (Cons repo repos)
  show ?case
  proof (cases "sc_index s (cr_ID repo)")
    case None
    note push = sc_push_new_ok [OF Cons.prems(1), of "new_scheduledRepoUpdate repo minDelay due", simplified, OF None]
    have "spec_insert due repo (sc.entries s) = (sc.entries s)(cr_ID repo \<mapsto> new_scheduledRepoUpdate repo minDelay due)"
      using None by (simp add: spec_insert_def sc_entries_index domIff)
    with Cons.IH [OF push(1), of True] Cons.prems(3) None show ?thesis unfolding push(2-4) by (simp del: fun_upd_apply)
  next
    case (Some a)
    then have "spec_insert due repo (sc.entries s) = sc.entries s" by (simp add: spec_insert_def sc_entries_index domIff)
    with Cons.IH [OF Cons.prems(1,2)] Cons.prems(3) Some show ?thesis by simp
  qed
qed

lemma insertNew_refines:
  assumes "schedule_ok s"
  shows "schedule_ok (insertNew rs now1 now2 s)" and "wake_kept s (insertNew rs now1 now2 s)"
    and "sc.entries (insertNew rs now1 now2 s) =
      fold (spec_insert (now1 + minDelay)) (map (\<lambda>r. \<lparr>cr_ID = mr_ID r, cr_Name = mr_Name r\<rparr>) rs) (sc.entries s)"
proof -
  let ?repos = "map (\<lambda>r. \<lparr>cr_ID = mr_ID r, cr_Name = mr_Name r\<rparr>) rs"
  obtain b s' where l: "insertNew_loop (now1 + minDelay) ?repos False s = (b, s')" by fastforce
  have "heap_part_ok s" "\<not> False \<longrightarrow> timer_ok s" using assms by (simp_all add: schedule_ok_def)
  note ok = insertNew_loop_refines [OF this l]
  then show "schedule_ok (insertNew rs now1 now2 s)" and "wake_kept s (insertNew rs now1 now2 s)"
    and "sc.entries (insertNew rs now1 now2 s) = fold (spec_insert (now1 + minDelay)) ?repos (sc.entries s)"
    using rescheduleTimer_ok rescheduleTimer_wake [of s' s now2] wake_kept_refl [of s' s]
    by (auto simp: insertNew_def Let_def l schedule_ok_def)
qed

section \<open>Intervals\<close>

text \<open>The shortest and the longest interval, with the jitter.\<close>

definition lowInterval :: duration where "lowInterval = minDelay - minDelay div 20"
definition highInterval :: duration where "highInterval = maxDelay + maxDelay div 20"

lemma wrap64_id: "- 9223372036854775808 \<le> n \<Longrightarrow> n < 9223372036854775808 \<Longrightarrow> wrap64 n = n"
  by (simp add: wrap64_def)

lemma clampInterval_bounds: "minDelay \<le> clampInterval i" "clampInterval i \<le> maxDelay"
  by (simp_all add: clampInterval_def minDelay_def maxDelay_def)

lemma jitterInterval_bounds:
  assumes "minDelay \<le> i" and "i \<le> maxDelay"
  obtains j where "jitterInterval r i = Some j" and "i - i div 20 \<le> j" and "j < i + i div 20"
    and "lowInterval \<le> j" and "j < highInterval"
proof -
  let ?d = "i div 20"
  let ?j = "i + (r mod (2 * ?d) - ?d)"
  have b: "2250000000 \<le> ?d" "?d \<le> 1440000000000" "45000000000 \<le> i" "i \<le> 28800000000000"
    using assms by (simp_all add: minDelay_def maxDelay_def)
  have m: "0 \<le> r mod (2 * ?d)" "r mod (2 * ?d) < 2 * ?d" using b by simp_all
  have "wrap64 (2 * ?d) = 2 * ?d" "wrap64 ?j = ?j" using b m by (intro wrap64_id; linarith)+
  then have "jitterInterval r i = Some ?j" using b by (simp add: jitterInterval_def Int63n_def Let_def)
  moreover have "i - ?d \<le> ?j" "?j < i + ?d" using m by simp_all
  moreover have "lowInterval \<le> i - ?d" "i + ?d \<le> highInterval"
    using b by (simp_all add: lowInterval_def highInterval_def minDelay_def maxDelay_def)
  ultimately show ?thesis using that by simp
qed

definition intervals_ok :: "(int \<rightharpoonup> scheduledRepoUpdate) \<Rightarrow> bool" where
  "intervals_ok e \<longleftrightarrow> (\<forall>x u. e x = Some u \<longrightarrow> lowInterval \<le> su_Interval u \<and> su_Interval u < highInterval)"

lemma updateInterval_refines:
  assumes s: "schedule_ok s" and repo: "cr_ID repo \<noteq> 0"
  obtains s' where "updateInterval repo interval r now1 now2 s = Some s'" and "schedule_ok s'" and "wake_kept s s'"
    and "case sc.entries s (cr_ID repo) of None \<Rightarrow> s' = s
      | Some u \<Rightarrow> (\<exists>j. jitterInterval r (clampInterval interval) = Some j \<and> lowInterval \<le> j \<and> j < highInterval \<and>
          sc.entries s' = (sc.entries s)(cr_ID repo \<mapsto> u\<lparr>su_Interval := j, su_Due := now1 + j\<rparr>))"
proof (cases "sc_index s (cr_ID repo)")
  case None
  then show ?thesis using that [OF _ s] repo by (simp add: updateInterval_def sc_entries_index wake_kept_def)
next
  case (Some a)
  obtain j where j: "jitterInterval r (clampInterval interval) = Some j" "lowInterval \<le> j" "j < highInterval"
    by (rule jitterInterval_bounds [OF clampInterval_bounds])
  let ?s = "sc_set a (su_Due_update (\<lambda>_. now1 + j)) (sc_set a (su_Interval_update (\<lambda>_. j)) s)"
  let ?v = "(sc_contents s a)\<lparr>su_Interval := j, su_Due := now1 + j\<rparr>"
  have h: "heap_part_ok s" and c: "sc.consistent s" using s by (simp_all add: schedule_ok_def heap_part_ok_def sc.heap_ok_def)
  have "sc_contents ?s = (sc_contents s)(a := ?v)" "(\<lambda>b. su_Index (sc_mem ?s b)) = (\<lambda>b. su_Index (sc_mem s b))"
    "su_ident ?v = cr_ID repo"
    using Some c by (auto simp: sc_contents_def fun_eq_iff su_ident_def sc.consistent_def)
  then obtain t where t: "sc_fix_at a ?s = Some t" "heap_part_ok t" "sc.entries t = (sc.entries s)(cr_ID repo \<mapsto> ?v)"
      "sc_wakeup t = sc_wakeup s"
    using sc_fix_at_ok [OF h Some, of ?s ?v] by auto
  have "updateInterval repo interval r now1 now2 s = Some (rescheduleTimer now2 t)"
    using Some repo j(1) t(1) by (simp add: updateInterval_def Let_def)
  then show ?thesis
    using that [OF _ rescheduleTimer_ok(1) [OF t(2)] rescheduleTimer_wake [OF t(4)]] Some j t(3) by (simp add: sc_entries_index rescheduleTimer_ok(2))
qed

end
