(* ===== verification/Update_Scheduler.thy ===== *)
theory Update_Scheduler
  imports Update_Schedule
begin

text \<open>
  The repository update scheduler of \<open>internal/repos/scheduler.go\<close>: the operations that work on
  both the update queue and the schedule, the schedule loop, the update loop and its workers.

  The operations are functions on the pair of the two structures. The clock is a function from
  the number of a reading to the time read; each operation names the readings it takes. A result
  is a value of \<open>run\<close>: it returns, it panics, or the given number of iterations was not enough.

  The goroutines are a step relation on a \<open>system\<close>: each step is one section that holds a lock, so
  that every interleaving of the loops, the workers and the clients is a sequence of steps.
\<close>

section \<open>Data\<close>

record UpdateScheduler =
  us_queue :: updateQueue
  us_schedule :: schedule

text \<open>The fields of \<open>types.Repo\<close> that the scheduler reads; \<open>None\<close> is the zero time.\<close>

record Repo =
  tr_ID :: int
  tr_Name :: string
  tr_DeletedAt :: "time option"

definition IsDeleted :: "Repo \<Rightarrow> bool" where
  "IsDeleted r \<longleftrightarrow> tr_DeletedAt r \<noteq> None"

definition configuredRepoFromRepo :: "Repo \<Rightarrow> configuredRepo" where
  "configuredRepoFromRepo r = \<lparr>cr_ID = tr_ID r, cr_Name = tr_Name r\<rparr>"

text \<open>A modified repository comes with the flags of the fields that changed.\<close>

record RepoModified =
  rmod_Repo :: Repo
  rmod_Modified :: "64 word"

record Diff =
  df_Added :: "Repo list"
  df_Deleted :: "Repo list"
  df_Modified :: "RepoModified list"
  df_Unmodified :: "Repo list"

definition ReposModified_Repos :: "RepoModified list \<Rightarrow> Repo list" where
  "ReposModified_Repos rm = map rmod_Repo rm"

datatype 'a run = Returned 'a | RunPanicked | OutOfIterations

definition NewUpdateScheduler :: UpdateScheduler where
  "NewUpdateScheduler = \<lparr>us_queue = new_updateQueue, us_schedule = new_schedule\<rparr>"

section \<open>Operations\<close>

definition us_enqueue :: "configuredRepo \<Rightarrow> priority \<Rightarrow> UpdateScheduler \<Rightarrow> UpdateScheduler option" where
  "us_enqueue repo p u = map_option (\<lambda>(_, q). u\<lparr>us_queue := q\<rparr>) (enqueue repo p (us_queue u))"

definition us_upsert :: "Repo \<Rightarrow> bool \<Rightarrow> time \<Rightarrow> time \<Rightarrow> UpdateScheduler \<Rightarrow> UpdateScheduler option" where
  "us_upsert r enq now1 now2 u =
     (let repo = configuredRepoFromRepo r in
      case sc_upsert repo now1 now2 (us_schedule u) of
        None \<Rightarrow> None
      | Some (_, s) \<Rightarrow>
          let u1 = u\<lparr>us_schedule := s\<rparr> in
          if \<not> enq then Some u1 else us_enqueue repo priorityLow u1)"

definition us_remove :: "Repo \<Rightarrow> time \<Rightarrow> UpdateScheduler \<Rightarrow> UpdateScheduler option" where
  "us_remove r now u =
     (let repo = configuredRepoFromRepo r in
      case sc_remove repo now (us_schedule u) of
        None \<Rightarrow> None
      | Some (_, s) \<Rightarrow>
          (case uq_remove repo False (us_queue u) of
             None \<Rightarrow> None
           | Some (_, q) \<Rightarrow> Some (u\<lparr>us_schedule := s, us_queue := q\<rparr>)))"

text \<open>The readings of the \<open>k\<close>th call are numbered \<open>2 k\<close> and \<open>2 k + 1\<close>.\<close>

fun remove_each :: "(nat \<Rightarrow> time) \<Rightarrow> nat \<Rightarrow> Repo list \<Rightarrow> UpdateScheduler \<Rightarrow> (nat \<times> UpdateScheduler) option" where
  "remove_each clock k [] u = Some (k, u)"
| "remove_each clock k (r # rs) u =
     (case us_remove r (clock (2 * k)) u of None \<Rightarrow> None | Some u' \<Rightarrow> remove_each clock (k + 1) rs u')"

fun upsert_each :: "(nat \<Rightarrow> time) \<Rightarrow> nat \<Rightarrow> Repo list \<Rightarrow> UpdateScheduler \<Rightarrow> (nat \<times> UpdateScheduler) option" where
  "upsert_each clock k [] u = Some (k, u)"
| "upsert_each clock k (r # rs) u =
     (case us_upsert r True (clock (2 * k)) (clock (2 * k + 1)) u of
        None \<Rightarrow> None
      | Some u' \<Rightarrow> upsert_each clock (k + 1) rs u')"

fun unmodified_each :: "(nat \<Rightarrow> time) \<Rightarrow> nat \<Rightarrow> Repo list \<Rightarrow> UpdateScheduler \<Rightarrow> (nat \<times> UpdateScheduler) option" where
  "unmodified_each clock k [] u = Some (k, u)"
| "unmodified_each clock k (r # rs) u =
     (case (if IsDeleted r then us_remove r (clock (2 * k)) u
            else us_upsert r False (clock (2 * k)) (clock (2 * k + 1)) u) of
        None \<Rightarrow> None
      | Some u' \<Rightarrow> unmodified_each clock (k + 1) rs u')"

definition UpdateFromDiff :: "Diff \<Rightarrow> (nat \<Rightarrow> time) \<Rightarrow> UpdateScheduler \<Rightarrow> UpdateScheduler option" where
  "UpdateFromDiff diff clock u =
     (case remove_each clock 0 (df_Deleted diff) u of
        None \<Rightarrow> None
      | Some (k1, u1) \<Rightarrow>
          (case upsert_each clock k1 (df_Added diff) u1 of
             None \<Rightarrow> None
           | Some (k2, u2) \<Rightarrow>
               (case upsert_each clock k2 (ReposModified_Repos (df_Modified diff)) u2 of
                  None \<Rightarrow> None
                | Some (k3, u3) \<Rightarrow> map_option snd (unmodified_each clock k3 (df_Unmodified diff) u3))))"

definition UpdateOnce :: "int \<Rightarrow> string \<Rightarrow> UpdateScheduler \<Rightarrow> UpdateScheduler option" where
  "UpdateOnce ident name u = us_enqueue \<lparr>cr_ID = ident, cr_Name = name\<rparr> priorityHigh u"

definition PrioritiseUncloned :: "MinimalRepo list \<Rightarrow> time \<Rightarrow> time \<Rightarrow> UpdateScheduler \<Rightarrow> UpdateScheduler option" where
  "PrioritiseUncloned repos now1 now2 u =
     map_option (\<lambda>s. u\<lparr>us_schedule := s\<rparr>) (prioritiseUncloned repos now1 now2 (us_schedule u))"

definition EnsureScheduled :: "MinimalRepo list \<Rightarrow> time \<Rightarrow> time \<Rightarrow> UpdateScheduler \<Rightarrow> UpdateScheduler" where
  "EnsureScheduled repos now1 now2 u = u\<lparr>us_schedule := insertNew repos now1 now2 (us_schedule u)\<rparr>"

definition ListRepoIDs :: "UpdateScheduler \<Rightarrow> int list" where
  "ListRepoIDs u = map (\<lambda>a. cr_ID (su_Repo (sc_mem (us_schedule u) a))) (sc_heap (us_schedule u))"

record RepoScheduleState =
  rs_Index :: int
  rs_Total :: nat
  rs_IntervalSeconds :: int
  rs_Due :: time

record RepoQueueState =
  rq_Index :: int
  rq_Total :: nat
  rq_Updating :: bool
  rq_Priority :: int

definition ScheduleInfo :: "int \<Rightarrow> UpdateScheduler \<Rightarrow> RepoScheduleState option \<times> RepoQueueState option" where
  "ScheduleInfo ident u =
     (map_option (\<lambda>a. let e = sc_mem (us_schedule u) a in
        \<lparr>rs_Index = su_Index e, rs_Total = card (dom (sc_index (us_schedule u))),
         rs_IntervalSeconds = su_Interval e div Second, rs_Due = su_Due e\<rparr>) (sc_index (us_schedule u) ident),
      map_option (\<lambda>a. let e = uq_mem (us_queue u) a in
        \<lparr>rq_Index = ru_Index e, rq_Total = card (dom (uq_index (us_queue u))),
         rq_Updating = ru_Updating e, rq_Priority = ru_Priority e\<rparr>) (uq_index (us_queue u) ident))"

section \<open>The schedule loop\<close>

definition due_now :: "time \<Rightarrow> schedule \<Rightarrow> bool" where
  "due_now now s \<longleftrightarrow> su_Due (sc_mem s (sc_heap s ! 0)) < now + Millisecond"

text \<open>One iteration, for a schedule whose first entry is due.\<close>

definition runSchedule_body :: "time \<Rightarrow> UpdateScheduler \<Rightarrow> UpdateScheduler option" where
  "runSchedule_body now u =
     (let a = sc_heap (us_schedule u) ! 0 in
      case us_enqueue (su_Repo (sc_mem (us_schedule u) a)) priorityLow u of
        None \<Rightarrow> None
      | Some u1 \<Rightarrow>
          let s1 = sc_set a (\<lambda>e. e\<lparr>su_Due := now + su_Interval e\<rparr>) (us_schedule u1)
          in Some (u1\<lparr>us_schedule := sc_Fix s1 0\<rparr>))"

fun runSchedule_loop :: "nat \<Rightarrow> (nat \<Rightarrow> time) \<Rightarrow> nat \<Rightarrow> UpdateScheduler \<Rightarrow> (nat \<times> UpdateScheduler) run" where
  "runSchedule_loop 0 clock k u = OutOfIterations"
| "runSchedule_loop (Suc n) clock k u =
     (if length (sc_heap (us_schedule u)) = 0 then Returned (k, u)
      else if \<not> due_now (clock k) (us_schedule u) then Returned (k + 1, u)
      else case runSchedule_body (clock (k + 1)) u of
        None \<Rightarrow> RunPanicked
      | Some u' \<Rightarrow> runSchedule_loop n clock (k + 2) u')"

definition runSchedule :: "nat \<Rightarrow> (nat \<Rightarrow> time) \<Rightarrow> UpdateScheduler \<Rightarrow> UpdateScheduler run" where
  "runSchedule n clock u =
     (case runSchedule_loop n clock 0 u of
        Returned (k, u') \<Rightarrow> Returned (u'\<lparr>us_schedule := rescheduleTimer (clock k) (us_schedule u')\<rparr>)
      | RunPanicked \<Rightarrow> RunPanicked
      | OutOfIterations \<Rightarrow> OutOfIterations)"

section \<open>The workers\<close>

record RepoUpdateResponse =
  resp_LastFetched :: "time option"
  resp_LastChanged :: "time option"
  resp_Error :: string

record UpdateIntervalRule =
  uir_Interval :: int
  uir_Pattern :: string

text \<open>
  \<open>compile\<close> stands for the regular expression package: a pattern that does not compile, or the
  predicate of the strings that match. The configuration may be missing.
\<close>

fun getCustomInterval_rules :: "(string \<Rightarrow> (string \<Rightarrow> bool) option) \<Rightarrow> UpdateIntervalRule list \<Rightarrow> string \<Rightarrow> duration" where
  "getCustomInterval_rules compile [] repoName = 0"
| "getCustomInterval_rules compile (rule # rules) repoName =
     (case compile (uir_Pattern rule) of
        None \<Rightarrow> getCustomInterval_rules compile rules repoName
      | Some re \<Rightarrow>
          if re repoName then wrap64 (uir_Interval rule * Minute)
          else getCustomInterval_rules compile rules repoName)"

definition getCustomInterval ::
    "(string \<Rightarrow> (string \<Rightarrow> bool) option) \<Rightarrow> UpdateIntervalRule list option \<Rightarrow> string \<Rightarrow> duration" where
  "getCustomInterval compile c repoName =
     (case c of None \<Rightarrow> 0 | Some rules \<Rightarrow> getCustomInterval_rules compile rules repoName)"

text \<open>What a worker does with the schedule once the request has returned.\<close>

datatype interval_action = SetInterval duration | DoubleInterval | KeepInterval

text \<open>The quotient of Go's integers is truncated towards zero.\<close>

definition go_div :: "int \<Rightarrow> int \<Rightarrow> int" where
  "go_div a b = sgn a * sgn b * (\<bar>a\<bar> div \<bar>b\<bar>)"

definition interval_action :: "duration \<Rightarrow> RepoUpdateResponse option \<Rightarrow> bool \<Rightarrow> interval_action" where
  "interval_action custom resp err =
     (if custom > 0 then SetInterval custom
      else if err \<or> (case resp of None \<Rightarrow> False | Some r \<Rightarrow> resp_Error r \<noteq> []) then DoubleInterval
      else case resp of
        None \<Rightarrow> KeepInterval
      | Some r \<Rightarrow>
          (case (resp_LastFetched r, resp_LastChanged r) of
             (Some fetched, Some changed) \<Rightarrow> SetInterval (go_div (time_Sub fetched changed) 2)
           | _ \<Rightarrow> KeepInterval))"

section \<open>Both structures as tables\<close>

abbreviation us_table :: "UpdateScheduler \<Rightarrow> queue_table" where
  "us_table u \<equiv> uq_abs (us_queue u)"

abbreviation us_entries :: "UpdateScheduler \<Rightarrow> (int \<rightharpoonup> scheduledRepoUpdate)" where
  "us_entries u \<equiv> sc.entries (us_schedule u)"

definition scheduler_ok :: "UpdateScheduler \<Rightarrow> bool" where
  "scheduler_ok u \<longleftrightarrow> queue_ok (us_queue u) \<and> schedule_ok (us_schedule u)"

lemma NewUpdateScheduler_ok: "scheduler_ok NewUpdateScheduler"
  by (simp add: scheduler_ok_def NewUpdateScheduler_def new_updateQueue_ok new_schedule_ok)

lemma us_enqueue_refines:
  assumes "queue_ok (us_queue u)" and "cr_ID repo \<noteq> 0"
  obtains q where "us_enqueue repo p u = Some (u\<lparr>us_queue := q\<rparr>)" and "queue_ok q"
    and "uq_abs q = snd (spec_enqueue repo p (us_table u))"
  using enqueue_refines [OF assms, of p] that by (auto simp: us_enqueue_def)

lemma configuredRepoFromRepo_simps [simp]:
  "cr_ID (configuredRepoFromRepo r) = tr_ID r" "cr_Name (configuredRepoFromRepo r) = tr_Name r"
  by (simp_all add: configuredRepoFromRepo_def)

lemma us_upsert_refines:
  assumes u: "scheduler_ok u" and r: "tr_ID r \<noteq> 0"
  obtains u' where "us_upsert r enq now1 now2 u = Some u'" and "scheduler_ok u'"
    and "us_entries u' = spec_upsert (configuredRepoFromRepo r) (now1 + minDelay) (us_entries u)"
    and "us_table u' = (if enq then snd (spec_enqueue (configuredRepoFromRepo r) priorityLow (us_table u)) else us_table u)"
proof -
  have ok: "schedule_ok (us_schedule u)" "queue_ok (us_queue u)" and repo: "cr_ID (configuredRepoFromRepo r) \<noteq> 0"
    using u r by (simp_all add: scheduler_ok_def)
  obtain s where s: "sc_upsert (configuredRepoFromRepo r) now1 now2 (us_schedule u) =
        Some (cr_ID (configuredRepoFromRepo r) \<in> dom (us_entries u), s)" "schedule_ok s"
      "sc.entries s = spec_upsert (configuredRepoFromRepo r) (now1 + minDelay) (us_entries u)"
    by (rule sc_upsert_refines [OF ok(1) repo])
  obtain q where q: "us_enqueue (configuredRepoFromRepo r) priorityLow (u\<lparr>us_schedule := s\<rparr>) =
        Some (u\<lparr>us_schedule := s, us_queue := q\<rparr>)" "queue_ok q"
      "uq_abs q = snd (spec_enqueue (configuredRepoFromRepo r) priorityLow (us_table u))"
    using us_enqueue_refines [OF _ repo, of "u\<lparr>us_schedule := s\<rparr>" priorityLow] ok(2) by auto
  show ?thesis
    using that [of "if enq then u\<lparr>us_schedule := s, us_queue := q\<rparr> else u\<lparr>us_schedule := s\<rparr>"] s q ok(2)
    by (simp add: us_upsert_def Let_def scheduler_ok_def)
qed

lemma us_remove_refines:
  assumes u: "scheduler_ok u" and r: "tr_ID r \<noteq> 0"
  obtains u' where "us_remove r now u = Some u'" and "scheduler_ok u'"
    and "us_entries u' = (us_entries u)(tr_ID r := None)"
    and "us_table u' = snd (spec_remove (configuredRepoFromRepo r) False (us_table u))"
proof -
  have ok: "schedule_ok (us_schedule u)" "queue_ok (us_queue u)" and repo: "cr_ID (configuredRepoFromRepo r) \<noteq> 0"
    using u r by (simp_all add: scheduler_ok_def)
  obtain s where s: "sc_remove (configuredRepoFromRepo r) now (us_schedule u) =
        Some (cr_ID (configuredRepoFromRepo r) \<in> dom (us_entries u), s)" "schedule_ok s"
      "sc.entries s = (us_entries u)(cr_ID (configuredRepoFromRepo r) := None)"
    by (rule sc_remove_refines [OF ok(1) repo])
  obtain q where q: "uq_remove (configuredRepoFromRepo r) False (us_queue u) =
        Some (fst (spec_remove (configuredRepoFromRepo r) False (us_table u)), q)" "queue_ok q"
      "uq_abs q = snd (spec_remove (configuredRepoFromRepo r) False (us_table u))"
    by (rule uq_remove_refines [OF ok(2) repo])
  show ?thesis
    using that [of "u\<lparr>us_schedule := s, us_queue := q\<rparr>"] s q by (simp add: us_remove_def Let_def scheduler_ok_def)
qed

section \<open>A diff\<close>

lemma dom_spec_upsert: "dom (spec_upsert repo due e) = insert (cr_ID repo) (dom e)"
  by (auto simp: spec_upsert_def split: option.splits)

text \<open>What the loops over the repositories of a diff do to the sets of repositories.\<close>

definition same_sets :: "UpdateScheduler \<Rightarrow> int set \<Rightarrow> int set \<Rightarrow> int set \<Rightarrow> bool" where
  "same_sets u D W U \<longleftrightarrow>
     scheduler_ok u \<and> dom (us_entries u) = D \<and> waiting (us_table u) = W \<and> updating (us_table u) = U"

lemma us_upsert_sets:
  assumes "same_sets u D W U" and "tr_ID r \<noteq> 0"
  obtains u' where "us_upsert r enq now1 now2 u = Some u'"
    and "same_sets u' (insert (tr_ID r) D) (W \<union> (if enq then {tr_ID r} - U else {})) U"
proof -
  have "scheduler_ok u" using assms(1) by (simp add: same_sets_def)
  then obtain u' where u': "us_upsert r enq now1 now2 u = Some u'" "scheduler_ok u'"
    "us_entries u' = spec_upsert (configuredRepoFromRepo r) (now1 + minDelay) (us_entries u)"
    "us_table u' = (if enq then snd (spec_enqueue (configuredRepoFromRepo r) priorityLow (us_table u)) else us_table u)"
    by (rule us_upsert_refines [OF _ assms(2)])
  moreover have "same_sets u' (insert (tr_ID r) D) (W \<union> (if enq then {tr_ID r} - U else {})) U"
    using u'(2-4) assms(1) by (auto simp: same_sets_def dom_spec_upsert spec_enqueue_sets)
  ultimately show ?thesis using that by blast
qed

lemma us_remove_sets:
  assumes "same_sets u D W U" and "tr_ID r \<noteq> 0"
  obtains u' where "us_remove r now u = Some u'" and "same_sets u' (D - {tr_ID r}) (W - {tr_ID r}) U"
proof -
  have "scheduler_ok u" using assms(1) by (simp add: same_sets_def)
  then obtain u' where "us_remove r now u = Some u'" "scheduler_ok u'"
    "us_entries u' = (us_entries u)(tr_ID r := None)"
    "us_table u' = snd (spec_remove (configuredRepoFromRepo r) False (us_table u))"
    by (rule us_remove_refines [OF _ assms(2)])
  with that [of u'] assms(1) show ?thesis by (auto simp: same_sets_def spec_remove_sets split: if_splits)
qed

lemma remove_each_sets:
  assumes "same_sets u D W U" and "\<forall>r \<in> set rs. tr_ID r \<noteq> 0"
  shows "\<exists>k' u'. remove_each clock k rs u = Some (k', u') \<and> same_sets u' (D - tr_ID ` set rs) (W - tr_ID ` set rs) U"
  using assms
proof (induction rs arbitrary: k u D W)
  case Nil
  then show ?case by simp
next
  case (Cons r rs)
  from Cons.prems(2) have r: "tr_ID r \<noteq> 0" by simp
  obtain u' where u': "us_remove r (clock (2 * k)) u = Some u'" "same_sets u' (D - {tr_ID r}) (W - {tr_ID r}) U"
    by (rule us_remove_sets [OF Cons.prems(1) r])
  have "D - {tr_ID r} - tr_ID ` set rs = D - tr_ID ` set (r # rs)" "W - {tr_ID r} - tr_ID ` set rs = W - tr_ID ` set (r # rs)"
    by auto
  with Cons.IH [OF u'(2), of "k + 1"] Cons.prems(2) u'(1) show ?case by simp
qed

lemma upsert_each_sets:
  assumes "same_sets u D W U" and "\<forall>r \<in> set rs. tr_ID r \<noteq> 0"
  shows "\<exists>k' u'. upsert_each clock k rs u = Some (k', u') \<and> same_sets u' (D \<union> tr_ID ` set rs) (W \<union> (tr_ID ` set rs - U)) U"
  using assms
proof (induction rs arbitrary: k u D W)
  case Nil
  then show ?case by simp
next
  case (Cons r rs)
  from Cons.prems(2) have r: "tr_ID r \<noteq> 0" by simp
  obtain u' where u': "us_upsert r True (clock (2 * k)) (clock (2 * k + 1)) u = Some u'"
      "same_sets u' (insert (tr_ID r) D) (W \<union> (if True then {tr_ID r} - U else {})) U"
    by (rule us_upsert_sets [OF Cons.prems(1) r])
  have "insert (tr_ID r) D \<union> tr_ID ` set rs = D \<union> tr_ID ` set (r # rs)"
    "W \<union> (if True then {tr_ID r} - U else {}) \<union> (tr_ID ` set rs - U) = W \<union> (tr_ID ` set (r # rs) - U)" by auto
  with Cons.IH [OF u'(2), of "k + 1"] Cons.prems(2) u'(1) show ?case by simp
qed

lemma unmodified_each_sets:
  assumes "same_sets u D W U" and "\<forall>r \<in> set rs. tr_ID r \<noteq> 0"
    and "\<forall>r \<in> set rs. \<forall>r' \<in> set rs. tr_ID r = tr_ID r' \<longrightarrow> IsDeleted r = IsDeleted r'"
  shows "\<exists>k' u'. unmodified_each clock k rs u = Some (k', u') \<and>
    same_sets u' ((D \<union> tr_ID ` {r \<in> set rs. \<not> IsDeleted r}) - tr_ID ` {r \<in> set rs. IsDeleted r})
      (W - tr_ID ` {r \<in> set rs. IsDeleted r}) U"
  using assms
proof (induction rs arbitrary: k u D W)
  case Nil
  then show ?case by simp
next
  case (Cons r rs)
  from Cons.prems(2) have r: "tr_ID r \<noteq> 0" by simp
  show ?case
  proof (cases "IsDeleted r")
    case True
    obtain u' where u': "us_remove r (clock (2 * k)) u = Some u'" "same_sets u' (D - {tr_ID r}) (W - {tr_ID r}) U"
      by (rule us_remove_sets [OF Cons.prems(1) r])
    have "(D - {tr_ID r} \<union> tr_ID ` {r \<in> set rs. \<not> IsDeleted r}) - tr_ID ` {r \<in> set rs. IsDeleted r} =
        (D \<union> tr_ID ` {r' \<in> set (r # rs). \<not> IsDeleted r'}) - tr_ID ` {r' \<in> set (r # rs). IsDeleted r'}"
      "W - {tr_ID r} - tr_ID ` {r \<in> set rs. IsDeleted r} = W - tr_ID ` {r' \<in> set (r # rs). IsDeleted r'}"
      using True Cons.prems(3) by auto
    with Cons.IH [OF u'(2), of "k + 1"] Cons.prems(2,3) u'(1) True show ?thesis by simp
  next
    case False
    obtain u' where u': "us_upsert r False (clock (2 * k)) (clock (2 * k + 1)) u = Some u'"
        "same_sets u' (insert (tr_ID r) D) (W \<union> (if False then {tr_ID r} - U else {})) U"
      by (rule us_upsert_sets [OF Cons.prems(1) r])
    have "(insert (tr_ID r) D \<union> tr_ID ` {r \<in> set rs. \<not> IsDeleted r}) - tr_ID ` {r \<in> set rs. IsDeleted r} =
        (D \<union> tr_ID ` {r' \<in> set (r # rs). \<not> IsDeleted r'}) - tr_ID ` {r' \<in> set (r # rs). IsDeleted r'}"
      "{r' \<in> set (r # rs). IsDeleted r'} = {r \<in> set rs. IsDeleted r}"
      using False by auto
    with Cons.IH [OF u'(2), of "k + 1"] Cons.prems(2,3) u'(1) False show ?thesis by simp
  qed
qed

lemma UpdateFromDiff_sets:
  assumes u: "same_sets u D W U"
    and ids: "\<forall>r \<in> set (df_Deleted d @ df_Added d @ ReposModified_Repos (df_Modified d) @ df_Unmodified d). tr_ID r \<noteq> 0"
    and un: "\<forall>r \<in> set (df_Unmodified d). \<forall>r' \<in> set (df_Unmodified d). tr_ID r = tr_ID r' \<longrightarrow> IsDeleted r = IsDeleted r'"
  defines "new \<equiv> tr_ID ` set (df_Added d) \<union> tr_ID ` set (ReposModified_Repos (df_Modified d))"
    and "gone \<equiv> tr_ID ` {r \<in> set (df_Unmodified d). IsDeleted r}"
  shows "\<exists>u'. UpdateFromDiff d clock u = Some u' \<and>
    same_sets u' ((D - tr_ID ` set (df_Deleted d) \<union> new \<union> tr_ID ` {r \<in> set (df_Unmodified d). \<not> IsDeleted r}) - gone)
      ((W - tr_ID ` set (df_Deleted d) \<union> (new - U)) - gone) U"
proof -
  let ?del = "tr_ID ` set (df_Deleted d)" and ?add = "tr_ID ` set (df_Added d)"
    and ?mod = "tr_ID ` set (ReposModified_Repos (df_Modified d))"
  have i: "\<forall>r \<in> set (df_Deleted d). tr_ID r \<noteq> 0" "\<forall>r \<in> set (df_Added d). tr_ID r \<noteq> 0"
    "\<forall>r \<in> set (ReposModified_Repos (df_Modified d)). tr_ID r \<noteq> 0" "\<forall>r \<in> set (df_Unmodified d). tr_ID r \<noteq> 0"
    using ids by simp_all
  obtain k1 u1 where 1: "remove_each clock 0 (df_Deleted d) u = Some (k1, u1)" "same_sets u1 (D - ?del) (W - ?del) U"
    using remove_each_sets [OF u i(1)] by blast
  obtain k2 u2 where 2: "upsert_each clock k1 (df_Added d) u1 = Some (k2, u2)"
    "same_sets u2 (D - ?del \<union> ?add) (W - ?del \<union> (?add - U)) U"
    using upsert_each_sets [OF 1(2) i(2)] by blast
  obtain k3 u3 where 3: "upsert_each clock k2 (ReposModified_Repos (df_Modified d)) u2 = Some (k3, u3)"
    "same_sets u3 (D - ?del \<union> ?add \<union> ?mod) (W - ?del \<union> (?add - U) \<union> (?mod - U)) U"
    using upsert_each_sets [OF 2(2) i(3)] by blast
  have sets: "D - ?del \<union> ?add \<union> ?mod = D - ?del \<union> new" "W - ?del \<union> (?add - U) \<union> (?mod - U) = W - ?del \<union> (new - U)"
    by (auto simp: new_def)
  obtain k4 u4 where 4: "unmodified_each clock k3 (df_Unmodified d) u3 = Some (k4, u4)"
    "same_sets u4 ((D - ?del \<union> new \<union> tr_ID ` {r \<in> set (df_Unmodified d). \<not> IsDeleted r}) - gone) ((W - ?del \<union> (new - U)) - gone) U"
    using unmodified_each_sets [OF 3(2) [unfolded sets] i(4) un] unfolding gone_def by blast
  then show ?thesis using 1(1) 2(1) 3(1) by (simp add: UpdateFromDiff_def)
qed

section \<open>Running the schedule\<close>

definition run_ok :: "UpdateScheduler \<Rightarrow> bool" where
  "run_ok u \<longleftrightarrow> queue_ok (us_queue u) \<and> heap_part_ok (us_schedule u) \<and> us_entries u 0 = None \<and> intervals_ok (us_entries u)"

lemma runSchedule_body_refines:
  assumes u: "run_ok u" and ne: "sc_heap (us_schedule u) \<noteq> []"
  obtains u' x v where "runSchedule_body now u = Some u'" and "run_ok u'"
    and "us_entries u x = Some v" and "x = cr_ID (su_Repo v)" and "su_Due v = su_Due (sc_mem (us_schedule u) (sc_heap (us_schedule u) ! 0))"
    and "us_entries u' = (us_entries u)(x \<mapsto> v\<lparr>su_Due := now + su_Interval v\<rparr>)"
    and "us_table u' = snd (spec_enqueue (su_Repo v) priorityLow (us_table u))"
    and "sc_timer (us_schedule u') = sc_timer (us_schedule u)" and "sc_wakeup (us_schedule u') = sc_wakeup (us_schedule u)"
proof -
  let ?s = "us_schedule u"
  let ?a = "sc_heap ?s ! 0"
  let ?v = "sc_contents ?s ?a"
  let ?x = "cr_ID (su_Repo ?v)" and ?w = "?v\<lparr>su_Due := now + su_Interval ?v\<rparr>"
  let ?s1 = "sc_set ?a (\<lambda>e. e\<lparr>su_Due := now + su_Interval e\<rparr>) ?s"
  have h: "heap_part_ok ?s" "queue_ok (us_queue u)" using u by (simp_all add: run_ok_def)
  note head = head_entry [OF h(1) ne]
  have "?x \<noteq> 0" using head(2) u by (auto simp: run_ok_def)
  then obtain q where q: "us_enqueue (su_Repo ?v) priorityLow u = Some (u\<lparr>us_queue := q\<rparr>)" "queue_ok q"
      "uq_abs q = snd (spec_enqueue (su_Repo ?v) priorityLow (us_table u))"
    by (rule us_enqueue_refines [OF h(2)])
  have con: "sc_contents ?s1 = (sc_contents ?s)(?a := ?w)" "(\<lambda>b. su_Index (sc_mem ?s1 b)) = (\<lambda>b. su_Index (sc_mem ?s b))"
    "su_ident ?w = ?x"
    by (auto simp: sc_contents_def fun_eq_iff su_ident_def)
  from sc_fix_at_ok [OF h(1) head(1) _ con(2) _ con(1) _ con(3)]
  obtain t where t: "sc_fix_at ?a ?s1 = Some t" "heap_part_ok t" "sc.entries t = (us_entries u)(?x \<mapsto> ?w)"
      "sc_timer t = sc_timer ?s" "sc_wakeup t = sc_wakeup ?s" by auto
  have "su_Index (sc_mem ?s ?a) = 0" using h(1) ne by (simp add: heap_part_ok_def sc.heap_ok_def sc.consistent_def)
  then have "sc_Fix ?s1 0 = t" using t(1) ne by (simp add: sc_fix_at_def sc_position_def sc_Len_def)
  then have "runSchedule_body now u = Some (u\<lparr>us_queue := q, us_schedule := t\<rparr>)"
    using q(1) by (simp add: runSchedule_body_def Let_def sc_contents_def)
  moreover have "run_ok (u\<lparr>us_queue := q, us_schedule := t\<rparr>)"
    using u q(2) t(2,3) head(2) \<open>?x \<noteq> 0\<close> by (auto simp: run_ok_def intervals_ok_def split: if_splits)
  ultimately show ?thesis
    using that [of "u\<lparr>us_queue := q, us_schedule := t\<rparr>" ?x ?v] head(2) q(3) t(3-5) by (simp add: sc_contents_def)
qed

lemma finite_us_entries: "heap_part_ok s \<Longrightarrow> finite (dom (sc.entries s)) \<and> card (dom (sc.entries s)) \<le> length (sc_heap s)"
proof -
  assume "heap_part_ok s"
  then have "dom (sc.entries s) \<subseteq> (\<lambda>a. su_ident (sc_contents s a)) ` set (sc_heap s)"
    by (auto simp: sc.entries_iff heap_part_ok_def sc.heap_ok_def)
  then show ?thesis
    by (meson List.finite_set card_image_le card_length card_mono finite_imageI finite_subset order_trans)
qed

text \<open>The entries that are due before a time.\<close>

definition due_before :: "time \<Rightarrow> (int \<rightharpoonup> scheduledRepoUpdate) \<Rightarrow> int set" where
  "due_before t e = {x. \<exists>v. e x = Some v \<and> su_Due v < t}"

lemma due_before_upd:
  "t \<le> su_Due w \<Longrightarrow> due_before t (e(x \<mapsto> w)) = due_before t e - {x}"
  by (auto simp: due_before_def)

lemma finite_due_before: "run_ok u \<Longrightarrow> finite (due_before t (us_entries u))"
  using finite_us_entries [of "us_schedule u"] by (auto simp: run_ok_def due_before_def dom_def elim: finite_subset [rotated])

text \<open>One iteration moves one entry past the bound and into the queue.\<close>

lemma runSchedule_body_due:
  assumes u: "run_ok u" and ne: "sc_heap (us_schedule u) \<noteq> []" and due: "due_now now0 (us_schedule u)"
    and bounds: "now0 + Millisecond \<le> B" "B \<le> now + lowInterval" "L \<le> B"
  obtains u' where "runSchedule_body now u = Some u'" and "run_ok u'" and "dom (us_entries u') = dom (us_entries u)"
    and "card (due_before B (us_entries u')) < card (due_before B (us_entries u))"
    and "updating (us_table u') = updating (us_table u)" and "waiting (us_table u) \<subseteq> waiting (us_table u')"
    and "due_before L (us_entries u) - updating (us_table u) \<subseteq> due_before L (us_entries u') \<union> waiting (us_table u')"
proof -
  let ?s = "us_schedule u"
  obtain u' x v where b: "runSchedule_body now u = Some u'" "run_ok u'" "us_entries u x = Some v"
    "x = cr_ID (su_Repo v)" "su_Due v = su_Due (sc_mem ?s (sc_heap ?s ! 0))"
    "us_entries u' = (us_entries u)(x \<mapsto> v\<lparr>su_Due := now + su_Interval v\<rparr>)"
    "us_table u' = snd (spec_enqueue (su_Repo v) priorityLow (us_table u))"
    by (rule runSchedule_body_refines [OF u ne])
  have "lowInterval \<le> su_Interval v" using u b(3) by (auto simp: run_ok_def intervals_ok_def)
  then have later: "B \<le> now + su_Interval v" "L \<le> now + su_Interval v" using bounds by linarith+
  have "x \<in> due_before B (us_entries u)" using b(3,5) due bounds(1) by (auto simp: due_before_def due_now_def)
  then have "card (due_before B (us_entries u')) < card (due_before B (us_entries u))"
    using card_Diff1_less [OF finite_due_before [OF u]] later(1) by (simp only: b(6)) (subst due_before_upd; simp)
  moreover have "due_before L (us_entries u) \<subseteq> insert x (due_before L (us_entries u'))"
    using later by (auto simp: b(6) due_before_upd simp del: fun_upd_apply)
  moreover have "waiting (us_table u) \<union> ({x} - updating (us_table u)) \<subseteq> waiting (us_table u')"
    "updating (us_table u') = updating (us_table u)"
    by (auto simp: b(4,7) spec_enqueue_sets)
  moreover have "dom (us_entries u') = dom (us_entries u)" using b(3) by (auto simp: b(6))
  ultimately show ?thesis using that [OF b(1,2)] by blast
qed

text \<open>
  If the readings of the clock during a run differ by less than the shortest interval, the run ends,
  every entry that was due at its start is queued, and no entry is due then.
\<close>

lemma runSchedule_loop_terminates:
  assumes clock: "\<And>i. T \<le> clock i \<and> clock i + Millisecond \<le> B \<and> B \<le> clock i + lowInterval"
  defines "L \<equiv> T + Millisecond"
  shows "run_ok u \<Longrightarrow> card (due_before B (us_entries u)) < n \<Longrightarrow>
    \<exists>k' u'. runSchedule_loop n clock k u = Returned (k', u') \<and> run_ok u' \<and> dom (us_entries u') = dom (us_entries u) \<and>
      due_before L (us_entries u') = {} \<and> updating (us_table u') = updating (us_table u) \<and>
      waiting (us_table u) \<union> (due_before L (us_entries u) - updating (us_table u)) \<subseteq> waiting (us_table u')"
proof (induction n arbitrary: k u)
  case 0
  then show ?case by simp
next
  case (Suc n)
  let ?s = "us_schedule u"
  have h: "heap_part_ok ?s" using Suc.prems(1) by (simp add: run_ok_def)
  consider "sc_heap ?s = []" | "sc_heap ?s \<noteq> []" "\<not> due_now (clock k) ?s" | "sc_heap ?s \<noteq> []" "due_now (clock k) ?s" by blast
  then show ?case
  proof cases
    case 1
    then have "us_entries u = Map.empty" using heap_empty_iff [OF h] by simp
    with 1 Suc.prems(1) show ?thesis by (simp add: due_before_def)
  next
    case 2
    then have "clock k + Millisecond \<le> su_Due (sc_contents ?s (sc_heap ?s ! 0))" by (simp add: due_now_def sc_contents_def)
    then have "due_before L (us_entries u) = {}"
      using head_entry(3) [OF h 2(1)] clock [of k] by (force simp: due_before_def L_def)
    with 2 Suc.prems(1) show ?thesis by simp
  next
    case 3
    have "clock k + Millisecond \<le> B" "B \<le> clock (k + 1) + lowInterval" "L \<le> B"
      using clock [of k] clock [of "k + 1"] by (simp_all add: L_def)
    then obtain u' where b: "runSchedule_body (clock (k + 1)) u = Some u'" "run_ok u'" "dom (us_entries u') = dom (us_entries u)"
      "card (due_before B (us_entries u')) < card (due_before B (us_entries u))"
      "updating (us_table u') = updating (us_table u)" "waiting (us_table u) \<subseteq> waiting (us_table u')"
      "due_before L (us_entries u) - updating (us_table u) \<subseteq> due_before L (us_entries u') \<union> waiting (us_table u')"
      by (rule runSchedule_body_due [OF Suc.prems(1) 3])
    from b(4) Suc.prems(2) have "card (due_before B (us_entries u')) < n" by linarith
    from Suc.IH [OF b(2) this, of "k + 2"]
    obtain k2 u2 where r: "runSchedule_loop n clock (k + 2) u' = Returned (k2, u2)" "run_ok u2"
      "dom (us_entries u2) = dom (us_entries u')" "due_before L (us_entries u2) = {}"
      "updating (us_table u2) = updating (us_table u')"
      "waiting (us_table u') \<union> (due_before L (us_entries u') - updating (us_table u')) \<subseteq> waiting (us_table u2)"
      by blast
    moreover have "runSchedule_loop (Suc n) clock k u = Returned (k2, u2)" using r(1) b(1) 3 by simp
    moreover have "waiting (us_table u) \<union> (due_before L (us_entries u) - updating (us_table u)) \<subseteq> waiting (us_table u2)"
      using b(5-7) r(6) by blast
    ultimately show ?thesis using b(3,5) by simp
  qed
qed

lemma runSchedule_terminates:
  assumes "scheduler_ok u" and "us_entries u 0 = None" and "intervals_ok (us_entries u)"
    and "\<And>i. T \<le> clock i \<and> clock i + Millisecond \<le> T + lowInterval" and "length (sc_heap (us_schedule u)) < n"
  shows "\<exists>u'. runSchedule n clock u = Returned u' \<and> scheduler_ok u' \<and> dom (us_entries u') = dom (us_entries u) \<and>
    due_before (T + Millisecond) (us_entries u') = {} \<and> updating (us_table u') = updating (us_table u) \<and>
    waiting (us_table u) \<union> (due_before (T + Millisecond) (us_entries u) - updating (us_table u)) \<subseteq> waiting (us_table u')"
proof -
  have run: "run_ok u" using assms(1-3) by (simp add: run_ok_def scheduler_ok_def schedule_ok_def)
  then have "card (due_before (T + lowInterval) (us_entries u)) \<le> card (dom (us_entries u))"
    using finite_us_entries by (intro card_mono) (auto simp: run_ok_def due_before_def)
  then have "card (due_before (T + lowInterval) (us_entries u)) < n"
    using run finite_us_entries [of "us_schedule u"] assms(5) by (simp add: run_ok_def)
  moreover have "T \<le> clock i \<and> clock i + Millisecond \<le> T + lowInterval \<and> T + lowInterval \<le> clock i + lowInterval" for i
    using assms(4) [of i] by simp
  ultimately obtain k u' where r: "runSchedule_loop n clock 0 u = Returned (k, u')" "run_ok u'"
    "dom (us_entries u') = dom (us_entries u)" "due_before (T + Millisecond) (us_entries u') = {}"
    "updating (us_table u') = updating (us_table u)"
    "waiting (us_table u) \<union> (due_before (T + Millisecond) (us_entries u) - updating (us_table u)) \<subseteq> waiting (us_table u')"
    using runSchedule_loop_terminates [OF _ run, of T clock "T + lowInterval"] by blast
  then show ?thesis using rescheduleTimer_ok by (simp add: runSchedule_def scheduler_ok_def run_ok_def)
qed

end
