(* ===== verification/Update_System.thy ===== *)
theory Update_System
  imports Update_Scheduler
begin

text \<open>
  The goroutines of \<open>internal/repos/scheduler.go\<close> as a step relation: the schedule loop
  (\<open>runScheduleLoop\<close>), the update loop (\<open>runUpdateLoop\<close>), the workers that it starts, the timer and
  the clients of the scheduler. A step is one section that holds a lock, one receive from a channel
  or one return of a request. While the schedule loop is inside \<open>runSchedule\<close> it holds the lock of
  the schedule, and no other step on the schedule is possible.

  Shown here: in every reachable state no repository is updated by two workers at once, the queue
  marks exactly the repositories of the workers as updating, and no wakeup is lost.
\<close>

section \<open>Steps\<close>

datatype schedule_pc = Idle | Woken | InRun

datatype worker_pc = Requesting | Doubling | SettingInterval duration | Finishing

record system =
  sy_us :: UpdateScheduler
  sy_schedule_pc :: schedule_pc
  sy_draining :: bool
  sy_workers :: "(configuredRepo \<times> worker_pc) list"

definition initial_system :: system where
  "initial_system = \<lparr>sy_us = NewUpdateScheduler, sy_schedule_pc = Idle, sy_draining = False, sy_workers = []\<rparr>"

definition set_queue :: "updateQueue \<Rightarrow> system \<Rightarrow> system" where
  "set_queue q y = y\<lparr>sy_us := (sy_us y)\<lparr>us_queue := q\<rparr>\<rparr>"

definition set_schedule :: "schedule \<Rightarrow> system \<Rightarrow> system" where
  "set_schedule s y = y\<lparr>sy_us := (sy_us y)\<lparr>us_schedule := s\<rparr>\<rparr>"

abbreviation "queue_of y \<equiv> us_queue (sy_us y)"
abbreviation "schedule_of y \<equiv> us_schedule (sy_us y)"

text \<open>What a worker does next when its request has returned.\<close>

fun after_request :: "interval_action \<Rightarrow> worker_pc" where
  "after_request (SetInterval d) = SettingInterval d"
| "after_request DoubleInterval = Doubling"
| "after_request KeepInterval = Finishing"

definition after_double :: "configuredRepo \<Rightarrow> schedule \<Rightarrow> worker_pc" where
  "after_double repo s =
     (case getCurrentInterval repo s of (cur, found) \<Rightarrow> if found then SettingInterval (wrap64 (cur * 2)) else Finishing)"

text \<open>
  The clients of the scheduler pass the identifiers of the database, which are not zero. A client may
  queue or unqueue a repository at any time: \<open>UpdateOnce\<close>, \<open>upsert\<close> and \<open>remove\<close>.
\<close>

inductive system_step :: "system \<Rightarrow> system \<Rightarrow> bool" where
  client_enqueue: "enqueue repo p (queue_of y) = Some (b, q) \<Longrightarrow> system_step y (set_queue q y)"
| client_dequeue: "uq_remove repo False (queue_of y) = Some (b, q) \<Longrightarrow> system_step y (set_queue q y)"
| client_upsert: "sy_schedule_pc y \<noteq> InRun \<Longrightarrow> sc_upsert repo now1 now2 (schedule_of y) = Some (b, s) \<Longrightarrow>
    system_step y (set_schedule s y)"
| client_remove: "sy_schedule_pc y \<noteq> InRun \<Longrightarrow> sc_remove repo now (schedule_of y) = Some (b, s) \<Longrightarrow>
    system_step y (set_schedule s y)"
| client_prioritise: "sy_schedule_pc y \<noteq> InRun \<Longrightarrow> \<forall>r \<in> set rs. mr_ID r \<noteq> 0 \<Longrightarrow>
    prioritiseUncloned rs now1 now2 (schedule_of y) = Some s \<Longrightarrow> system_step y (set_schedule s y)"
| client_insert: "sy_schedule_pc y \<noteq> InRun \<Longrightarrow> \<forall>r \<in> set rs. mr_ID r \<noteq> 0 \<Longrightarrow>
    system_step y (set_schedule (insertNew rs now1 now2 (schedule_of y)) y)"
| timer: "sc_timer (schedule_of y) \<noteq> None \<Longrightarrow> system_step y (set_schedule (timer_fires (schedule_of y)) y)"
| late_timer: "system_step y (set_schedule ((schedule_of y)\<lparr>sc_wakeup := True\<rparr>) y)"
| schedule_wake: "sy_schedule_pc y = Idle \<Longrightarrow> sc_wakeup (schedule_of y) \<Longrightarrow>
    system_step y ((set_schedule ((schedule_of y)\<lparr>sc_wakeup := False\<rparr>) y)\<lparr>sy_schedule_pc := Woken\<rparr>)"
| schedule_lock: "sy_schedule_pc y = Woken \<Longrightarrow> system_step y (y\<lparr>sy_schedule_pc := InRun\<rparr>)"
| schedule_iterate: "sy_schedule_pc y = InRun \<Longrightarrow> sc_heap (schedule_of y) \<noteq> [] \<Longrightarrow> due_now now1 (schedule_of y) \<Longrightarrow>
    runSchedule_body now2 (sy_us y) = Some u \<Longrightarrow> system_step y (y\<lparr>sy_us := u\<rparr>)"
| schedule_end: "sy_schedule_pc y = InRun \<Longrightarrow> sc_heap (schedule_of y) = [] \<or> \<not> due_now now1 (schedule_of y) \<Longrightarrow>
    system_step y ((set_schedule (rescheduleTimer now2 (schedule_of y)) y)\<lparr>sy_schedule_pc := Idle\<rparr>)"
| update_wake: "\<not> sy_draining y \<Longrightarrow> uq_notify (queue_of y) \<Longrightarrow>
    system_step y ((set_queue ((queue_of y)\<lparr>uq_notify := False\<rparr>) y)\<lparr>sy_draining := True\<rparr>)"
| update_start: "sy_draining y \<Longrightarrow> acquireNext (queue_of y) = Some (Some repo, q) \<Longrightarrow>
    system_step y ((set_queue q y)\<lparr>sy_workers := sy_workers y @ [(repo, Requesting)]\<rparr>)"
| update_idle: "sy_draining y \<Longrightarrow> acquireNext (queue_of y) = Some (None, q) \<Longrightarrow>
    system_step y ((set_queue q y)\<lparr>sy_draining := False\<rparr>)"
| worker_response: "sy_workers y = ws @ (repo, Requesting) # ws' \<Longrightarrow>
    pc = after_request (interval_action (getCustomInterval compile conf (cr_Name repo)) resp err) \<Longrightarrow>
    system_step y (y\<lparr>sy_workers := ws @ (repo, pc) # ws'\<rparr>)"
| worker_double: "sy_workers y = ws @ (repo, Doubling) # ws' \<Longrightarrow> sy_schedule_pc y \<noteq> InRun \<Longrightarrow>
    system_step y (y\<lparr>sy_workers := ws @ (repo, after_double repo (schedule_of y)) # ws'\<rparr>)"
| worker_interval: "sy_workers y = ws @ (repo, SettingInterval d) # ws' \<Longrightarrow> sy_schedule_pc y \<noteq> InRun \<Longrightarrow>
    updateInterval repo d r now1 now2 (schedule_of y) = Some s \<Longrightarrow>
    system_step y ((set_schedule s y)\<lparr>sy_workers := ws @ (repo, Finishing) # ws'\<rparr>)"
| worker_finish: "sy_workers y = ws @ (repo, Finishing) # ws' \<Longrightarrow> uq_remove repo True (queue_of y) = Some (b, q) \<Longrightarrow>
    system_step y ((set_queue q y)\<lparr>sy_workers := ws @ ws'\<rparr>)"

section \<open>Invariant\<close>

abbreviation worker_ids :: "system \<Rightarrow> int list" where
  "worker_ids y \<equiv> map (\<lambda>w. cr_ID (fst w)) (sy_workers y)"

text \<open>The queue, the workers and the update loop.\<close>

definition queue_part_ok :: "updateQueue \<Rightarrow> int list \<Rightarrow> bool \<Rightarrow> bool" where
  "queue_part_ok q ids draining \<longleftrightarrow>
     queue_ok q \<and> distinct ids \<and> set ids = updating (uq_abs q) \<and> (waiting (uq_abs q) \<noteq> {} \<longrightarrow> uq_notify q \<or> draining)"

text \<open>The schedule and the schedule loop.\<close>

definition schedule_part_ok :: "schedule \<Rightarrow> schedule_pc \<Rightarrow> bool" where
  "schedule_part_ok s pc \<longleftrightarrow>
     heap_part_ok s \<and> (pc \<noteq> InRun \<longrightarrow> timer_ok s) \<and> sc.entries s 0 = None \<and> intervals_ok (sc.entries s) \<and>
     (\<forall>t. sc_timer s = Some t \<longrightarrow> tm_fired t \<longrightarrow> sc_wakeup s \<or> pc \<noteq> Idle)"

definition system_ok :: "system \<Rightarrow> bool" where
  "system_ok y \<longleftrightarrow>
     queue_part_ok (queue_of y) (worker_ids y) (sy_draining y) \<and> schedule_part_ok (schedule_of y) (sy_schedule_pc y)"

subsection \<open>The queue part\<close>

lemma spec_enqueue_notify_mono: "qt_notify t \<Longrightarrow> qt_notify (snd (spec_enqueue repo p t))"
  by (auto simp: spec_enqueue_def Let_def split: option.splits)

lemma spec_remove_notify: "qt_notify (snd (spec_remove repo b t)) = qt_notify t"
  by (auto simp: spec_remove_def split: option.splits)

lemma enqueue_part_ok:
  assumes "queue_part_ok q ids dr" and run: "enqueue repo p q = Some (b, q')"
  shows "queue_part_ok q' ids dr"
proof -
  have "queue_ok q" "cr_ID repo \<noteq> 0" using assms by (auto simp: queue_part_ok_def enqueue_def split: if_splits)
  then have q': "queue_ok q'" "uq_abs q' = snd (spec_enqueue repo p (uq_abs q))"
    using enqueue_refines [of q repo p] run by auto
  have "uq_notify q' \<or> dr" if "waiting (uq_abs q') \<noteq> {}"
  proof (cases "waiting (uq_abs q) = {}")
    case True
    with that obtain x where "x \<in> waiting (uq_abs q') - waiting (uq_abs q)" by auto
    then show ?thesis using spec_enqueue_notifies [of x repo p "uq_abs q"] by (simp flip: q'(2))
  next
    case False
    then show ?thesis
      using assms(1) spec_enqueue_notify_mono [of "uq_abs q" repo p] by (auto simp: queue_part_ok_def simp flip: q'(2))
  qed
  with assms(1) q' show ?thesis by (auto simp: queue_part_ok_def spec_enqueue_sets)
qed

lemma uq_remove_run:
  assumes "queue_ok q" and run: "uq_remove repo upd q = Some (b, q')"
  shows "queue_ok q'" and "uq_abs q' = snd (spec_remove repo upd (uq_abs q))" and "uq_notify q' = uq_notify q"
proof -
  have "cr_ID repo \<noteq> 0" using run by (auto simp: uq_remove_def split: if_splits)
  then show q': "queue_ok q'" "uq_abs q' = snd (spec_remove repo upd (uq_abs q))"
    using uq_remove_refines [OF assms(1), of repo upd] run by auto
  show "uq_notify q' = uq_notify q" using spec_remove_notify [of repo upd "uq_abs q"] by (simp flip: q'(2))
qed

lemma dequeue_part_ok:
  assumes "queue_part_ok q ids dr" and run: "uq_remove repo False q = Some (b, q')"
  shows "queue_part_ok q' ids dr"
  using assms(1) uq_remove_run [OF _ run] by (auto simp: queue_part_ok_def spec_remove_sets)

lemma finish_part_ok:
  assumes "queue_part_ok q (ids @ cr_ID repo # ids') dr" and run: "uq_remove repo True q = Some (b, q')"
  shows "queue_part_ok q' (ids @ ids') dr"
  using assms(1) uq_remove_run [OF _ run] by (auto simp: queue_part_ok_def spec_remove_sets)

lemma acquireNext_run:
  assumes "queue_ok q" and "acquireNext q = Some (r, q')"
  shows "queue_ok q'" and "r = None \<Longrightarrow> q' = q \<and> waiting (uq_abs q) = {}"
    and "r = Some repo \<Longrightarrow> next_entry (uq_abs q) repo \<and> uq_abs q' = spec_start repo (uq_abs q)"
  using acquireNext_refines [OF assms(1)] assms(2) by (auto split: option.splits)

lemma start_part_ok:
  assumes q: "queue_part_ok q ids dr" and run: "acquireNext q = Some (Some repo, q')"
  shows "queue_part_ok q' (ids @ [cr_ID repo]) True"
proof -
  have "queue_ok q" using q by (simp add: queue_part_ok_def)
  from acquireNext_run [OF this run] have q': "queue_ok q'" "next_entry (uq_abs q) repo" "uq_abs q' = spec_start repo (uq_abs q)"
    by auto
  with spec_start_sets [OF q'(2)] q show ?thesis by (auto simp: queue_part_ok_def)
qed

lemma idle_part_ok:
  assumes q: "queue_part_ok q ids dr" and run: "acquireNext q = Some (None, q')"
  shows "queue_part_ok q' ids False"
  using q acquireNext_run [OF _ run] by (auto simp: queue_part_ok_def)

lemma wake_part_ok: "queue_part_ok q ids dr \<Longrightarrow> queue_part_ok (q\<lparr>uq_notify := False\<rparr>) ids True"
proof -
  assume "queue_part_ok q ids dr"
  moreover have "updating (uq_abs (q\<lparr>uq_notify := False\<rparr>)) = updating (uq_abs q)" by (simp add: updating_def)
  ultimately show ?thesis by (simp add: queue_part_ok_def)
qed

subsection \<open>The schedule part\<close>

lemma minDelay_interval: "lowInterval \<le> minDelay" "minDelay < highInterval"
  by (simp_all add: lowInterval_def highInterval_def minDelay_def maxDelay_def)

definition table_ok :: "(int \<rightharpoonup> scheduledRepoUpdate) \<Rightarrow> bool" where
  "table_ok e \<longleftrightarrow> e 0 = None \<and> intervals_ok e"

lemma table_ok_upd: "table_ok e \<Longrightarrow> x \<noteq> 0 \<Longrightarrow> lowInterval \<le> su_Interval u \<Longrightarrow> su_Interval u < highInterval \<Longrightarrow> table_ok (e(x \<mapsto> u))"
  by (simp add: table_ok_def intervals_ok_def)

lemma table_ok_entry: "table_ok e \<Longrightarrow> e x = Some u \<Longrightarrow> x \<noteq> 0 \<and> lowInterval \<le> su_Interval u \<and> su_Interval u < highInterval"
  by (auto simp: table_ok_def intervals_ok_def)

lemma table_ok_remove: "table_ok e \<Longrightarrow> table_ok (e(x := None))"
  by (simp add: table_ok_def intervals_ok_def)

lemma table_ok_upsert: "table_ok e \<Longrightarrow> cr_ID repo \<noteq> 0 \<Longrightarrow> table_ok (spec_upsert repo due e)"
  using minDelay_interval by (auto simp: spec_upsert_def dest: table_ok_entry intro!: table_ok_upd split: option.splits)

lemma table_ok_prioritise: "table_ok e \<Longrightarrow> \<forall>r \<in> set rs. mr_ID r \<noteq> 0 \<Longrightarrow> table_ok (fold (spec_prioritise due) rs e)"
proof (induction rs arbitrary: e)
  case (Cons r rs)
  have "table_ok (spec_prioritise due r e)"
    using Cons.prems minDelay_interval
    by (auto simp: spec_prioritise_def dest: table_ok_entry intro!: table_ok_upd split: option.splits)
  with Cons show ?case by simp
qed simp

lemma table_ok_insert: "table_ok e \<Longrightarrow> \<forall>r \<in> set repos. cr_ID r \<noteq> 0 \<Longrightarrow> table_ok (fold (spec_insert due) repos e)"
proof (induction repos arbitrary: e)
  case (Cons r rs)
  have "table_ok (spec_insert due r e)"
    using Cons.prems minDelay_interval by (auto simp: spec_insert_def intro!: table_ok_upd)
  with Cons show ?case by simp
qed simp

lemma schedule_part_alt:
  "pc \<noteq> InRun \<Longrightarrow> schedule_part_ok s pc \<longleftrightarrow>
     schedule_ok s \<and> table_ok (sc.entries s) \<and> (\<forall>t. sc_timer s = Some t \<longrightarrow> tm_fired t \<longrightarrow> sc_wakeup s \<or> pc \<noteq> Idle)"
  by (auto simp: schedule_part_ok_def schedule_ok_def table_ok_def)

lemma schedule_part_step:
  assumes "schedule_part_ok s pc" and "pc \<noteq> InRun" and "schedule_ok s'" and "wake_kept s s'" and "table_ok (sc.entries s')"
  shows "schedule_part_ok s' pc"
  using assms by (auto simp: schedule_part_alt wake_kept_def)

lemma upsert_part_ok:
  assumes s: "schedule_part_ok s pc" "pc \<noteq> InRun" and run: "sc_upsert repo now1 now2 s = Some (b, s')"
  shows "schedule_part_ok s' pc"
proof -
  have id: "cr_ID repo \<noteq> 0" using run by (auto simp: sc_upsert_def split: if_splits)
  from s have ok: "schedule_ok s" "table_ok (sc.entries s)" by (simp_all add: schedule_part_alt)
  from sc_upsert_refines [OF ok(1) id, of now1 now2] run
  have "schedule_ok s'" "sc.entries s' = spec_upsert repo (now1 + minDelay) (sc.entries s)" "wake_kept s s'" by auto
  with schedule_part_step [OF s] table_ok_upsert [OF ok(2) id] show ?thesis by simp
qed

lemma remove_part_ok:
  assumes s: "schedule_part_ok s pc" "pc \<noteq> InRun" and run: "sc_remove repo now s = Some (b, s')"
  shows "schedule_part_ok s' pc"
proof -
  have id: "cr_ID repo \<noteq> 0" using run by (auto simp: sc_remove_def split: if_splits)
  from s have ok: "schedule_ok s" "table_ok (sc.entries s)" by (simp_all add: schedule_part_alt)
  from sc_remove_refines [OF ok(1) id, of now] run
  have "schedule_ok s'" "sc.entries s' = (sc.entries s)(cr_ID repo := None)" "wake_kept s s'" by auto
  with schedule_part_step [OF s] table_ok_remove [OF ok(2)] show ?thesis by simp
qed

lemma prioritise_part_ok:
  assumes s: "schedule_part_ok s pc" "pc \<noteq> InRun" and ids: "\<forall>r \<in> set rs. mr_ID r \<noteq> 0"
    and run: "prioritiseUncloned rs now1 now2 s = Some s'"
  shows "schedule_part_ok s' pc"
proof -
  from s have ok: "schedule_ok s" "table_ok (sc.entries s)" by (simp_all add: schedule_part_alt)
  from prioritiseUncloned_refines [OF ok(1), of rs now1 now2] run
  have "schedule_ok s'" "sc.entries s' = fold (spec_prioritise (now1 + minDelay)) rs (sc.entries s)" "wake_kept s s'" by auto
  with schedule_part_step [OF s] table_ok_prioritise [OF ok(2) ids] show ?thesis by simp
qed

lemma insert_part_ok:
  assumes s: "schedule_part_ok s pc" "pc \<noteq> InRun" and ids: "\<forall>r \<in> set rs. mr_ID r \<noteq> 0"
  shows "schedule_part_ok (insertNew rs now1 now2 s) pc"
proof -
  from s have ok: "schedule_ok s" "table_ok (sc.entries s)" by (simp_all add: schedule_part_alt)
  note ins = insertNew_refines [OF ok(1), of rs now1 now2]
  show ?thesis using ids by (intro schedule_part_step [OF s ins(1,2)]) (simp add: ins(3) table_ok_insert [OF ok(2)])
qed

lemma interval_part_ok:
  assumes s: "schedule_part_ok s pc" "pc \<noteq> InRun" and run: "updateInterval repo d r now1 now2 s = Some s'"
  shows "schedule_part_ok s' pc"
proof -
  have id: "cr_ID repo \<noteq> 0" using run by (auto simp: updateInterval_def split: if_splits)
  from s have ok: "schedule_ok s" "table_ok (sc.entries s)" by (simp_all add: schedule_part_alt)
  have upd: "table_ok ((sc.entries s)(cr_ID repo \<mapsto> u\<lparr>su_Interval := j, su_Due := now1 + j\<rparr>))"
    if "lowInterval \<le> j" "j < highInterval" for u j using that table_ok_upd [OF ok(2) id] by simp
  show ?thesis
  proof (rule updateInterval_refines [OF ok(1) id, of d r now1 now2])
    fix s2
    assume s2: "updateInterval repo d r now1 now2 s = Some s2" "schedule_ok s2" "wake_kept s s2"
      and e: "case sc.entries s (cr_ID repo) of None \<Rightarrow> s2 = s
        | Some u \<Rightarrow> (\<exists>j. jitterInterval r (clampInterval d) = Some j \<and> lowInterval \<le> j \<and> j < highInterval \<and>
            sc.entries s2 = (sc.entries s)(cr_ID repo \<mapsto> u\<lparr>su_Interval := j, su_Due := now1 + j\<rparr>))"
    have "table_ok (sc.entries s2)" using e ok(2) upd by (auto split: option.splits simp del: fun_upd_apply)
    with schedule_part_step [OF s s2(2,3)] s2(1) run show ?thesis by simp
  qed
qed

subsection \<open>All steps\<close>

lemma set_simps [simp]:
  "queue_of (set_queue q y) = q" "schedule_of (set_queue q y) = schedule_of y"
  "sy_schedule_pc (set_queue q y) = sy_schedule_pc y" "sy_draining (set_queue q y) = sy_draining y"
  "sy_workers (set_queue q y) = sy_workers y"
  "queue_of (set_schedule s y) = queue_of y" "schedule_of (set_schedule s y) = s"
  "sy_schedule_pc (set_schedule s y) = sy_schedule_pc y" "sy_draining (set_schedule s y) = sy_draining y"
  "sy_workers (set_schedule s y) = sy_workers y"
  by (simp_all add: set_queue_def set_schedule_def)

lemma timer_part_ok: "schedule_part_ok s pc \<Longrightarrow> schedule_part_ok (timer_fires s) pc"
proof -
  assume s: "schedule_part_ok s pc"
  note same = sc_frame_change [of "timer_fires s" s]
  have "timer_ok s \<Longrightarrow> timer_ok (timer_fires s)"
    using same(3) by (simp add: timer_ok_def timer_fires_def split: option.splits)
  with s same show ?thesis by (simp add: schedule_part_ok_def timer_fires_def)
qed

lemma wakeup_part_ok:
  assumes "schedule_part_ok s pc" and "b \<or> pc' \<noteq> Idle" and "pc' \<noteq> InRun \<longrightarrow> pc \<noteq> InRun"
  shows "schedule_part_ok (s\<lparr>sc_wakeup := b\<rparr>) pc'"
proof -
  note same = sc_frame_change [of "s\<lparr>sc_wakeup := b\<rparr>" s, simplified]
  have "timer_ok (s\<lparr>sc_wakeup := b\<rparr>) = timer_ok s" using same(3) by (simp add: timer_ok_def split: option.splits)
  with assms same show ?thesis by (auto simp: schedule_part_ok_def)
qed

lemma lock_part_ok: "schedule_part_ok s pc \<Longrightarrow> schedule_part_ok s InRun"
  by (simp add: schedule_part_ok_def)

lemma reschedule_part_ok: "schedule_part_ok s InRun \<Longrightarrow> schedule_part_ok (rescheduleTimer now s) Idle"
proof -
  assume s: "schedule_part_ok s InRun"
  then have "schedule_ok (rescheduleTimer now s)" by (simp add: schedule_part_ok_def rescheduleTimer_ok)
  moreover have "\<not> tm_fired t" if "sc_timer (rescheduleTimer now s) = Some t" for t
    using that by (auto simp: rescheduleTimer_def Let_def split: if_splits)
  ultimately show ?thesis using s by (auto simp: schedule_part_ok_def schedule_ok_def rescheduleTimer_ok(2))
qed

lemma iterate_ok:
  assumes y: "system_ok y" "sy_schedule_pc y = InRun" "sc_heap (schedule_of y) \<noteq> []"
    and run: "runSchedule_body now (sy_us y) = Some u"
  shows "system_ok (y\<lparr>sy_us := u\<rparr>)"
proof -
  have "run_ok (sy_us y)" using y(1) by (simp add: system_ok_def run_ok_def queue_part_ok_def schedule_part_ok_def)
  from runSchedule_body_refines [OF this y(3), of now] run
  have "run_ok u" "sc_timer (us_schedule u) = sc_timer (schedule_of y)" "sc_wakeup (us_schedule u) = sc_wakeup (schedule_of y)"
    by auto
  moreover obtain repo b where "enqueue repo priorityLow (queue_of y) = Some (b, us_queue u)"
    using run by (auto simp: runSchedule_body_def us_enqueue_def Let_def split: option.splits)
  then have "queue_part_ok (us_queue u) (worker_ids y) (sy_draining y)"
    using y(1) enqueue_part_ok by (auto simp: system_ok_def)
  ultimately show ?thesis using y by (simp add: system_ok_def schedule_part_ok_def run_ok_def)
qed

lemma initial_ok: "system_ok initial_system"
  using new_updateQueue_ok new_schedule_ok
  by (simp add: system_ok_def initial_system_def NewUpdateScheduler_def queue_part_ok_def schedule_part_ok_def schedule_ok_def
      updating_def waiting_def uq_entries_index sc_entries_index intervals_ok_def new_updateQueue_def new_schedule_def)

lemma step_ok:
  assumes "system_step y y'" and y: "system_ok y"
  shows "system_ok y'"
  using assms(1)
proof cases
  case (schedule_iterate now1 now2 u)
  then show ?thesis using iterate_ok [OF y] by simp
qed (use y in \<open>auto simp: system_ok_def intro: enqueue_part_ok dequeue_part_ok finish_part_ok start_part_ok
    idle_part_ok wake_part_ok upsert_part_ok remove_part_ok prioritise_part_ok insert_part_ok interval_part_ok
    timer_part_ok wakeup_part_ok lock_part_ok reschedule_part_ok\<close>)

lemma reachable_ok: "system_step\<^sup>*\<^sup>* initial_system y \<Longrightarrow> system_ok y"
  by (induction rule: rtranclp_induct) (use initial_ok step_ok in auto)

lemma system_no_panic:
  assumes "system_ok y"
  shows "acquireNext (queue_of y) \<noteq> None" and "0 \<notin> set (worker_ids y)"
    and "sc_heap (schedule_of y) \<noteq> [] \<Longrightarrow> runSchedule_body now1 (sy_us y) \<noteq> None"
    and "cr_ID repo \<noteq> 0 \<Longrightarrow> enqueue repo p (queue_of y) \<noteq> None" and "cr_ID repo \<noteq> 0 \<Longrightarrow> uq_remove repo b (queue_of y) \<noteq> None"
    and "cr_ID repo \<noteq> 0 \<Longrightarrow> sy_schedule_pc y \<noteq> InRun \<Longrightarrow> sc_upsert repo now1 now2 (schedule_of y) \<noteq> None"
    and "cr_ID repo \<noteq> 0 \<Longrightarrow> sy_schedule_pc y \<noteq> InRun \<Longrightarrow> sc_remove repo now1 (schedule_of y) \<noteq> None"
    and "cr_ID repo \<noteq> 0 \<Longrightarrow> sy_schedule_pc y \<noteq> InRun \<Longrightarrow> updateInterval repo d r now1 now2 (schedule_of y) \<noteq> None"
    and "sy_schedule_pc y \<noteq> InRun \<Longrightarrow> prioritiseUncloned rs now1 now2 (schedule_of y) \<noteq> None"
proof -
  have q: "queue_ok (queue_of y)" and w: "set (worker_ids y) = updating (uq_abs (queue_of y))" and run: "run_ok (sy_us y)"
    and s: "sy_schedule_pc y \<noteq> InRun \<Longrightarrow> schedule_ok (schedule_of y)"
    using assms by (simp_all add: system_ok_def queue_part_ok_def schedule_part_ok_def run_ok_def schedule_ok_def)
  show "0 \<notin> set (worker_ids y)" using q by (simp only: w) (simp add: updating_def uq_entries_index queue_ok_def)
  show "acquireNext (queue_of y) \<noteq> None" by (rule acquireNext_refines [OF q]) simp
  show "runSchedule_body now1 (sy_us y) \<noteq> None" if "sc_heap (schedule_of y) \<noteq> []"
    by (rule runSchedule_body_refines [OF run that, of now1]) simp
  show "enqueue repo p (queue_of y) \<noteq> None" if "cr_ID repo \<noteq> 0" by (rule enqueue_refines [OF q that, of p]) simp
  show "uq_remove repo b (queue_of y) \<noteq> None" if "cr_ID repo \<noteq> 0" by (rule uq_remove_refines [OF q that, of b]) simp
  show "sc_upsert repo now1 now2 (schedule_of y) \<noteq> None" if "cr_ID repo \<noteq> 0" "sy_schedule_pc y \<noteq> InRun"
    by (rule sc_upsert_refines [OF s [OF that(2)] that(1), of now1 now2]) simp
  show "sc_remove repo now1 (schedule_of y) \<noteq> None" if "cr_ID repo \<noteq> 0" "sy_schedule_pc y \<noteq> InRun"
    by (rule sc_remove_refines [OF s [OF that(2)] that(1), of now1]) simp
  show "updateInterval repo d r now1 now2 (schedule_of y) \<noteq> None" if "cr_ID repo \<noteq> 0" "sy_schedule_pc y \<noteq> InRun"
    by (rule updateInterval_refines [OF s [OF that(2)] that(1), of d r now1 now2]) simp
  show "prioritiseUncloned rs now1 now2 (schedule_of y) \<noteq> None" if "sy_schedule_pc y \<noteq> InRun"
    by (rule prioritiseUncloned_refines [OF s [OF that], of rs now1 now2]) simp
qed

lemma schedule_part_timer:
  assumes "schedule_part_ok s pc" and "pc \<noteq> InRun" and "sc.entries s x = Some u"
  shows "\<exists>t d. sc_timer s = Some t \<and> first_due (sc.entries s) d \<and> tm_delay t = time_Sub d (tm_start t) \<and>
    (tm_fired t \<longrightarrow> sc_wakeup s \<or> pc = Woken)"
proof -
  have "timer_ok s" "heap_part_ok s" using assms by (simp_all add: schedule_part_ok_def)
  then have "case sc_timer s of None \<Rightarrow> sc.entries s = Map.empty
      | Some t \<Rightarrow> \<exists>d. first_due (sc.entries s) d \<and> tm_delay t = time_Sub d (tm_start t)"
    by (simp add: timer_ok_table)
  with assms(3) obtain t d where t: "sc_timer s = Some t" "first_due (sc.entries s) d" "tm_delay t = time_Sub d (tm_start t)"
    by (auto split: option.splits)
  moreover have "tm_fired t \<longrightarrow> sc_wakeup s \<or> pc = Woken"
    using t(1) assms(1,2) by (cases pc) (auto simp: schedule_part_ok_def)
  ultimately show ?thesis by blast
qed

section \<open>The update loop\<close>

text \<open>
  The inner loop of \<open>runUpdateLoop\<close> when the limiter admits every update and no other step interferes:
  the repositories for which it starts a worker, in order.
\<close>

fun drain :: "nat \<Rightarrow> updateQueue \<Rightarrow> (configuredRepo list \<times> updateQueue) run" where
  "drain 0 q = OutOfIterations"
| "drain (Suc n) q =
     (case acquireNext q of
        None \<Rightarrow> RunPanicked
      | Some (None, q') \<Rightarrow> Returned ([], q')
      | Some (Some repo, q') \<Rightarrow>
          (case drain n q' of
             Returned (rs, q'') \<Rightarrow> Returned (repo # rs, q'')
           | RunPanicked \<Rightarrow> RunPanicked
           | OutOfIterations \<Rightarrow> OutOfIterations))"

text \<open>The order in which repositories are updated.\<close>

definition before :: "queue_table \<Rightarrow> configuredRepo \<Rightarrow> configuredRepo \<Rightarrow> bool" where
  "before t r r' \<longleftrightarrow>
     (case (qt_entries t (cr_ID r), qt_entries t (cr_ID r')) of
        (Some u, Some v) \<Rightarrow> ru_Priority v < ru_Priority u \<or> ru_Priority v = ru_Priority u \<and> ru_Seq u < ru_Seq v
      | _ \<Rightarrow> False)"

lemma next_entry_before:
  assumes "seq_ok t" and "next_entry t repo" and "cr_ID r \<in> waiting t" and "cr_ID r \<noteq> cr_ID repo"
  shows "before t repo r"
proof -
  obtain u where u: "qt_entries t (cr_ID repo) = Some u" using assms(2) by (auto simp: next_entry_def)
  obtain v where v: "qt_entries t (cr_ID r) = Some v" "\<not> ru_Updating v" using assms(3) by (auto simp: waiting_def)
  from next_entry_first [OF assms(1,2) u v assms(4)] u v show ?thesis by (simp add: before_def)
qed

lemma before_start:
  assumes "cr_ID r \<noteq> cr_ID repo" and "cr_ID r' \<noteq> cr_ID repo"
  shows "before (spec_start repo t) r r' = before t r r'"
  using assms by (simp add: before_def spec_start_def)

lemma drain_all:
  assumes "queue_ok q" and "seq_ok (uq_abs q)" and "card (waiting (uq_abs q)) < n"
  shows "\<exists>rs q'. drain n q = Returned (rs, q') \<and> queue_ok q' \<and> waiting (uq_abs q') = {} \<and>
    updating (uq_abs q') = updating (uq_abs q) \<union> waiting (uq_abs q) \<and>
    distinct (map cr_ID rs) \<and> set (map cr_ID rs) = waiting (uq_abs q) \<and> sorted_wrt (before (uq_abs q)) rs"
  using assms
proof (induction n arbitrary: q)
  case 0
  then show ?case by simp
next
  case (Suc n)
  obtain r q1 where run: "acquireNext q = Some (r, q1)" by (rule acquireNext_refines [OF Suc.prems(1)])
  note acq = acquireNext_run [OF Suc.prems(1) run]
  show ?case
  proof (cases r)
    case None
    with run acq(1,2) show ?thesis by simp
  next
    case (Some repo)
    then have nx: "next_entry (uq_abs q) repo" and abs: "uq_abs q1 = spec_start repo (uq_abs q)" using acq(3) by auto
    note sets = spec_start_sets [OF nx, folded abs]
    have "card (waiting (uq_abs q1)) < n"
      using Suc.prems(3) card_Diff1_less [OF finite_waiting [OF Suc.prems(1)] sets(1)] sets(3) by simp
    moreover have "seq_ok (uq_abs q1)" using abs spec_start_seq_ok [OF Suc.prems(2)] by simp
    ultimately obtain rs q' where d: "drain n q1 = Returned (rs, q')" "queue_ok q'" "waiting (uq_abs q') = {}"
      "updating (uq_abs q') = updating (uq_abs q1) \<union> waiting (uq_abs q1)" "distinct (map cr_ID rs)"
      "set (map cr_ID rs) = waiting (uq_abs q1)" "sorted_wrt (before (uq_abs q1)) rs"
      using Suc.IH [OF acq(1)] by blast
    have other: "cr_ID r \<noteq> cr_ID repo \<and> cr_ID r \<in> waiting (uq_abs q)" if "r \<in> set rs" for r
      using that d(6) sets(3) by auto
    then have "sorted_wrt (before (uq_abs q)) rs"
      using d(7) by (elim sorted_wrt_mono_rel [rotated]) (simp add: abs before_start)
    moreover have "\<forall>r \<in> set rs. before (uq_abs q) repo r" using next_entry_before [OF Suc.prems(2) nx] other by blast
    ultimately have sorted: "sorted_wrt (before (uq_abs q)) (repo # rs)" by simp
    have "drain (Suc n) q = Returned (repo # rs, q')" using run Some d(1) by simp
    moreover have "distinct (map cr_ID (repo # rs))" "set (map cr_ID (repo # rs)) = waiting (uq_abs q)"
      "updating (uq_abs q') = updating (uq_abs q) \<union> waiting (uq_abs q)"
      using d(4-6) sets by auto
    ultimately show ?thesis using d(2,3) sorted by blast
  qed
qed

lemma waiting_notify: "waiting (uq_abs (q\<lparr>uq_notify := b\<rparr>)) = waiting (uq_abs q)"
  "updating (uq_abs (q\<lparr>uq_notify := b\<rparr>)) = updating (uq_abs q)"
  by (simp_all add: waiting_def updating_def)

lemma drain_steps:
  assumes "queue_ok (queue_of y)" and "sy_draining y"
  shows "\<exists>y'. system_step\<^sup>*\<^sup>* y y' \<and> waiting (uq_abs (queue_of y')) = {} \<and>
    set (worker_ids y') = set (worker_ids y) \<union> waiting (uq_abs (queue_of y))"
  using assms
proof (induction "card (waiting (uq_abs (queue_of y)))" arbitrary: y rule: less_induct)
  case less
  obtain r q1 where run: "acquireNext (queue_of y) = Some (r, q1)" by (rule acquireNext_refines [OF less.prems(1)])
  note acq = acquireNext_run [OF less.prems(1) run]
  show ?case
  proof (cases r)
    case None
    with acq(2) have "waiting (uq_abs (queue_of y)) = {}" by simp
    then show ?thesis by auto
  next
    case (Some repo)
    let ?y = "(set_queue q1 y)\<lparr>sy_workers := sy_workers y @ [(repo, Requesting)]\<rparr>"
    have st: "system_step y ?y" using system_step.update_start [OF less.prems(2)] run Some by simp
    have nx: "next_entry (uq_abs (queue_of y)) repo" and abs: "uq_abs q1 = spec_start repo (uq_abs (queue_of y))"
      using acq(3) Some by auto
    note sets = spec_start_sets [OF nx, folded abs]
    have "card (waiting (uq_abs (queue_of ?y))) < card (waiting (uq_abs (queue_of y)))"
      using card_Diff1_less [OF finite_waiting [OF less.prems(1)] sets(1)] sets(3) by simp
    from less.hyps [OF this] acq(1) less.prems(2) obtain y' where y': "system_step\<^sup>*\<^sup>* ?y y'" "waiting (uq_abs (queue_of y')) = {}"
      "set (worker_ids y') = set (worker_ids ?y) \<union> waiting (uq_abs (queue_of ?y))" by auto
    have "set (worker_ids y') = set (worker_ids y) \<union> waiting (uq_abs (queue_of y))"
      unfolding y'(3) using sets(1,3) by auto
    with y'(2) converse_rtranclp_into_rtranclp [OF st y'(1)] show ?thesis by blast
  qed
qed

lemma wake_and_drain:
  assumes y: "system_ok y"
  shows "\<exists>y'. system_step\<^sup>*\<^sup>* y y' \<and> waiting (uq_abs (queue_of y')) = {} \<and>
    set (worker_ids y') = set (worker_ids y) \<union> waiting (uq_abs (queue_of y))"
proof -
  have q: "queue_ok (queue_of y)" and w: "waiting (uq_abs (queue_of y)) \<noteq> {} \<longrightarrow> uq_notify (queue_of y) \<or> sy_draining y"
    using y by (simp_all add: system_ok_def queue_part_ok_def)
  consider "waiting (uq_abs (queue_of y)) = {}" | "sy_draining y" | "\<not> sy_draining y" "uq_notify (queue_of y)"
    using w by blast
  then show ?thesis
  proof cases
    case 1
    then show ?thesis by auto
  next
    case 2
    then show ?thesis by (rule drain_steps [OF q])
  next
    case 3
    let ?y = "(set_queue ((queue_of y)\<lparr>uq_notify := False\<rparr>) y)\<lparr>sy_draining := True\<rparr>"
    have st: "system_step y ?y" by (rule system_step.update_wake [OF 3])
    obtain y' where y': "system_step\<^sup>*\<^sup>* ?y y'" "waiting (uq_abs (queue_of y')) = {}"
      "set (worker_ids y') = set (worker_ids y) \<union> waiting (uq_abs (queue_of y))"
      using drain_steps [of ?y] q by (auto simp: waiting_notify simp del: uq_abs_notify)
    with converse_rtranclp_into_rtranclp [OF st y'(1)] show ?thesis by blast
  qed
qed

section \<open>Restarting the loops\<close>




text \<open>The jitter is applied after the interval has been limited, so an interval can be shorter than \<open>minDelay\<close>.\<close>

lemma jitter_below_minDelay: "jitterInterval 0 (clampInterval 0) = Some 42750000000" "42750000000 < minDelay"
  by (simp_all add: jitterInterval_def clampInterval_def minDelay_def maxDelay_def Int63n_def wrap64_def)

end
