(* ===== verification/Mutable_Limiter.thy ===== *)
theory Mutable_Limiter
  imports Prelude
begin

text \<open>
  The limiter of \<open>internal/limiter/mutable.go\<close>, a semaphore whose capacity can change while it is in
  use. One goroutine owns the state and serves one request at a time, so its state is a record and
  every case of its \<open>select\<close> is an operation.

  The contexts handed out are numbered; the list \<open>ml_held\<close> is \<open>cancelFuncs\<close>, oldest first, and
  \<open>ml_canceled\<close> has the contexts whose cancel function was called, in the order of the calls.

  Shown here: the limiter never holds more contexts than a limit that is not negative, every
  context it no longer holds is canceled and no other, lowering the limit cancels the oldest, and
  a request is admitted exactly when the limit is not reached.
\<close>

section \<open>State and operations\<close>

record MutableLimiter =
  ml_limit :: int
  ml_held :: "nat list"
  ml_next :: nat
  ml_canceled :: "nat list"

definition NewMutable :: "int \<Rightarrow> MutableLimiter" where
  "NewMutable limit = \<lparr>ml_limit = limit, ml_held = [], ml_next = 0, ml_canceled = []\<rparr>"

fun release_down :: "int \<Rightarrow> nat list \<Rightarrow> nat list \<Rightarrow> nat list \<times> nat list" where
  "release_down limit [] canceled = ([], canceled)"
| "release_down limit (el # held) canceled =
     (if limit \<ge> 0 \<and> int (length (el # held)) > limit then release_down limit held (canceled @ [el])
      else (el # held, canceled))"

definition SetLimit :: "int \<Rightarrow> MutableLimiter \<Rightarrow> MutableLimiter" where
  "SetLimit limit l =
     (case release_down limit (ml_held l) (ml_canceled l) of
        (held, canceled) \<Rightarrow> l\<lparr>ml_limit := limit, ml_held := held, ml_canceled := canceled\<rparr>)"

definition ml_release :: "nat \<Rightarrow> MutableLimiter \<Rightarrow> MutableLimiter" where
  "ml_release el l = l\<lparr>ml_held := remove1 el (ml_held l), ml_canceled := ml_canceled l @ [el]\<rparr>"

definition GetLimit :: "MutableLimiter \<Rightarrow> int \<times> nat" where
  "GetLimit l = (ml_limit l, length (ml_held l))"

text \<open>A request waits while the limit is reached: it is not served then.\<close>

definition Acquire :: "MutableLimiter \<Rightarrow> (nat \<times> MutableLimiter) option" where
  "Acquire l =
     (if int (length (ml_held l)) = ml_limit l then None
      else let el = ml_next l in Some (el, l\<lparr>ml_held := ml_held l @ [el], ml_next := el + 1\<rparr>))"

text \<open>What the goroutine can do; only a context that was handed out is released.\<close>

inductive limiter_step :: "MutableLimiter \<Rightarrow> MutableLimiter \<Rightarrow> bool" where
  adjust: "limiter_step l (SetLimit limit l)"
| release: "el < ml_next l \<Longrightarrow> limiter_step l (ml_release el l)"
| acquire: "Acquire l = Some (el, l') \<Longrightarrow> limiter_step l l'"

section \<open>Correctness\<close>

definition limiter_ok :: "MutableLimiter \<Rightarrow> bool" where
  "limiter_ok l \<longleftrightarrow>
     (0 \<le> ml_limit l \<longrightarrow> int (length (ml_held l)) \<le> ml_limit l) \<and> sorted_wrt (<) (ml_held l) \<and>
     set (ml_held l) \<inter> set (ml_canceled l) = {} \<and> set (ml_held l) \<union> set (ml_canceled l) = {..< ml_next l}"

lemma release_down_split:
  "release_down limit held canceled =
     (let k = if limit \<ge> 0 then length held - nat limit else 0 in (drop k held, canceled @ take k held))"
proof (induction held arbitrary: canceled)
  case (Cons el held)
  show ?case
  proof (cases "0 \<le> limit \<and> int (length (el # held)) > limit")
    case True
    then have "length (el # held) - nat limit = Suc (length held - nat limit)" by auto
    with True Cons.IH show ?thesis by (simp add: Let_def)
  qed (auto simp: Let_def)
qed simp

lemma NewMutable_ok: "limiter_ok (NewMutable limit)"
  by (simp add: limiter_ok_def NewMutable_def)

lemma SetLimit_ok:
  assumes "limiter_ok l"
  shows "limiter_ok (SetLimit limit l)"
proof -
  define k where "k = (if limit \<ge> 0 then length (ml_held l) - nat limit else 0)"
  have l: "sorted_wrt (<) (ml_held l)" "set (ml_held l) \<inter> set (ml_canceled l) = {}"
    "set (ml_held l) \<union> set (ml_canceled l) = {..< ml_next l}" using assms by (simp_all add: limiter_ok_def)
  have run: "SetLimit limit l = l\<lparr>ml_limit := limit, ml_held := drop k (ml_held l), ml_canceled := ml_canceled l @ take k (ml_held l)\<rparr>"
    by (simp add: SetLimit_def release_down_split Let_def k_def)
  have "distinct (ml_held l)" using l(1) by (simp add: strict_sorted_iff)
  then have "set (drop k (ml_held l)) \<inter> set (take k (ml_held l)) = {}"
    using set_take_disj_set_drop_if_distinct [of "ml_held l" k k] by blast
  moreover have "set (take k (ml_held l)) \<union> set (drop k (ml_held l)) = set (ml_held l)" by (metis append_take_drop_id set_append)
  moreover have "sorted_wrt (<) (drop k (ml_held l))" using l(1) by (rule sorted_wrt_drop)
  moreover have "0 \<le> limit \<longrightarrow> int (length (drop k (ml_held l))) \<le> limit" by (auto simp: k_def)
  ultimately show ?thesis using l(2,3) unfolding run limiter_ok_def by auto
qed

lemma ml_release_ok: "limiter_ok l \<Longrightarrow> el < ml_next l \<Longrightarrow> limiter_ok (ml_release el l)"
proof -
  assume l: "limiter_ok l" and el: "el < ml_next l"
  then have "distinct (ml_held l)" by (simp add: limiter_ok_def strict_sorted_iff)
  moreover have "int (length (remove1 el (ml_held l))) \<le> int (length (ml_held l))" by (simp add: length_remove1)
  moreover have "sorted_wrt (<) (remove1 el (ml_held l))" using l by (simp add: limiter_ok_def strict_sorted_iff sorted_remove1 distinct_remove1)
  ultimately show ?thesis using l el by (auto simp: limiter_ok_def ml_release_def)
qed

lemma Acquire_ok:
  assumes l: "limiter_ok l" and run: "Acquire l = Some (el, l')"
  shows "limiter_ok l'"
proof -
  have l': "int (length (ml_held l)) \<noteq> ml_limit l" "l' = l\<lparr>ml_held := ml_held l @ [ml_next l], ml_next := ml_next l + 1\<rparr>"
    using run by (auto simp: Acquire_def Let_def split: if_splits)
  have all: "set (ml_held l) \<union> set (ml_canceled l) = {..< ml_next l}" using l by (simp add: limiter_ok_def)
  then have "\<forall>x \<in> set (ml_held l). x < ml_next l" "ml_next l \<notin> set (ml_canceled l)" by auto
  moreover have "insert (ml_next l) {..< ml_next l} = {..< ml_next l + 1}" by auto
  ultimately show ?thesis using l l'(1) all unfolding l'(2) by (auto simp: limiter_ok_def sorted_wrt_append)
qed

lemma limiter_step_ok: "limiter_step l l' \<Longrightarrow> limiter_ok l \<Longrightarrow> limiter_ok l'"
  by (auto elim!: limiter_step.cases intro: SetLimit_ok ml_release_ok Acquire_ok)

lemma limiter_reachable_ok: "limiter_step\<^sup>*\<^sup>* (NewMutable limit) l \<Longrightarrow> limiter_ok l"
  by (induction rule: rtranclp_induct) (use NewMutable_ok limiter_step_ok in auto)

end
