(* ===== verification/Graph_Order.thy ===== *)
theory Graph_Order
  imports Prelude
begin

text \<open>
  Lists of nodes in topological order, parents first: the order that the migration graph
  (\<open>internal/database/migration/definition\<close>) and the commit graph (\<open>internal/gitserver/gitdomain\<close>)
  are kept in. Shown here: induction along such a list, and paths never return to a node.
\<close>

primrec parents_first :: "('a \<Rightarrow> 'a list) \<Rightarrow> 'a list \<Rightarrow> 'a list \<Rightarrow> bool" where
  "parents_first par seen [] \<longleftrightarrow> True"
| "parents_first par seen (x # xs) \<longleftrightarrow> set (par x) \<subseteq> set seen \<and> parents_first par (x # seen) xs"

lemma parents_first_append:
  "parents_first par seen (xs @ ys) \<longleftrightarrow> parents_first par seen xs \<and> parents_first par (rev xs @ seen) ys"
  by (induction xs arbitrary: seen) auto

lemma parents_first_split:
  "parents_first par seen xs \<longleftrightarrow> (\<forall>ys x zs. xs = ys @ x # zs \<longrightarrow> set (par x) \<subseteq> set seen \<union> set ys)"
proof (induction xs arbitrary: seen)
  case (Cons a xs)
  show ?case (is "_ = ?rhs")
  proof
    assume l: "parents_first par seen (a # xs)"
    show ?rhs
    proof (intro allI impI)
      fix ys x zs
      assume e: "a # xs = ys @ x # zs"
      show "set (par x) \<subseteq> set seen \<union> set ys"
      proof (cases ys)
        case (Cons b bs)
        with e l Cons.IH [of "a # seen"] show ?thesis by auto
      qed (use e l in simp)
    qed
  next
    assume r: ?rhs
    from r have "set (par a) \<subseteq> set seen" by force
    moreover have "\<forall>ys x zs. xs = ys @ x # zs \<longrightarrow> set (par x) \<subseteq> set (a # seen) \<union> set ys"
    proof (intro allI impI)
      fix ys x zs
      assume "xs = ys @ x # zs"
      then have "a # xs = (a # ys) @ x # zs" by simp
      with r have "set (par x) \<subseteq> set seen \<union> set (a # ys)" by blast
      then show "set (par x) \<subseteq> set (a # seen) \<union> set ys" by simp
    qed
    ultimately show "parents_first par seen (a # xs)" using Cons.IH [of "a # seen"] by simp
  qed
qed simp

lemma parents_first_filter:
  assumes "parents_first par seen xs" and "\<And>x p. x \<in> set xs \<Longrightarrow> P x \<Longrightarrow> p \<in> set (par x) \<Longrightarrow> p \<in> set xs \<Longrightarrow> P p"
  shows "parents_first par seen (filter P xs)"
proof -
  have "parents_first par seen' (filter P ys)"
    if "parents_first par seen0 ys" "set ys \<subseteq> set xs" "set seen0 \<subseteq> set seen \<union> set xs"
      "set seen' = set seen \<union> {x \<in> set seen0. P x \<or> x \<in> set seen}" for ys seen0 seen'
    using that
  proof (induction ys arbitrary: seen0 seen')
    case (Cons y ys)
    have rest: "parents_first par (y # seen0) ys" and y: "set (par y) \<subseteq> set seen0" using Cons.prems(1) by simp_all
    show ?case
    proof (cases "P y")
      case True
      have "set (par y) \<subseteq> set seen'"
      proof
        fix p
        assume p: "p \<in> set (par y)"
        then have "p \<in> set seen0" using y by auto
        with Cons.prems(2-4) assms(2) [of y p] True p show "p \<in> set seen'" by auto
      qed
      moreover have "parents_first par (y # seen') (filter P ys)"
        using Cons.IH [OF rest, of "y # seen'"] Cons.prems True by auto
      ultimately show ?thesis using True by simp
    next
      case False
      then show ?thesis using Cons.IH [OF rest, of seen'] Cons.prems by auto
    qed
  qed simp
  from this [OF assms(1) subset_refl, of seen] show ?thesis by auto
qed

text \<open>The same with nodes that are there from the start.\<close>

lemma parents_first_filter_seen:
  assumes "parents_first par seen0 xs" and "\<forall>x \<in> set xs. P x \<longrightarrow> (\<forall>p \<in> set (par x). P p \<or> p \<in> set seen)"
    and "set seen \<subseteq> set seen'" and "\<forall>x \<in> set seen0. P x \<longrightarrow> x \<in> set seen'"
  shows "parents_first par seen' (filter P xs)"
  using assms
proof (induction xs arbitrary: seen0 seen')
  case (Cons x xs)
  have pf: "parents_first par (x # seen0) xs" "set (par x) \<subseteq> set seen0" using Cons.prems(1) by simp_all
  have P: "\<forall>x \<in> set xs. P x \<longrightarrow> (\<forall>p \<in> set (par x). P p \<or> p \<in> set seen)" using Cons.prems(2) by simp
  show ?case
  proof (cases "P x")
    case True
    have "set (par x) \<subseteq> set seen'"
    proof
      fix p
      assume p: "p \<in> set (par x)"
      then have "P p \<or> p \<in> set seen" using Cons.prems(2) True by simp
      with Cons.prems(3,4) p pf(2) show "p \<in> set seen'" by blast
    qed
    moreover have "parents_first par (x # seen') (filter P xs)"
      by (rule Cons.IH [OF pf(1) P]) (use Cons.prems(3,4) in auto)
    ultimately show ?thesis using True by simp
  next
    case False
    then have "parents_first par seen' (filter P xs)"
      by (intro Cons.IH [OF pf(1) P]) (use Cons.prems(3,4) in auto)
    with False show ?thesis by simp
  qed
qed simp

text \<open>Induction from the parents to a node.\<close>

lemma parents_first_induct [consumes 2, case_names node]:
  assumes "parents_first par [] xs" and "x \<in> set xs"
    and step: "\<And>x. x \<in> set xs \<Longrightarrow> (\<And>p. p \<in> set (par x) \<Longrightarrow> p \<in> set xs \<and> P p) \<Longrightarrow> P x"
  shows "P x"
proof -
  have "\<forall>x \<in> set ys. P x" if "xs = ys @ zs" for ys zs
    using that
  proof (induction ys arbitrary: zs rule: rev_induct)
    case (snoc y ys)
    then have "\<forall>x \<in> set ys. P x" and "set (par y) \<subseteq> set ys" using assms(1) by (auto simp: parents_first_append)
    with snoc.prems step [of y] show ?case by auto
  qed simp
  from this [of xs "[]"] assms(2) show ?thesis by simp
qed

text \<open>The position of a node, and that every parent has a smaller one.\<close>

definition node_pos :: "'a list \<Rightarrow> 'a \<Rightarrow> nat" where
  "node_pos xs x = length (takeWhile (\<lambda>y. y \<noteq> x) xs)"

lemma parents_first_pos:
  assumes "parents_first par [] xs" and "x \<in> set xs" and "p \<in> set (par x)"
  shows "p \<in> set xs" and "node_pos xs p < node_pos xs x"
proof -
  obtain ys zs where x: "xs = ys @ x # zs" "x \<notin> set ys" using split_list_first [OF assms(2)] by blast
  with assms(1,3) have p: "p \<in> set ys" by (auto simp: parents_first_split)
  then show "p \<in> set xs" using x by simp
  have "takeWhile (\<lambda>y. y \<noteq> x) xs = ys" using x by (auto simp: takeWhile_tail)
  moreover have "takeWhile (\<lambda>y. y \<noteq> p) xs = takeWhile (\<lambda>y. y \<noteq> p) ys" using p x(1) by (simp add: takeWhile_append1 [OF p])
  moreover have "length (takeWhile (\<lambda>y. y \<noteq> p) ys) < length ys" using p by (induction ys) auto
  ultimately show "node_pos xs p < node_pos xs x" by (simp add: node_pos_def)
qed

lemma node_pos_less: "x \<in> set xs \<Longrightarrow> node_pos xs x < length xs"
  by (induction xs) (auto simp: node_pos_def)

lemma parents_first_last:
  assumes "parents_first par [] (ys @ [y])" and "distinct (ys @ [y])" and "c \<in> set (ys @ [y])"
  shows "y \<notin> set (par c)"
proof
  assume "y \<in> set (par c)"
  then have "node_pos (ys @ [y]) y < node_pos (ys @ [y]) c" using parents_first_pos(2) [OF assms(1,3)] by simp
  moreover have "takeWhile (\<lambda>z. z \<noteq> y) (ys @ [y]) = ys" using assms(2) by (auto simp: takeWhile_tail)
  then have "node_pos (ys @ [y]) y = length ys" by (simp add: node_pos_def)
  moreover have "node_pos (ys @ [y]) c < length (ys @ [y])" by (rule node_pos_less [OF assms(3)])
  ultimately show False by simp
qed

lemma parents_first_rev:
  assumes xs: "distinct xs" "parents_first ch [] xs" and edge: "\<And>p c. c \<in> set (ch p) \<longleftrightarrow> p \<in> set (par c)"
    and known: "\<And>x. x \<in> set xs \<Longrightarrow> set (par x) \<subseteq> set xs"
  shows "parents_first par [] (rev xs)"
  unfolding parents_first_split
proof (intro allI impI subsetI)
  fix ys x zs p
  assume r: "rev xs = ys @ x # zs" and p: "p \<in> set (par x)"
  then have e: "xs = rev zs @ x # rev ys" by (metis append.assoc append_Cons append_Nil rev.simps(2) rev_append rev_rev_ident)
  have "p \<in> set xs" using known [of x] p e by auto
  moreover have "p \<notin> set (rev zs @ [x])"
  proof
    assume "p \<in> set (rev zs @ [x])"
    then obtain as bs where ab: "rev zs @ [x] = as @ p # bs" by (metis split_list)
    then have "xs = as @ p # (bs @ rev ys)" using e by (metis append.assoc append_Cons append_Nil)
    with xs(2) edge p have "x \<in> set as" unfolding parents_first_split by fastforce
    with ab have "x \<in> set (rev zs)" by (cases bs rule: rev_cases) auto
    with xs(1) e show False by simp
  qed
  ultimately show "p \<in> set [] \<union> set ys" using e by auto
qed

lemma parents_first_acyclic:
  assumes "parents_first par [] xs" and "\<And>p c. (p, c) \<in> E \<Longrightarrow> c \<in> set xs \<and> p \<in> set (par c)"
  shows "acyclic E"
proof (rule wf_acyclic, rule wf_subset)
  show "wf (measure (node_pos xs))" by simp
  show "E \<subseteq> measure (node_pos xs)" using assms parents_first_pos(2) by fastforce
qed

text \<open>A path from a node to a descendant goes from parents to children.\<close>

inductive down_path :: "('a \<Rightarrow> 'a list) \<Rightarrow> 'a list \<Rightarrow> bool" for par where
  single: "down_path par [x]"
| extend: "down_path par (p # path) \<Longrightarrow> x \<in> set (par p) \<Longrightarrow> down_path par (x # p # path)"

inductive_cases down_path_consE: "down_path par (x # path)"

inductive_simps down_path_simps [simp]: "down_path par []" "down_path par [x]" "down_path par (x # y # path)"

lemma down_path_append:
  "down_path par (xs @ [x]) \<Longrightarrow> down_path par (x # ys) \<Longrightarrow> down_path par (xs @ x # ys)"
proof (induction xs)
  case (Cons a xs)
  then show ?case by (cases xs) auto
qed simp

lemma down_path_prefix: "down_path par (xs @ x # ys) \<Longrightarrow> down_path par (xs @ [x])"
proof (induction xs)
  case (Cons a xs)
  then show ?case by (cases xs) auto
qed simp

lemma down_path_suffix: "down_path par (xs @ x # ys) \<Longrightarrow> down_path par (x # ys)"
proof (induction xs)
  case (Cons a xs)
  then show ?case by (cases xs) auto
qed simp

lemma down_path_last: "down_path par (xs @ [p]) \<Longrightarrow> p \<in> set (par x) \<Longrightarrow> down_path par (xs @ [p, x])"
  using down_path_append [of par xs p "[x]"] by simp

end
