(* ===== verification/Migration_Definitions.thy ===== *)
theory Migration_Definitions
  imports Graph_Order Go_Strconv "HOL-Library.Multiset"
begin

text \<open>
  The database migrations of \<open>internal/database/migration/definition\<close>: a graph of definitions in
  which each names its parents, brought into an order in which parents come first
  (\<open>read.go\<close>), and the questions that are asked of it (\<open>definition.go\<close>).

  A query is the format string that is given to the query builder; SQL text, regular expressions and
  YAML belong to other packages. The depth-first search takes a bound on its depth, one more than the
  number of definitions. A Go error is the left side of a sum; a panic is the error \<open>MigrationPanic\<close>.

  Shown here: ordering ends, without a panic if the identifiers are distinct; it succeeds exactly for
  acyclic graphs with one root and known parents; the result is a permutation with parents first; and
  a reported cycle is a cycle of the graph.
\<close>

section \<open>Data\<close>

record IndexMetadata =
  im_TableName :: string
  im_IndexName :: string

record Definition =
  mg_ID :: int
  mg_Name :: string
  mg_UpQuery :: string
  mg_DownQuery :: string
  mg_Privileged :: bool
  mg_NonIdempotent :: bool
  mg_Parents :: "int list"
  mg_IsCreateIndexConcurrently :: bool
  mg_IndexMetadata :: "IndexMetadata option"

record Definitions =
  ds_definitions :: "Definition list"
  ds_definitionsMap :: "int \<rightharpoonup> Definition"

datatype migration_error =
    UnknownMigration int "int option"
  | NoRoots
  | MultipleRoots "int list"
  | DependencyCycle "int list"
  | IllegalFilter int int
  | MigrationPanic
  | DepthExceeded

abbreviation mg_ids :: "Definition list \<Rightarrow> int list" where
  "mg_ids defs \<equiv> map mg_ID defs"

fun definitionsMap :: "Definition list \<Rightarrow> (int \<rightharpoonup> Definition)" where
  "definitionsMap [] = Map.empty"
| "definitionsMap (d # defs) = (Map.empty(mg_ID d \<mapsto> d)) ++ definitionsMap defs"

definition newDefinitions :: "Definition list \<Rightarrow> Definitions" where
  "newDefinitions defs = \<lparr>ds_definitions = defs, ds_definitionsMap = definitionsMap defs\<rparr>"

section \<open>Ordering\<close>

fun children :: "Definition list \<Rightarrow> int \<Rightarrow> int list" where
  "children [] p = []"
| "children (d # defs) p = replicate (count_list (mg_Parents d) p) (mg_ID d) @ children defs p"

definition migration_root :: "Definition list \<Rightarrow> migration_error + int" where
  "migration_root defs =
     (let roots = map mg_ID (filter (\<lambda>d. mg_Parents d = []) defs) in
      if length roots = 0 then Inl NoRoots
      else if length roots > 1 then Inl (MultipleRoots roots)
      else Inr (roots ! 0))"

datatype MarkType = MarkTypeUnvisited | MarkTypeVisiting | MarkTypeVisited

record search =
  sr_order :: "int list"
  sr_marks :: "int \<rightharpoonup> MarkType"

text \<open>
  \<open>dfs\<close> visits a node and \<open>dfs_each\<close> the nodes of a list. A node without a mark is unvisited; \<open>MarkTypeUnvisited\<close> is never stored. The
  second argument is the bound on the depth, \<open>parents\<close> is the path from the start of the search.
\<close>

fun dfs :: "(int \<Rightarrow> int list) \<Rightarrow> nat \<Rightarrow> int \<Rightarrow> int list \<Rightarrow> search \<Rightarrow> migration_error + search"
  and dfs_each :: "(int \<Rightarrow> int list) \<Rightarrow> nat \<Rightarrow> int list \<Rightarrow> int list \<Rightarrow> search \<Rightarrow> migration_error + search" where
  "dfs childMap 0 x parents s = Inl DepthExceeded"
| "dfs childMap (Suc n) x parents s =
     (if sr_marks s x = Some MarkTypeVisiting then
        let parents' = dropWhile (\<lambda>p. p \<noteq> x) parents in
        if parents' = [] then Inl MigrationPanic else Inl (DependencyCycle (parents' @ [x]))
      else if sr_marks s x = Some MarkTypeVisited then Inr s
      else
        case dfs_each childMap n (childMap x) (parents @ [x]) (s\<lparr>sr_marks := (sr_marks s)(x \<mapsto> MarkTypeVisiting)\<rparr>) of
          Inl e \<Rightarrow> Inl e
        | Inr s' \<Rightarrow> Inr (s'\<lparr>sr_order := sr_order s' @ [x], sr_marks := (sr_marks s')(x \<mapsto> MarkTypeVisited)\<rparr>))"
| "dfs_each childMap n [] parents s = Inr s"
| "dfs_each childMap n (x # xs) parents s =
     (case dfs childMap n x parents s of
        Inl e \<Rightarrow> Inl e
      | Inr s' \<Rightarrow> dfs_each childMap n xs parents s')"

text \<open>The traversal from every unvisited node, when the traversal from the root has not seen all.\<close>

fun dfs_rest :: "(int \<Rightarrow> int list) \<Rightarrow> nat \<Rightarrow> Definition list \<Rightarrow> search \<Rightarrow> migration_error + search" where
  "dfs_rest childMap n [] s = Inr s"
| "dfs_rest childMap n (d # defs) s =
     (if sr_marks s (mg_ID d) = None then
        case dfs childMap n (mg_ID d) [] s of
          Inl e \<Rightarrow> Inl e
        | Inr s' \<Rightarrow> dfs_rest childMap n defs s'
      else dfs_rest childMap n defs s)"

text \<open>The children of a node in the order in which they are visited: the largest identifier first.\<close>

definition visit_order :: "Definition list \<Rightarrow> int \<Rightarrow> int list" where
  "visit_order defs p = rev (sort (children defs p))"

definition findDefinitionOrder :: "Definition list \<Rightarrow> migration_error + int list" where
  "findDefinitionOrder defs =
     (case migration_root defs of
        Inl e \<Rightarrow> Inl e
      | Inr root \<Rightarrow>
          (let childMap = visit_order defs; depth = length defs + 1 in
           case dfs childMap depth root [] \<lparr>sr_order = [], sr_marks = Map.empty\<rparr> of
             Inl e \<Rightarrow> Inl e
           | Inr s \<Rightarrow>
               if length (sr_order s) < length defs then
                 (case dfs_rest childMap depth defs s of Inl e \<Rightarrow> Inl e | Inr _ \<Rightarrow> Inl MigrationPanic)
               else Inr (sr_order s)))"

fun unknown_parent :: "(int \<rightharpoonup> Definition) \<Rightarrow> Definition list \<Rightarrow> (int \<times> int) option" where
  "unknown_parent m [] = None"
| "unknown_parent m (d # defs) =
     (case filter (\<lambda>p. m p = None) (mg_Parents d) of
        [] \<Rightarrow> unknown_parent m defs
      | p # _ \<Rightarrow> Some (p, mg_ID d))"

text \<open>
  The slice is filled from its end. The order names only known identifiers and is as long as the slice.
\<close>

definition reorderDefinitions :: "Definition list \<Rightarrow> migration_error + Definition list" where
  "reorderDefinitions defs =
     (if length defs = 0 then Inr defs
      else
        let m = definitionsMap defs in
        case unknown_parent m defs of
          Some (parent, x) \<Rightarrow> Inl (UnknownMigration parent (Some x))
        | None \<Rightarrow>
            (case findDefinitionOrder defs of
               Inl e \<Rightarrow> Inl e
             | Inr order \<Rightarrow> Inr (rev (map (\<lambda>x. the (m x)) order))))"

definition NewDefinitions :: "Definition list \<Rightarrow> migration_error + Definitions" where
  "NewDefinitions defs =
     (case reorderDefinitions defs of Inl e \<Rightarrow> Inl e | Inr defs' \<Rightarrow> Inr (newDefinitions defs'))"

section \<open>The graph\<close>

text \<open>The parents of an identifier in a list of definitions with distinct identifiers.\<close>

definition parents_of :: "Definition list \<Rightarrow> int \<Rightarrow> int list" where
  "parents_of defs x = (case definitionsMap defs x of None \<Rightarrow> [] | Some d \<Rightarrow> mg_Parents d)"

lemma definitionsMap_None: "definitionsMap defs x = None \<longleftrightarrow> x \<notin> set (mg_ids defs)"
  by (induction defs) (auto simp: map_add_def split: option.splits)

lemma definitionsMap_Some: "definitionsMap defs x = Some d \<Longrightarrow> d \<in> set defs \<and> mg_ID d = x"
  by (induction defs) (auto simp: map_add_def split: option.splits if_splits)

lemma definitionsMap_distinct: "distinct (mg_ids defs) \<Longrightarrow> d \<in> set defs \<Longrightarrow> definitionsMap defs (mg_ID d) = Some d"
proof (induction defs)
  case (Cons a defs)
  show ?case
  proof (cases "d = a")
    case True
    with Cons.prems(1) have "definitionsMap defs (mg_ID d) = None" by (simp add: definitionsMap_None)
    with True show ?thesis by (simp add: map_add_def)
  next
    case False
    with Cons show ?thesis by (simp add: map_add_def)
  qed
qed simp

lemma definitionsMap_eq:
  "distinct (mg_ids defs) \<Longrightarrow> definitionsMap defs x = Some d \<longleftrightarrow> d \<in> set defs \<and> mg_ID d = x"
  using definitionsMap_distinct definitionsMap_Some by blast

lemma parents_of_distinct: "distinct (mg_ids defs) \<Longrightarrow> d \<in> set defs \<Longrightarrow> parents_of defs (mg_ID d) = mg_Parents d"
  by (simp add: parents_of_def definitionsMap_distinct)

lemma parents_of_perm:
  assumes "distinct (mg_ids defs)" and "mset defs = mset defs'"
  shows "parents_of defs = parents_of defs'" and "definitionsMap defs = definitionsMap defs'"
proof -
  have s: "set defs = set defs'" using assms(2) by (rule mset_eq_setD)
  have "mset (mg_ids defs) = mset (mg_ids defs')" using assms(2) by simp
  then have d: "distinct (mg_ids defs')" using assms(1) mset_eq_imp_distinct_iff by blast
  show m: "definitionsMap defs = definitionsMap defs'"
  proof
    fix x
    show "definitionsMap defs x = definitionsMap defs' x"
    proof (cases "definitionsMap defs x")
      case None
      with s have "x \<notin> set (mg_ids defs')" by (simp add: definitionsMap_None)
      with None show ?thesis using definitionsMap_None [of defs' x] by simp
    next
      case (Some d)
      with s have "d \<in> set defs'" "mg_ID d = x" using definitionsMap_Some by auto
      with Some definitionsMap_distinct [OF d] show ?thesis by auto
    qed
  qed
  then show "parents_of defs = parents_of defs'" by (simp add: parents_of_def fun_eq_iff)
qed

lemma set_children: "set (children defs p) = {mg_ID d | d. d \<in> set defs \<and> p \<in> set (mg_Parents d)}"
  by (induction defs) (auto simp: count_list_0_iff)

lemma set_visit_order:
  assumes "distinct (mg_ids defs)"
  shows "c \<in> set (visit_order defs p) \<longleftrightarrow> p \<in> set (parents_of defs c)"
proof -
  have "c \<in> set (visit_order defs p) \<longleftrightarrow> (\<exists>d \<in> set defs. mg_ID d = c \<and> p \<in> set (mg_Parents d))"
    by (auto simp: visit_order_def set_children)
  also have "\<dots> \<longleftrightarrow> p \<in> set (parents_of defs c)"
  proof
    assume "p \<in> set (parents_of defs c)"
    then obtain d where "definitionsMap defs c = Some d" "p \<in> set (mg_Parents d)"
      by (cases "definitionsMap defs c") (simp_all add: parents_of_def)
    then show "\<exists>d \<in> set defs. mg_ID d = c \<and> p \<in> set (mg_Parents d)" using definitionsMap_Some by blast
  qed (use parents_of_distinct [OF assms] in auto)
  finally show ?thesis .
qed

section \<open>The depth-first search\<close>

text \<open>
  The state of a search: visited nodes are the nodes of the order, the nodes that are being visited
  are those of the path, and in the order every node comes after its children.
\<close>

definition search_ok :: "int set \<Rightarrow> (int \<Rightarrow> int list) \<Rightarrow> int list \<Rightarrow> search \<Rightarrow> bool" where
  "search_ok V ch path s \<longleftrightarrow>
     (\<forall>x. sr_marks s x \<noteq> Some MarkTypeUnvisited) \<and> (\<forall>x. sr_marks s x = Some MarkTypeVisiting \<longleftrightarrow> x \<in> set path) \<and>
     (\<forall>x. sr_marks s x = Some MarkTypeVisited \<longleftrightarrow> x \<in> set (sr_order s)) \<and>
     distinct (sr_order s) \<and> set (sr_order s) \<subseteq> V \<and> parents_first ch [] (sr_order s)"

text \<open>A path of the search, and a cycle of the graph.\<close>

definition search_path :: "(int \<Rightarrow> int list) \<Rightarrow> int list \<Rightarrow> bool" where
  "search_path ch path \<longleftrightarrow> distinct path \<and> (\<forall>i. Suc i < length path \<longrightarrow> path ! Suc i \<in> set (ch (path ! i)))"

definition is_cycle :: "(int \<Rightarrow> int list) \<Rightarrow> int list \<Rightarrow> bool" where
  "is_cycle ch c \<longleftrightarrow> length c \<ge> 2 \<and> hd c = last c \<and> (\<forall>i. Suc i < length c \<longrightarrow> c ! Suc i \<in> set (ch (c ! i)))"

definition good_error :: "(int \<Rightarrow> int list) \<Rightarrow> migration_error \<Rightarrow> bool" where
  "good_error ch e \<longleftrightarrow> (\<exists>c. e = DependencyCycle c \<and> is_cycle ch c)"

text \<open>What a visit of a node or of a list of nodes promises.\<close>

definition visit_post :: "int set \<Rightarrow> (int \<Rightarrow> int list) \<Rightarrow> int list \<Rightarrow> int list \<Rightarrow> search \<Rightarrow> migration_error + search \<Rightarrow> bool" where
  "visit_post V ch path xs s r \<longleftrightarrow>
     (case r of
        Inl e \<Rightarrow> good_error ch e
      | Inr s' \<Rightarrow> search_ok V ch path s' \<and> set (sr_order s) \<union> set xs \<subseteq> set (sr_order s'))"

lemma search_path_snoc:
  assumes "search_path ch path" and "path \<noteq> [] \<Longrightarrow> x \<in> set (ch (last path))" and "x \<notin> set path"
  shows "search_path ch (path @ [x])"
proof -
  have "(path @ [x]) ! Suc i \<in> set (ch ((path @ [x]) ! i))" if i: "Suc i < length (path @ [x])" for i
  proof (cases "Suc i < length path")
    case True
    with assms(1) show ?thesis by (simp add: search_path_def nth_append)
  next
    case False
    with i have "i = length path - 1" "path \<noteq> []" by auto
    with assms(2) show ?thesis by (simp add: nth_append last_conv_nth)
  qed
  with assms(1,3) show ?thesis by (simp add: search_path_def)
qed

lemma back_edge_cycle:
  assumes path: "search_path ch path" and x: "x \<in> set path" "x \<in> set (ch (last path))"
  shows "dropWhile (\<lambda>p. p \<noteq> x) path \<noteq> []" and "is_cycle ch (dropWhile (\<lambda>p. p \<noteq> x) path @ [x])"
proof -
  let ?d = "dropWhile (\<lambda>p. p \<noteq> x) path"
  define k where "k = length (takeWhile (\<lambda>p. p \<noteq> x) path)"
  have d: "?d = drop k path" by (simp add: k_def dropWhile_eq_drop)
  show ne: "?d \<noteq> []" using x(1) by auto
  have hd: "hd ?d = x" using hd_dropWhile [of "\<lambda>p. p \<noteq> x" path] x(1) by auto
  have k: "k < length path" using ne d by auto
  have "(?d @ [x]) ! Suc i \<in> set (ch ((?d @ [x]) ! i))" if i: "Suc i < length (?d @ [x])" for i
  proof (cases "Suc i < length ?d")
    case True
    with path k show ?thesis by (auto simp: d nth_append search_path_def)
  next
    case False
    with i have "i = length ?d - 1" "Suc i = length ?d" by auto
    moreover have "last path = path ! (length path - 1)" using k by (intro last_conv_nth) auto
    ultimately show ?thesis using x(2) k by (simp add: nth_append d)
  qed
  with ne hd show "is_cycle ch (?d @ [x])" by (simp add: is_cycle_def Suc_le_eq)
qed

lemma search_ok_enter:
  "search_ok V ch path s \<Longrightarrow> sr_marks s x = None \<Longrightarrow>
     search_ok V ch (path @ [x]) (s\<lparr>sr_marks := (sr_marks s)(x \<mapsto> MarkTypeVisiting)\<rparr>)"
  by (force simp: search_ok_def)

lemma search_ok_leave:
  assumes "search_ok V ch (path @ [x]) s" and "x \<notin> set path" and "x \<in> V" and "set (ch x) \<subseteq> set (sr_order s)"
  shows "search_ok V ch path (s\<lparr>sr_order := sr_order s @ [x], sr_marks := (sr_marks s)(x \<mapsto> MarkTypeVisited)\<rparr>)"
proof -
  have "sr_marks s x = Some MarkTypeVisiting" using assms(1) by (simp add: search_ok_def)
  then have "x \<notin> set (sr_order s)" using assms(1) by (force simp: search_ok_def)
  with assms show ?thesis by (auto simp: search_ok_def parents_first_append)
qed

lemma dfs_correct:
  fixes V :: "int set"
  assumes "finite V"
  shows "\<forall>x \<in> V. set (ch x) \<subseteq> V \<Longrightarrow> search_ok V ch path s \<Longrightarrow> search_path ch path \<Longrightarrow> set path \<subseteq> V \<Longrightarrow>
      card V < n + length path \<Longrightarrow> x \<in> V \<Longrightarrow> path = [] \<or> x \<in> set (ch (last path)) \<Longrightarrow>
      visit_post V ch path [x] s (dfs ch n x path s)"
    and "\<forall>x \<in> V. set (ch x) \<subseteq> V \<Longrightarrow> search_ok V ch path s \<Longrightarrow> search_path ch path \<Longrightarrow> set path \<subseteq> V \<Longrightarrow>
      card V < n + length path \<Longrightarrow> set xs \<subseteq> V \<Longrightarrow> path = [] \<or> set xs \<subseteq> set (ch (last path)) \<Longrightarrow>
      visit_post V ch path xs s (dfs_each ch n xs path s)"
proof (induction ch n x path s and ch n xs path s rule: dfs_dfs_each.induct)
  case (1 ch x path s)
  have "length path \<le> card V" using 1 assms by (metis card_mono distinct_card search_path_def)
  with 1 show ?case by simp
next
  case (2 ch n x path s)
  let ?s = "s\<lparr>sr_marks := (sr_marks s)(x \<mapsto> MarkTypeVisiting)\<rparr>"
  have marks: "sr_marks s x = Some MarkTypeVisiting \<longleftrightarrow> x \<in> set path" "sr_marks s x = Some MarkTypeVisited \<longleftrightarrow> x \<in> set (sr_order s)"
    and "sr_marks s x \<noteq> Some MarkTypeUnvisited" using "2.prems"(2) by (simp_all add: search_ok_def)
  then consider "sr_marks s x = Some MarkTypeVisiting" | "sr_marks s x = Some MarkTypeVisited" | "sr_marks s x = None"
    by (metis MarkType.exhaust not_None_eq)
  then show ?case
  proof cases
    case 1
    then have "x \<in> set path" using marks(1) by simp
    with back_edge_cycle [OF "2.prems"(3) this] "2.prems"(7) 1 show ?thesis
      by (auto simp: visit_post_def good_error_def Let_def)
  next
    case 2
    with marks(2) "2.prems"(2) show ?thesis by (simp add: visit_post_def)
  next
    case 3
    then have x: "x \<notin> set path" using marks(1) by simp
    have "visit_post V ch (path @ [x]) (ch x) ?s (dfs_each ch n (ch x) (path @ [x]) ?s)"
      using "2.prems" 3 x by (intro "2.IH") (auto intro: search_ok_enter search_path_snoc)
    with 3 x search_ok_leave [of V ch path x] "2.prems"(6) show ?thesis by (auto simp: visit_post_def split: sum.splits)
  qed
next
  case (3 ch n path s)
  then show ?case by (simp add: visit_post_def)
next
  case (4 ch n x xs path s)
  have "visit_post V ch path [x] s (dfs ch n x path s)" using 4 by auto
  then show ?case
  proof (cases "dfs ch n x path s")
    case (Inr s1)
    with \<open>visit_post V ch path [x] s (dfs ch n x path s)\<close>
    have s1: "search_ok V ch path s1" "set (sr_order s) \<union> {x} \<subseteq> set (sr_order s1)" by (simp_all add: visit_post_def)
    have "visit_post V ch path xs s1 (dfs_each ch n xs path s1)" using 4 Inr s1(1) by auto
    with s1(2) Inr show ?thesis by (auto simp: visit_post_def split: sum.splits)
  qed (simp add: visit_post_def)
qed


lemma dfs_rest_correct:
  fixes V :: "int set"
  assumes "finite V" and "\<forall>x \<in> V. set (ch x) \<subseteq> V" and "card V < n"
  shows "search_ok V ch [] s \<Longrightarrow> set (mg_ids defs) \<subseteq> V \<Longrightarrow> visit_post V ch [] (mg_ids defs) s (dfs_rest ch n defs s)"
proof (induction defs arbitrary: s)
  case Nil
  then show ?case by (simp add: visit_post_def)
next
  case (Cons d defs)
  show ?case
  proof (cases "sr_marks s (mg_ID d)")
    case None
    have post: "visit_post V ch [] [mg_ID d] s (dfs ch n (mg_ID d) [] s)"
      using assms Cons.prems by (intro dfs_correct(1)) (simp_all add: search_path_def)
    show ?thesis
    proof (cases "dfs ch n (mg_ID d) [] s")
      case (Inr s1)
      with post have s1: "search_ok V ch [] s1" "set (sr_order s) \<union> {mg_ID d} \<subseteq> set (sr_order s1)" by (simp_all add: visit_post_def)
      then show ?thesis using Cons.IH [OF s1(1)] Cons.prems(2) None Inr by (auto simp: visit_post_def split: sum.splits)
    qed (use None post in \<open>simp add: visit_post_def\<close>)
  next
    case (Some m)
    then have "mg_ID d \<in> set (sr_order s)" using Cons.prems(1) by (cases m) (auto simp: search_ok_def)
    with Cons.IH [OF Cons.prems(1)] Cons.prems(2) Some show ?thesis by (auto simp: visit_post_def split: sum.splits)
  qed
qed

lemma order_closed:
  "parents_first ch [] xs \<Longrightarrow> x \<in> set xs \<Longrightarrow> set (ch x) \<subseteq> set xs"
  by (fastforce simp: parents_first_split in_set_conv_decomp)

text \<open>A set in which every node has a parent does not fit into a finished order.\<close>

lemma no_cycle_in_order:
  assumes xs: "distinct xs" "parents_first ch [] xs" and U: "U \<subseteq> set xs" "U \<noteq> {}"
    and parent: "\<And>x. x \<in> U \<Longrightarrow> \<exists>p \<in> U. x \<in> set (ch p)"
  shows False
proof -
  have "\<exists>x \<in> set xs. x \<in> U" using U by blast
  then obtain ys x zs where x: "xs = ys @ x # zs" "x \<in> U" "\<forall>z \<in> set zs. z \<notin> U"
    using split_list_last_prop [of xs "\<lambda>x. x \<in> U"] by auto
  obtain p where p: "p \<in> U" "x \<in> set (ch p)" using parent [OF x(2)] by blast
  then have "p \<in> set ys \<or> p = x" using U(1) x by auto
  then obtain as bs where "ys @ [x] = as @ p # bs" using split_list [of p "ys @ [x]"] by auto
  then have "xs = as @ p # bs @ zs" using x(1) by (metis append.assoc append_Cons append_Nil)
  with xs(2) p(2) have "x \<in> set as" unfolding parents_first_split by fastforce
  with \<open>ys @ [x] = as @ p # bs\<close> have "x \<in> set ys" by (cases bs rule: rev_cases) auto
  with xs(1) x(1) show False by simp
qed


section \<open>The order of the definitions\<close>

abbreviation empty_search :: search where
  "empty_search \<equiv> \<lparr>sr_order = [], sr_marks = Map.empty\<rparr>"

lemma root_unique:
  assumes "migration_root defs = Inr r"
  obtains d where "filter (\<lambda>d. mg_Parents d = []) defs = [d]" and "r = mg_ID d"
proof -
  let ?f = "filter (\<lambda>d. mg_Parents d = []) defs"
  have "?f \<noteq> []" "\<not> 1 < length ?f" "r = mg_ids ?f ! 0" using assms by (auto simp: migration_root_def Let_def split: if_splits)
  then show ?thesis using that by (cases ?f) auto
qed

lemma visit_order_known: "set (visit_order defs p) \<subseteq> set (mg_ids defs)"
  by (auto simp: visit_order_def set_children)

lemma findDefinitionOrder_root_search:
  assumes root: "migration_root defs = Inr r"
  shows "visit_post (set (mg_ids defs)) (visit_order defs) [] [r] empty_search (dfs (visit_order defs) (length defs + 1) r [] empty_search)"
proof -
  obtain d where "filter (\<lambda>d. mg_Parents d = []) defs = [d]" "r = mg_ID d" by (rule root_unique [OF root])
  moreover have "set (filter (\<lambda>d. mg_Parents d = []) defs) \<subseteq> set defs" by simp
  ultimately have r: "r \<in> set (mg_ids defs)" by simp
  have "card (set (mg_ids defs)) < length defs + 1 + length []" using card_length [of "mg_ids defs"] by simp
  with r visit_order_known show ?thesis by (intro dfs_correct(1)) (auto simp: search_ok_def search_path_def)
qed

text \<open>When the traversal from the root misses a definition, the traversal from the others finds a cycle.\<close>

lemma missing_definition_cycle:
  assumes ids: "distinct (mg_ids defs)" and known: "\<forall>d \<in> set defs. set (mg_Parents d) \<subseteq> set (mg_ids defs)"
    and root: "migration_root defs = Inr r"
    and s: "search_ok (set (mg_ids defs)) (visit_order defs) [] s" "r \<in> set (sr_order s)" "length (sr_order s) < length defs"
  shows "\<exists>e. dfs_rest (visit_order defs) (length defs + 1) defs s = Inl e \<and> good_error (visit_order defs) e"
proof -
  let ?V = "set (mg_ids defs)" and ?ch = "visit_order defs"
  have "card ?V < length defs + 1" using card_length [of "mg_ids defs"] by simp
  then have post: "visit_post ?V ?ch [] (mg_ids defs) s (dfs_rest ?ch (length defs + 1) defs s)"
    using s(1) visit_order_known by (intro dfs_rest_correct) auto
  show ?thesis
  proof (cases "dfs_rest ?ch (length defs + 1) defs s")
    case (Inr s')
    let ?U = "?V - set (sr_order s)"
    have s': "distinct (sr_order s')" "parents_first ?ch [] (sr_order s')" "?V \<subseteq> set (sr_order s')"
      using post Inr by (auto simp: visit_post_def search_ok_def)
    have "card (set (sr_order s)) < card ?V"
      using s ids distinct_card [of "mg_ids defs"] distinct_card [of "sr_order s"] by (simp add: search_ok_def)
    then have "?U \<noteq> {}" by (metis Diff_eq_empty_iff List.finite_set card_mono not_less)
    moreover have "\<exists>p \<in> ?U. x \<in> set (?ch p)" if x: "x \<in> ?U" for x
    proof -
      obtain d where d: "d \<in> set defs" "mg_ID d = x" using x by auto
      have "mg_Parents d \<noteq> []"
      proof
        assume "mg_Parents d = []"
        with d(1) have "d \<in> set (filter (\<lambda>d. mg_Parents d = []) defs)" by simp
        with root_unique [OF root] have "x = r" by (metis d(2) empty_iff empty_set set_ConsD)
        with x s(2) show False by simp
      qed
      then obtain p where p: "p \<in> set (mg_Parents d)" by (cases "mg_Parents d") auto
      with d have edge: "x \<in> set (?ch p)" by (simp add: set_visit_order [OF ids] parents_of_distinct [OF ids] flip: d(2))
      have "p \<notin> set (sr_order s)" using order_closed [of ?ch "sr_order s" p] edge x s(1) by (auto simp: search_ok_def)
      with p known d(1) edge show ?thesis by blast
    qed
    ultimately show ?thesis using no_cycle_in_order [OF s'(1,2), of ?U] s'(3) by blast
  qed (use post in \<open>simp add: visit_post_def\<close>)
qed

lemma findDefinitionOrder_error:
  assumes ids: "distinct (mg_ids defs)" and known: "\<forall>d \<in> set defs. set (mg_Parents d) \<subseteq> set (mg_ids defs)"
    and run: "findDefinitionOrder defs = Inl e"
  shows "migration_root defs = Inl e \<or> good_error (visit_order defs) e"
proof (cases "migration_root defs")
  case (Inr r)
  note post = findDefinitionOrder_root_search [OF Inr]
  show ?thesis
  proof (cases "dfs (visit_order defs) (length defs + 1) r [] empty_search")
    case (Inr s)
    with post have s: "search_ok (set (mg_ids defs)) (visit_order defs) [] s" "r \<in> set (sr_order s)" by (simp_all add: visit_post_def)
    with missing_definition_cycle [OF ids known \<open>migration_root defs = Inr r\<close> s] run Inr \<open>migration_root defs = Inr r\<close>
    show ?thesis by (auto simp: findDefinitionOrder_def Let_def split: if_splits)
  qed (use post run Inr in \<open>simp add: findDefinitionOrder_def Let_def visit_post_def\<close>)
qed (use run in \<open>simp add: findDefinitionOrder_def\<close>)

lemma findDefinitionOrder_ok:
  assumes "findDefinitionOrder defs = Inr order"
  shows "distinct (mg_ids defs)" and "mset order = mset (mg_ids defs)" and "parents_first (visit_order defs) [] order"
proof -
  obtain r s where r: "migration_root defs = Inr r" and s: "dfs (visit_order defs) (length defs + 1) r [] empty_search = Inr s"
    and len: "length defs \<le> length order" and o: "order = sr_order s"
    using assms by (auto simp: findDefinitionOrder_def Let_def split: sum.splits if_splits)
  have ok: "distinct order" "set order \<subseteq> set (mg_ids defs)" "parents_first (visit_order defs) [] order"
    using findDefinitionOrder_root_search [OF r] s o by (auto simp: visit_post_def search_ok_def)
  then show "parents_first (visit_order defs) [] order" by simp
  have le: "card (set order) \<le> card (set (mg_ids defs))" using ok(2) by (intro card_mono) auto
  also have "\<dots> \<le> length defs" using card_length [of "mg_ids defs"] by simp
  finally have "card (set (mg_ids defs)) = length (mg_ids defs)" "card (set order) = card (set (mg_ids defs))"
    using len le distinct_card [OF ok(1)] card_length [of "mg_ids defs"] by simp_all
  then show d: "distinct (mg_ids defs)" by (intro card_distinct)
  have "set order = set (mg_ids defs)" using ok(2) \<open>card (set order) = card (set (mg_ids defs))\<close> by (intro card_subset_eq) auto
  then show "mset order = mset (mg_ids defs)" using set_eq_iff_mset_eq_distinct [OF ok(1) d] by simp
qed

text \<open>Definitions in an order that can be applied: distinct, parents first, one root.\<close>

definition definitions_ok :: "Definitions \<Rightarrow> bool" where
  "definitions_ok ds \<longleftrightarrow>
     ds = newDefinitions (ds_definitions ds) \<and> distinct (mg_ids (ds_definitions ds)) \<and>
     parents_first (parents_of (ds_definitions ds)) [] (mg_ids (ds_definitions ds)) \<and>
     length (filter (\<lambda>d. mg_Parents d = []) (ds_definitions ds)) = (if ds_definitions ds = [] then 0 else 1)"

lemma unknown_parent_None: "unknown_parent m defs = None \<longleftrightarrow> (\<forall>d \<in> set defs. \<forall>p \<in> set (mg_Parents d). m p \<noteq> None)"
  by (induction defs) (auto split: list.splits simp: filter_empty_conv filter_eq_Cons_iff)

lemma unknown_parent_Some:
  "unknown_parent m defs = Some (p, x) \<Longrightarrow> \<exists>d \<in> set defs. mg_ID d = x \<and> p \<in> set (mg_Parents d) \<and> m p = None"
proof (induction defs)
  case (Cons d defs)
  show ?case
  proof (cases "filter (\<lambda>p. m p = None) (mg_Parents d)")
    case (Cons q qs)
    then have "q \<in> set (filter (\<lambda>p. m p = None) (mg_Parents d))" by simp
    then have "q \<in> set (mg_Parents d) \<and> m q = None" unfolding set_filter by blast
    with Cons Cons.prems show ?thesis by auto
  qed (use Cons in auto)
qed simp

abbreviation parents_known :: "Definition list \<Rightarrow> bool" where
  "parents_known defs \<equiv> \<forall>d \<in> set defs. set (mg_Parents d) \<subseteq> set (mg_ids defs)"

lemma unknown_parent_known: "unknown_parent (definitionsMap defs) defs = None \<longleftrightarrow> parents_known defs"
  using definitionsMap_None [of defs] by (auto simp: unknown_parent_None)

lemma reorderDefinitions_ok:
  assumes run: "reorderDefinitions defs = Inr defs'"
  shows "mset defs' = mset defs" and "definitions_ok (newDefinitions defs')" and "parents_known defs"
proof -
  have "mset defs' = mset defs \<and> definitions_ok (newDefinitions defs') \<and> parents_known defs"
  proof (cases "defs = []")
    case True
    with run show ?thesis by (auto simp: reorderDefinitions_def definitions_ok_def newDefinitions_def)
  next
    case False
    then obtain order where o: "findDefinitionOrder defs = Inr order" and k: "unknown_parent (definitionsMap defs) defs = None"
      and d': "defs' = rev (map (\<lambda>x. the (definitionsMap defs x)) order)"
      using run by (auto simp: reorderDefinitions_def Let_def split: option.splits sum.splits)
    note ok = findDefinitionOrder_ok [OF o]
    have known: "parents_known defs" using k by (simp add: unknown_parent_known)
    have "mset defs' = image_mset (\<lambda>x. the (definitionsMap defs x)) (mset (mg_ids defs))"
      unfolding ok(2) [symmetric] by (simp add: d')
    also have "\<dots> = image_mset (\<lambda>d. the (definitionsMap defs (mg_ID d))) (mset defs)" by (simp add: image_mset.compositionality comp_def)
    also have "\<dots> = image_mset id (mset defs)" by (rule image_mset_cong) (simp add: definitionsMap_distinct [OF ok(1)])
    finally have perm: "mset defs' = mset defs" by simp
    have so: "set order = set (mg_ids defs)" using ok(2) by (rule mset_eq_setD)
    have "map mg_ID (map (\<lambda>x. the (definitionsMap defs x)) order) = order"
      unfolding map_map
    proof (rule map_idI)
      fix x
      assume "x \<in> set order"
      then obtain d where "d \<in> set defs" "mg_ID d = x" using so by auto
      then show "(mg_ID \<circ> (\<lambda>x. the (definitionsMap defs x))) x = x" using definitionsMap_distinct [OF ok(1)] by auto
    qed
    then have ids: "mg_ids defs' = rev order" unfolding d' rev_map [symmetric] by simp
    have "parents_first (parents_of defs) [] (rev order)"
    proof (rule parents_first_rev [OF _ ok(3)])
      show "distinct order" using ok(1,2) mset_eq_imp_distinct_iff by blast
      show "c \<in> set (visit_order defs p) \<longleftrightarrow> p \<in> set (parents_of defs c)" for p c by (rule set_visit_order [OF ok(1)])
      show "set (parents_of defs x) \<subseteq> set order" if "x \<in> set order" for x
      proof -
        from that so have "x \<in> mg_ID ` set defs" by simp
        then obtain d where d: "d \<in> set defs" "x = mg_ID d" by blast
        with known have "set (mg_Parents d) \<subseteq> set (mg_ids defs)" by blast
        then show ?thesis using so d parents_of_distinct [OF ok(1) d(1)] by simp
      qed
    qed
    then have "parents_first (parents_of defs') [] (mg_ids defs')"
      using parents_of_perm(1) [OF ok(1) perm [symmetric]] ids by simp
    moreover have "distinct (mg_ids defs')" using ids ok(1,2) mset_eq_imp_distinct_iff [of order "mg_ids defs"] by simp
    moreover have "length (filter (\<lambda>d. mg_Parents d = []) defs') = 1"
    proof -
      obtain r where "migration_root defs = Inr r" using o by (auto simp: findDefinitionOrder_def split: sum.splits)
      then obtain d where "filter (\<lambda>d. mg_Parents d = []) defs = [d]" by (rule root_unique)
      then have "size (filter_mset (\<lambda>d. mg_Parents d = []) (mset defs')) = 1" unfolding perm by (simp flip: mset_filter)
      then show ?thesis by (simp flip: mset_filter)
    qed
    moreover have "defs' \<noteq> []" using False perm by auto
    ultimately show ?thesis using perm known by (simp add: definitions_ok_def newDefinitions_def)
  qed
  then show "mset defs' = mset defs" "definitions_ok (newDefinitions defs')" "parents_known defs" by simp_all
qed

lemma NewDefinitions_ok:
  assumes "NewDefinitions defs = Inr ds"
  shows "mset (ds_definitions ds) = mset defs" and "definitions_ok ds" and "parents_known defs"
  using assms reorderDefinitions_ok [of defs] by (auto simp: NewDefinitions_def newDefinitions_def split: sum.splits)

text \<open>The edges of the graph, from a parent to a child.\<close>

definition migration_edges :: "Definition list \<Rightarrow> (int \<times> int) set" where
  "migration_edges defs = {(p, mg_ID d) | p d. d \<in> set defs \<and> p \<in> set (mg_Parents d)}"

lemma visit_order_edges: "c \<in> set (visit_order defs p) \<longleftrightarrow> (p, c) \<in> migration_edges defs"
  by (auto simp: visit_order_def set_children migration_edges_def)

lemma cycle_not_acyclic:
  assumes "is_cycle (visit_order defs) c"
  shows "\<not> acyclic (migration_edges defs)"
proof -
  have len: "2 \<le> length c" and hd: "hd c = last c" using assms by (simp_all add: is_cycle_def)
  have "(c ! 0, c ! Suc i) \<in> (migration_edges defs)\<^sup>+" if "Suc i < length c" for i
    using that
  proof (induction i)
    case 0
    then show ?case using assms by (auto simp: is_cycle_def visit_order_edges)
  next
    case (Suc i)
    then have "(c ! Suc i, c ! Suc (Suc i)) \<in> migration_edges defs" using assms by (auto simp: is_cycle_def visit_order_edges)
    with Suc show ?case by (meson Suc_lessD trancl.trancl_into_trancl)
  qed
  from this [of "length c - 2"] len have "(c ! 0, c ! (length c - 1)) \<in> (migration_edges defs)\<^sup>+" by (simp add: numeral_2_eq_2 Suc_diff_Suc)
  moreover have "c ! 0 = c ! (length c - 1)" using hd len by (metis hd_conv_nth last_conv_nth length_0_conv not_numeral_le_zero)
  ultimately show ?thesis by (metis acyclic_def)
qed


text \<open>Ordering succeeds for the graphs that can be ordered, and an error names what is wrong.\<close>

lemma NewDefinitions_error:
  assumes ids: "distinct (mg_ids defs)" and run: "NewDefinitions defs = Inl e"
  shows "(\<exists>p x. e = UnknownMigration p (Some x) \<and> p \<notin> set (mg_ids defs) \<and> (p, x) \<in> migration_edges defs) \<or>
    (parents_known defs \<and> migration_root defs = Inl e) \<or> (\<exists>c. e = DependencyCycle c \<and> is_cycle (visit_order defs) c)"
proof (cases "unknown_parent (definitionsMap defs) defs")
  case None
  then have known: "parents_known defs" by (simp add: unknown_parent_known)
  have "findDefinitionOrder defs = Inl e"
    using run None by (auto simp: NewDefinitions_def reorderDefinitions_def Let_def split: sum.splits if_splits)
  from findDefinitionOrder_error [OF ids known this] known show ?thesis by (auto simp: good_error_def)
next
  case (Some px)
  then obtain p x where px: "unknown_parent (definitionsMap defs) defs = Some (p, x)" by (cases px) auto
  then have "e = UnknownMigration p (Some x)"
    using run by (auto simp: NewDefinitions_def reorderDefinitions_def Let_def split: sum.splits if_splits)
  moreover have "p \<notin> set (mg_ids defs)" "(p, x) \<in> migration_edges defs"
    using unknown_parent_Some [OF px] definitionsMap_None [of defs p] by (auto simp: migration_edges_def)
  ultimately show ?thesis by blast
qed

lemma NewDefinitions_iff:
  assumes ids: "distinct (mg_ids defs)" and ne: "defs \<noteq> []"
  shows "(\<exists>ds. NewDefinitions defs = Inr ds) \<longleftrightarrow>
    parents_known defs \<and> length (filter (\<lambda>d. mg_Parents d = []) defs) = 1 \<and> acyclic (migration_edges defs)"
proof
  assume "\<exists>ds. NewDefinitions defs = Inr ds"
  then obtain ds where ds: "NewDefinitions defs = Inr ds" by blast
  let ?d = "ds_definitions ds"
  note ok = NewDefinitions_ok [OF ds]
  have s: "set ?d = set defs" using ok(1) by (rule mset_eq_setD)
  have nd: "?d \<noteq> []" using ne s by auto
  have "filter_mset (\<lambda>d. mg_Parents d = []) (mset ?d) = filter_mset (\<lambda>d. mg_Parents d = []) (mset defs)" using ok(1) by simp
  then have "length (filter (\<lambda>d. mg_Parents d = []) ?d) = length (filter (\<lambda>d. mg_Parents d = []) defs)"
    by (metis mset_filter size_mset)
  moreover have "acyclic (migration_edges defs)"
  proof (rule parents_first_acyclic)
    show "parents_first (parents_of ?d) [] (mg_ids ?d)" using ok(2) by (simp add: definitions_ok_def)
    show "c \<in> set (mg_ids ?d) \<and> p \<in> set (parents_of ?d c)" if "(p, c) \<in> migration_edges defs" for p c
      using that s ok(2) parents_of_distinct [of ?d] by (auto simp: migration_edges_def definitions_ok_def)
  qed
  ultimately show "parents_known defs \<and> length (filter (\<lambda>d. mg_Parents d = []) defs) = 1 \<and> acyclic (migration_edges defs)"
    using ok(2,3) nd by (simp add: definitions_ok_def)
next
  assume r: "parents_known defs \<and> length (filter (\<lambda>d. mg_Parents d = []) defs) = 1 \<and> acyclic (migration_edges defs)"
  show "\<exists>ds. NewDefinitions defs = Inr ds"
  proof (cases "NewDefinitions defs")
    case (Inl e)
    have "migration_root defs \<noteq> Inl e" using r by (auto simp: migration_root_def Let_def)
    with NewDefinitions_error [OF ids Inl] r cycle_not_acyclic show ?thesis by (auto simp: migration_edges_def)
  qed simp
qed

end
