(* ===== verification/Migration_Graph.thy ===== *)
theory Migration_Graph
  imports Migration_Definitions
begin

text \<open>
  The questions that are asked of ordered migration definitions (\<open>definition.go\<close>): which migrations
  to apply or to undo to reach given targets (\<open>Up\<close>, \<open>Down\<close>), which prefix can be squashed
  (\<open>LeafDominator\<close>), and what remains after cutting branches (\<open>Filter\<close>).

  \<open>Up\<close> and \<open>Down\<close> share the breadth-first \<open>traverse\<close>; its contract is the locale \<open>traversal\<close>,
  which is interpreted for the two edge functions of the code. A level of the frontier is one step of
  the loop; the bound on the number of levels is one more than the number of definitions, and the
  locale shows that it is never reached.
\<close>

section \<open>Operations\<close>

text \<open>\<open>All\<close> returns the slice itself.\<close>

definition Definitions_All :: "Definitions \<Rightarrow> Definition list" where
  "Definitions_All ds = ds_definitions ds"

definition GetByID :: "Definitions \<Rightarrow> int \<Rightarrow> Definition option" where
  "GetByID ds x = ds_definitionsMap ds x"

text \<open>Without definitions, \<open>Root\<close> panics: None.\<close>

definition Definitions_Root :: "Definitions \<Rightarrow> Definition option" where
  "Definitions_Root ds = (case ds_definitions ds of [] \<Rightarrow> None | d # _ \<Rightarrow> Some d)"

definition Leaves :: "Definitions \<Rightarrow> Definition list" where
  "Leaves ds = filter (\<lambda>d. length (children (ds_definitions ds) (mg_ID d)) = 0) (ds_definitions ds)"

fun excluded_parent :: "int list \<Rightarrow> Definition list \<Rightarrow> (int \<times> int) option" where
  "excluded_parent ids [] = None"
| "excluded_parent ids (d # defs) =
     (case filter (\<lambda>p. p \<notin> set ids) (mg_Parents d) of
        [] \<Rightarrow> excluded_parent ids defs
      | p # _ \<Rightarrow> Some (mg_ID d, p))"

definition Definitions_Filter :: "Definitions \<Rightarrow> int list \<Rightarrow> migration_error + Definitions" where
  "Definitions_Filter ds ids =
     (let filtered = filter (\<lambda>d. mg_ID d \<in> set ids) (ds_definitions ds) in
      case excluded_parent ids filtered of
        Some (x, parent) \<Rightarrow> Inl (IllegalFilter x parent)
      | None \<Rightarrow> Inr (newDefinitions filtered))"

text \<open>\<open>intersect a bs\<close>: one filter pass over the result for every further set.\<close>

fun intersect :: "int list \<Rightarrow> int list list \<Rightarrow> int list" where
  "intersect a [] = a"
| "intersect a (b # bs) = intersect (filter (\<lambda>v. v \<in> set b) a) bs"

text \<open>A missing entry of the map of dominators is the empty slice.\<close>

definition dom_at :: "(int \<rightharpoonup> int list) \<Rightarrow> int \<Rightarrow> int list" where
  "dom_at m x = (case m x of None \<Rightarrow> [] | Some xs \<Rightarrow> xs)"

fun dominators_from :: "(int \<rightharpoonup> int list) \<Rightarrow> Definition list \<Rightarrow> (int \<rightharpoonup> int list)" where
  "dominators_from m [] = m"
| "dominators_from m (d # defs) =
     dominators_from
       (m(mg_ID d \<mapsto> (case mg_Parents d of
           [] \<Rightarrow> [mg_ID d]
         | p # ps \<Rightarrow> mg_ID d # intersect (dom_at m p) (map (dom_at m) ps)))) defs"

definition dominators :: "Definitions \<Rightarrow> (int \<rightharpoonup> int list)" where
  "dominators ds = dominators_from Map.empty (ds_definitions ds)"

text \<open>The definition and the flag of the code are an option.\<close>

definition LeafDominator :: "Definitions \<Rightarrow> int list \<Rightarrow> Definition option" where
  "LeafDominator ds extraIDs =
     (let leaves = Leaves ds in
      if length leaves = 0 \<and> length extraIDs = 0 then None
      else
        let doms = dominators ds; ids = map (\<lambda>d. dom_at doms (mg_ID d)) leaves @ map (dom_at doms) extraIDs in
        case intersect (hd ids) (tl ids) of
          [] \<Rightarrow> None
        | x # _ \<Rightarrow> GetByID ds x)"

text \<open>One level of \<open>traverse\<close>: a node is an identifier and the one that refers to it.\<close>

fun traverse_level ::
  "Definitions \<Rightarrow> (Definition \<Rightarrow> int list) \<Rightarrow> (int \<times> int option) list \<Rightarrow> int list \<Rightarrow> (int \<times> int option) list \<Rightarrow>
   migration_error + int list \<times> (int \<times> int option) list" where
  "traverse_level ds next_ids [] visited newFrontier = Inr (visited, newFrontier)"
| "traverse_level ds next_ids ((x, parent) # ns) visited newFrontier =
     (if x \<in> set visited then traverse_level ds next_ids ns visited newFrontier
      else case GetByID ds x of
        None \<Rightarrow> Inl (UnknownMigration x parent)
      | Some d \<Rightarrow> traverse_level ds next_ids ns (x # visited) (newFrontier @ map (\<lambda>i. (i, Some x)) (next_ids d)))"

fun traverse_loop ::
  "nat \<Rightarrow> Definitions \<Rightarrow> (Definition \<Rightarrow> int list) \<Rightarrow> (int \<times> int option) list \<Rightarrow> int list \<Rightarrow> migration_error + int list" where
  "traverse_loop n ds next_ids [] visited = Inr visited"
| "traverse_loop 0 ds next_ids (f # fs) visited = Inl DepthExceeded"
| "traverse_loop (Suc n) ds next_ids (f # fs) visited =
     (case traverse_level ds next_ids (f # fs) visited [] of
        Inl e \<Rightarrow> Inl e
      | Inr (visited', newFrontier) \<Rightarrow> traverse_loop n ds next_ids newFrontier visited')"

definition traverse :: "Definitions \<Rightarrow> int list \<Rightarrow> (Definition \<Rightarrow> int list) \<Rightarrow> migration_error + Definition list" where
  "traverse ds targetIDs next_ids =
     (case traverse_loop (length (ds_definitions ds) + 1) ds next_ids (map (\<lambda>x. (x, None)) targetIDs) [] of
        Inl e \<Rightarrow> Inl e
      | Inr visited \<Rightarrow> Inr (filter (\<lambda>d. mg_ID d \<in> set visited) (ds_definitions ds)))"

definition Definitions_Up :: "Definitions \<Rightarrow> int list \<Rightarrow> int list \<Rightarrow> migration_error + Definition list" where
  "Definitions_Up ds appliedIDs targetIDs =
     (case traverse ds targetIDs (\<lambda>d. mg_Parents d) of
        Inl e \<Rightarrow> Inl e
      | Inr defs \<Rightarrow> Inr (filter (\<lambda>d. mg_ID d \<notin> set appliedIDs) defs))"

definition Definitions_Down :: "Definitions \<Rightarrow> int list \<Rightarrow> int list \<Rightarrow> migration_error + Definition list" where
  "Definitions_Down ds appliedIDs targetIDs =
     (case traverse ds targetIDs (\<lambda>d. children (ds_definitions ds) (mg_ID d)) of
        Inl e \<Rightarrow> Inl e
      | Inr defs \<Rightarrow> Inr (rev (filter (\<lambda>d. mg_ID d \<notin> set targetIDs \<and> mg_ID d \<in> set appliedIDs) defs)))"

section \<open>The graph of ordered definitions\<close>

abbreviation known :: "Definitions \<Rightarrow> int set" where
  "known ds \<equiv> set (mg_ids (ds_definitions ds))"

abbreviation ds_parents :: "Definitions \<Rightarrow> int \<Rightarrow> int list" where
  "ds_parents ds \<equiv> parents_of (ds_definitions ds)"

lemma definitions_okD:
  assumes "definitions_ok ds"
  shows "ds_definitionsMap ds = definitionsMap (ds_definitions ds)" and "distinct (mg_ids (ds_definitions ds))"
    and "parents_first (ds_parents ds) [] (mg_ids (ds_definitions ds))"
proof -
  have "ds = newDefinitions (ds_definitions ds)" using assms by (simp add: definitions_ok_def)
  then show "ds_definitionsMap ds = definitionsMap (ds_definitions ds)" by (metis newDefinitions_def Definitions.select_convs(2))
qed (use assms in \<open>simp_all add: definitions_ok_def\<close>)

lemma GetByID_None: "definitions_ok ds \<Longrightarrow> GetByID ds x = None \<longleftrightarrow> x \<notin> known ds"
  using definitionsMap_None by (simp add: GetByID_def definitions_okD(1))

lemma GetByID_Some: "definitions_ok ds \<Longrightarrow> GetByID ds x = Some d \<longleftrightarrow> d \<in> set (ds_definitions ds) \<and> mg_ID d = x"
  by (simp add: GetByID_def definitions_okD(1) definitionsMap_eq [OF definitions_okD(2)])

lemma ds_parents_definition: "definitions_ok ds \<Longrightarrow> d \<in> set (ds_definitions ds) \<Longrightarrow> ds_parents ds (mg_ID d) = mg_Parents d"
  by (rule parents_of_distinct [OF definitions_okD(2)])

lemma ds_parents_known: "p \<in> set (ds_parents ds x) \<Longrightarrow> x \<in> known ds"
  using definitionsMap_None [of "ds_definitions ds" x] by (cases "definitionsMap (ds_definitions ds) x") (simp_all add: parents_of_def)

lemma parents_are_known: "definitions_ok ds \<Longrightarrow> p \<in> set (ds_parents ds x) \<Longrightarrow> p \<in> known ds"
  using parents_first_pos(1) [OF definitions_okD(3)] ds_parents_known by blast

lemma children_iff: "definitions_ok ds \<Longrightarrow> c \<in> set (children (ds_definitions ds) p) \<longleftrightarrow> p \<in> set (ds_parents ds c)"
  using set_visit_order [OF definitions_okD(2)] by (simp add: visit_order_def)

text \<open>The edges of the graph point from a parent to a child.\<close>

definition ds_edges :: "Definitions \<Rightarrow> (int \<times> int) set" where
  "ds_edges ds = {(p, c). p \<in> set (ds_parents ds c)}"

section \<open>Traversal\<close>

locale traversal =
  fixes next_ids :: "Definitions \<Rightarrow> Definition \<Rightarrow> int list"
  assumes next_known:
    "definitions_ok ds \<Longrightarrow> d \<in> set (ds_definitions ds) \<Longrightarrow> y \<in> set (next_ids ds d) \<Longrightarrow> y \<in> known ds"
begin

definition succs :: "Definitions \<Rightarrow> (int \<times> int) set" where
  "succs ds = {(mg_ID d, y) | d y. d \<in> set (ds_definitions ds) \<and> y \<in> set (next_ids ds d)}"

definition reach :: "Definitions \<Rightarrow> int list \<Rightarrow> int set" where
  "reach ds targets = (succs ds)\<^sup>* `` set targets"

lemma succs_GetByID:
  "definitions_ok ds \<Longrightarrow> GetByID ds x = Some d \<Longrightarrow> (x, y) \<in> succs ds \<longleftrightarrow> y \<in> set (next_ids ds d)"
  using definitions_okD(2) [of ds]
  by (auto simp: GetByID_Some succs_def) (metis definitionsMap_distinct option.inject)

text \<open>A level visits its frontier; it fails only on an unknown node.\<close>

lemma level:
  assumes ok: "definitions_ok ds" and k: "fst ` set fs \<subseteq> known ds"
  shows "\<exists>visited' new. traverse_level ds (next_ids ds) fs visited newFrontier = Inr (visited', newFrontier @ new) \<and>
    set visited' = set visited \<union> fst ` set fs \<and>
    fst ` set new = {y. \<exists>x \<in> fst ` set fs - set visited. (x, y) \<in> succs ds}"
  using k
proof (induction fs arbitrary: visited newFrontier)
  case (Cons f fs)
  obtain x parent where f: "f = (x, parent)" by (cases f)
  have k: "x \<in> known ds" "fst ` set fs \<subseteq> known ds" using Cons.prems f by simp_all
  show ?case
  proof (cases "x \<in> set visited")
    case True
    have "fst ` set (f # fs) - set visited = fst ` set fs - set visited" using True f by auto
    moreover have "set visited \<union> fst ` set (f # fs) = set visited \<union> fst ` set fs" using True f by auto
    ultimately show ?thesis using Cons.IH [OF k(2), of visited newFrontier] True f by simp
  next
    case False
    obtain d where d: "GetByID ds x = Some d" using GetByID_None [OF ok] k(1) by (cases "GetByID ds x") auto
    let ?new = "map (\<lambda>i. (i, Some x)) (next_ids ds d)"
    obtain v' new where r: "traverse_level ds (next_ids ds) fs (x # visited) (newFrontier @ ?new) = Inr (v', (newFrontier @ ?new) @ new)"
      "set v' = set (x # visited) \<union> fst ` set fs" "fst ` set new = {y. \<exists>z \<in> fst ` set fs - set (x # visited). (z, y) \<in> succs ds}"
      using Cons.IH [OF k(2), of "x # visited" "newFrontier @ ?new"] by blast
    have "fst ` set (f # fs) - set visited = insert x (fst ` set fs - set (x # visited))" using f False by auto
    then have "{y. \<exists>z \<in> fst ` set (f # fs) - set visited. (z, y) \<in> succs ds} = {y. (x, y) \<in> succs ds} \<union> fst ` set new"
      unfolding r(3) by auto
    also have "{y. (x, y) \<in> succs ds} = fst ` set ?new" using succs_GetByID [OF ok d] by (simp add: image_image)
    finally have "fst ` set (?new @ new) = {y. \<exists>z \<in> fst ` set (f # fs) - set visited. (z, y) \<in> succs ds}"
      unfolding set_append image_Un by (rule sym)
    moreover have "set v' = set visited \<union> fst ` set (f # fs)" using r(2) f by auto
    moreover have "traverse_level ds (next_ids ds) (f # fs) visited newFrontier = Inr (v', newFrontier @ (?new @ new))"
      using r(1) d False f by simp
    ultimately show ?thesis by blast
  qed
qed simp

lemma succs_known: "definitions_ok ds \<Longrightarrow> (x, y) \<in> succs ds \<Longrightarrow> y \<in> known ds"
  using next_known by (auto simp: succs_def)

lemma loop:
  assumes ok: "definitions_ok ds"
  shows "fst ` set fs \<subseteq> known ds \<Longrightarrow> set visited \<subseteq> known ds \<Longrightarrow>
    (\<And>x y. x \<in> set visited \<Longrightarrow> (x, y) \<in> succs ds \<Longrightarrow> y \<in> set visited \<union> fst ` set fs) \<Longrightarrow>
    card (known ds - set visited) < n \<Longrightarrow>
    \<exists>v. traverse_loop n ds (next_ids ds) fs visited = Inr v \<and>
      set v = (succs ds)\<^sup>* `` (set visited \<union> fst ` set fs)"
proof (induction n arbitrary: fs visited)
  case (Suc n)
  show ?case
  proof (cases fs)
    case Nil
    have "succs ds `` set visited \<subseteq> set visited" using Suc.prems(3) Nil by auto
    then have "(succs ds)\<^sup>* `` set visited = set visited" by (rule Image_closed_trancl)
    with Nil show ?thesis by simp
  next
    case (Cons f fs')
    obtain v' new where l: "traverse_level ds (next_ids ds) fs visited [] = Inr (v', new)"
      and v': "set v' = set visited \<union> fst ` set fs" and new: "fst ` set new = {y. \<exists>x \<in> fst ` set fs - set visited. (x, y) \<in> succs ds}"
      using level [OF ok Suc.prems(1), of visited "[]"] by auto
    have nk: "fst ` set new \<subseteq> known ds" using new succs_known [OF ok] by auto
    have vk: "set v' \<subseteq> known ds" using v' Suc.prems(1,2) by auto
    have cl: "y \<in> set v' \<union> fst ` set new" if "x \<in> set v'" "(x, y) \<in> succs ds" for x y
      using that v' new Suc.prems(3) [of x y] by blast
    have img: "(succs ds)\<^sup>* `` (set v' \<union> fst ` set new) = (succs ds)\<^sup>* `` (set visited \<union> fst ` set fs)"
      unfolding new v' by (auto intro: converse_rtrancl_into_rtrancl)
    have run: "traverse_loop (Suc n) ds (next_ids ds) fs visited = traverse_loop n ds (next_ids ds) new v'"
      using l Cons by simp
    show ?thesis
    proof (cases "new = []")
      case True
      have "succs ds `` set v' \<subseteq> set v'" using cl True by auto
      then have "(succs ds)\<^sup>* `` set v' = set v'" by (rule Image_closed_trancl)
      then show ?thesis using run img True by simp
    next
      case False
      then have "fst ` set new \<noteq> {}" by simp
      then obtain x where x: "x \<in> fst ` set fs" "x \<notin> set visited" unfolding new by blast
      have "known ds - set v' \<subset> known ds - set visited" using x v' Suc.prems(1) by auto
      then have "card (known ds - set v') < card (known ds - set visited)" by (simp add: psubset_card_mono)
      then have "card (known ds - set v') < n" using Suc.prems(4) by simp
      from Suc.IH [OF nk vk cl this] show ?thesis unfolding run img by simp
    qed
  qed
qed simp

lemma traverse_ok:
  assumes ok: "definitions_ok ds" and k: "set targets \<subseteq> known ds"
  shows "traverse ds targets (next_ids ds) = Inr (filter (\<lambda>d. mg_ID d \<in> reach ds targets) (ds_definitions ds))"
proof -
  have i: "fst ` set (map (\<lambda>x. (x, None)) targets) = set targets" by (simp add: image_image)
  have "card (known ds - set []) < length (ds_definitions ds) + 1"
    using card_length [of "mg_ids (ds_definitions ds)"] by simp
  from loop [OF ok _ _ _ this, of "map (\<lambda>x. (x, None)) targets", unfolded i] k
  obtain v where "traverse_loop (length (ds_definitions ds) + 1) ds (next_ids ds) (map (\<lambda>x. (x, None)) targets) [] = Inr v"
    "set v = reach ds targets" by (auto simp: reach_def)
  then show ?thesis by (simp add: traverse_def)
qed

text \<open>An unknown target is reported as such.\<close>

lemma level_unknown:
  assumes ok: "definitions_ok ds"
  shows "\<not> fst ` set fs \<subseteq> known ds \<Longrightarrow> set visited \<subseteq> known ds \<Longrightarrow>
    \<exists>x p. (x, p) \<in> set fs \<and> x \<notin> known ds \<and>
      traverse_level ds (next_ids ds) fs visited newFrontier = Inl (UnknownMigration x p)"
proof (induction fs arbitrary: visited newFrontier)
  case (Cons f fs)
  obtain x p where f: "f = (x, p)" by (cases f)
  show ?case
  proof (cases "GetByID ds x")
    case None
    then have "x \<notin> known ds" using GetByID_None [OF ok] by simp
    with None Cons.prems(2) f show ?thesis by auto
  next
    case (Some d)
    then have x: "x \<in> known ds" using GetByID_None [OF ok, of x] by auto
    then have n: "\<not> fst ` set fs \<subseteq> known ds" using Cons.prems(1) f by auto
    show ?thesis
    proof (cases "x \<in> set visited")
      case True
      with Cons.IH [OF n Cons.prems(2), of newFrontier] f show ?thesis by auto
    next
      case False
      with Cons.IH [OF n, of "x # visited" "newFrontier @ map (\<lambda>i. (i, Some x)) (next_ids ds d)"] x Cons.prems(2) f Some show ?thesis by auto
    qed
  qed
qed simp

lemma traverse_unknown:
  assumes ok: "definitions_ok ds" and k: "\<not> set targets \<subseteq> known ds"
  shows "\<exists>x \<in> set targets - known ds. traverse ds targets (next_ids ds) = Inl (UnknownMigration x None)"
proof -
  have i: "fst ` set (map (\<lambda>x. (x, None)) targets) = set targets" by (simp add: image_image)
  obtain x p where x: "(x, p) \<in> set (map (\<lambda>x. (x, None)) targets)" "x \<notin> known ds"
    "traverse_level ds (next_ids ds) (map (\<lambda>x. (x, None)) targets) [] [] = Inl (UnknownMigration x p)"
    using level_unknown [OF ok, of "map (\<lambda>x. (x, None)) targets" "[]" "[]", unfolded i] k by fastforce
  then have "p = None" "x \<in> set targets" by auto
  moreover have "traverse ds targets (next_ids ds) = Inl (UnknownMigration x p)"
    using x(3) k by (cases targets) (simp_all add: traverse_def)
  ultimately show ?thesis using x(2) by blast
qed

end

interpretation up: traversal "\<lambda>ds d. mg_Parents d"
proof unfold_locales
  fix ds d y
  assume "definitions_ok ds" "d \<in> set (ds_definitions ds)" "y \<in> set (mg_Parents d)"
  then show "y \<in> known ds" using parents_are_known [of ds y "mg_ID d"] ds_parents_definition by simp
qed

interpretation down: traversal "\<lambda>ds d. children (ds_definitions ds) (mg_ID d)"
  by unfold_locales (auto simp: set_children)

lemma up_reach:
  assumes "definitions_ok ds"
  shows "up.reach ds targets = {x. \<exists>t \<in> set targets. (x, t) \<in> (ds_edges ds)\<^sup>*}"
proof -
  have "up.succs ds = (ds_edges ds)\<inverse>"
  proof (intro equalityI subrelI)
    fix x y
    assume "(x, y) \<in> (ds_edges ds)\<inverse>"
    then have y: "y \<in> set (ds_parents ds x)" by (simp add: ds_edges_def)
    then obtain d where "d \<in> set (ds_definitions ds)" "x = mg_ID d" using ds_parents_known by fastforce
    with y assms show "(x, y) \<in> up.succs ds" by (auto simp: up.succs_def ds_parents_definition)
  qed (auto simp: up.succs_def ds_edges_def ds_parents_definition [OF assms])
  then show ?thesis by (auto simp: up.reach_def rtrancl_converse)
qed

lemma down_reach:
  assumes "definitions_ok ds"
  shows "down.reach ds targets = {x. \<exists>t \<in> set targets. (t, x) \<in> (ds_edges ds)\<^sup>*}"
proof -
  have "down.succs ds = ds_edges ds"
  proof (intro equalityI subrelI)
    fix x y
    assume "(x, y) \<in> ds_edges ds"
    then have y: "x \<in> set (ds_parents ds y)" by (simp add: ds_edges_def)
    then obtain d where "d \<in> set (ds_definitions ds)" "x = mg_ID d" using parents_are_known [OF assms] by fastforce
    with y children_iff [OF assms] show "(x, y) \<in> down.succs ds" by (auto simp: down.succs_def)
  qed (auto simp: down.succs_def ds_edges_def children_iff [OF assms])
  then show ?thesis by (auto simp: down.reach_def)
qed

section \<open>Applying migrations\<close>

lemma map_filter_ids: "mg_ids (filter (\<lambda>d. P (mg_ID d)) defs) = filter P (mg_ids defs)"
  by (simp add: filter_map comp_def)

lemma Definitions_Up_eq:
  assumes "definitions_ok ds" and "set targets \<subseteq> known ds"
  shows "Definitions_Up ds applied targets = Inr (filter (\<lambda>d. mg_ID d \<notin> set applied \<and>
    (\<exists>t \<in> set targets. (mg_ID d, t) \<in> (ds_edges ds)\<^sup>*)) (ds_definitions ds))"
  using up.traverse_ok [OF assms] by (simp add: Definitions_Up_def up_reach [OF assms(1)] conj_commute)

lemma Definitions_Up_order:
  assumes ok: "definitions_ok ds" and "set targets \<subseteq> known ds" and "Definitions_Up ds applied targets = Inr defs"
  shows "parents_first (ds_parents ds) applied (mg_ids defs)"
proof -
  let ?P = "\<lambda>x. x \<notin> set applied \<and> (\<exists>t \<in> set targets. (x, t) \<in> (ds_edges ds)\<^sup>*)"
  have "mg_ids defs = filter ?P (mg_ids (ds_definitions ds))"
    using Definitions_Up_eq [OF assms(1,2), of applied] assms(3) map_filter_ids [of ?P] by simp
  moreover have "?P p \<or> p \<in> set applied" if "?P x" "p \<in> set (ds_parents ds x)" for x p
  proof -
    have "(p, x) \<in> ds_edges ds" using that(2) by (simp add: ds_edges_def)
    with that(1) show ?thesis by (blast intro: converse_rtrancl_into_rtrancl)
  qed
  then have "\<forall>x \<in> known ds. ?P x \<longrightarrow> (\<forall>p \<in> set (ds_parents ds x). ?P p \<or> p \<in> set applied)" by blast
  from parents_first_filter_seen [OF definitions_okD(3) [OF ok] this] have "parents_first (ds_parents ds) applied (filter ?P (mg_ids (ds_definitions ds)))" by simp
  ultimately show ?thesis by simp
qed

text \<open>A set of applied migrations is closed if it has the parents of each of its members.\<close>

definition parent_closed :: "Definitions \<Rightarrow> int set \<Rightarrow> bool" where
  "parent_closed ds A \<longleftrightarrow> (\<forall>x \<in> A. set (ds_parents ds x) \<subseteq> A)"

lemma parent_closed_apply:
  assumes "parents_first (ds_parents ds) applied xs" and "parent_closed ds (set applied)"
  shows "parent_closed ds (set applied \<union> set xs)"
  using assms
proof (induction xs arbitrary: applied)
  case (Cons x xs)
  have "parent_closed ds (set (x # applied))" using Cons.prems by (auto simp: parent_closed_def)
  then have "parent_closed ds (set (x # applied) \<union> set xs)" using Cons.IH [of "x # applied"] Cons.prems(1) by simp
  then show ?case by simp
qed simp

section \<open>Undoing migrations\<close>

text \<open>A sequence of migrations can be undone if each is applied and has no applied child when it is undone.\<close>

primrec undo_order :: "Definitions \<Rightarrow> int set \<Rightarrow> int list \<Rightarrow> bool" where
  "undo_order ds A [] \<longleftrightarrow> True"
| "undo_order ds A (x # xs) \<longleftrightarrow>
     x \<in> A \<and> (\<forall>c \<in> A. x \<notin> set (ds_parents ds c)) \<and> undo_order ds (A - {x}) xs"

lemma parent_closed_undo: "undo_order ds A xs \<Longrightarrow> parent_closed ds A \<Longrightarrow> parent_closed ds (A - set xs)"
proof (induction xs arbitrary: A)
  case (Cons x xs)
  have "parent_closed ds (A - {x})" using Cons.prems by (auto simp: parent_closed_def)
  then have "parent_closed ds (A - {x} - set xs)" using Cons by simp
  moreover have "A - {x} - set xs = A - set (x # xs)" by auto
  ultimately show ?case by simp
qed simp

lemma undo_order_rev_filter:
  assumes "parents_first (ds_parents ds) [] xs" and "distinct xs" and "\<forall>x. Q x \<longrightarrow> x \<in> A"
    and "\<forall>x c. Q x \<longrightarrow> c \<in> A \<longrightarrow> x \<in> set (ds_parents ds c) \<longrightarrow> Q c \<and> (c \<in> set xs \<or> c \<in> R)"
    and "R \<inter> set xs = {}"
  shows "undo_order ds (A - R) (rev (filter Q xs))"
  using assms
proof (induction xs arbitrary: R rule: rev_induct)
  case (snoc y ys)
  have pf: "parents_first (ds_parents ds) [] ys" "distinct ys" using snoc.prems(1,2) by (simp_all add: parents_first_append)
  show ?case
  proof (cases "Q y")
    case True
    have "\<forall>x c. Q x \<longrightarrow> c \<in> A \<longrightarrow> x \<in> set (ds_parents ds c) \<longrightarrow> Q c \<and> (c \<in> set ys \<or> c \<in> insert y R)"
      using snoc.prems(4) by simp blast
    moreover have "insert y R \<inter> set ys = {}" using snoc.prems(2,5) by auto
    ultimately have "undo_order ds (A - insert y R) (rev (filter Q ys))" by (rule snoc.IH [OF pf snoc.prems(3)])
    moreover have "A - R - {y} = A - insert y R" by blast
    moreover have "y \<in> A - R" using True snoc.prems(3,5) by auto
    moreover have "\<forall>c \<in> A - R. y \<notin> set (ds_parents ds c)"
      using snoc.prems(4) True parents_first_last [OF snoc.prems(1,2)] by blast
    ultimately show ?thesis using True by simp
  next
    case False
    have "\<forall>x c. Q x \<longrightarrow> c \<in> A \<longrightarrow> x \<in> set (ds_parents ds c) \<longrightarrow> Q c \<and> (c \<in> set ys \<or> c \<in> R)"
      using snoc.prems(4) False by auto
    moreover have "R \<inter> set ys = {}" using snoc.prems(5) by auto
    ultimately have "undo_order ds (A - R) (rev (filter Q ys))" by (rule snoc.IH [OF pf snoc.prems(3)])
    then show ?thesis using False by simp
  qed
qed simp

lemma Definitions_Down_eq:
  assumes "definitions_ok ds" and "set targets \<subseteq> known ds"
  shows "Definitions_Down ds applied targets = Inr (rev (filter (\<lambda>d. mg_ID d \<in> set applied \<and>
    (\<exists>t \<in> set targets. (t, mg_ID d) \<in> (ds_edges ds)\<^sup>*) \<and> mg_ID d \<notin> set targets) (ds_definitions ds)))"
  using down.traverse_ok [OF assms] by (simp add: Definitions_Down_def down_reach [OF assms(1)] conj_ac)

lemma Definitions_Down_order:
  assumes ok: "definitions_ok ds" and "set targets \<subseteq> known ds" and down: "Definitions_Down ds applied targets = Inr defs"
    and antichain: "\<And>t t'. t \<in> set targets \<Longrightarrow> t' \<in> set targets \<Longrightarrow> (t, t') \<notin> (ds_edges ds)\<^sup>+"
  shows "undo_order ds (set applied) (mg_ids defs)"
proof -
  let ?Q = "\<lambda>x. x \<in> set applied \<and> (\<exists>t \<in> set targets. (t, x) \<in> (ds_edges ds)\<^sup>*) \<and> x \<notin> set targets"
  have "mg_ids defs = rev (filter ?Q (mg_ids (ds_definitions ds)))"
    using Definitions_Down_eq [OF assms(1,2), of applied] down map_filter_ids [of ?Q] by (simp add: rev_map [symmetric])
  moreover have "\<forall>x c. ?Q x \<longrightarrow> c \<in> set applied \<longrightarrow> x \<in> set (ds_parents ds c) \<longrightarrow> ?Q c \<and> (c \<in> known ds \<or> c \<in> {})"
  proof (intro allI impI)
    fix x c
    assume x: "?Q x" and c: "c \<in> set applied" "x \<in> set (ds_parents ds c)"
    have e: "(x, c) \<in> ds_edges ds" using c(2) by (simp add: ds_edges_def)
    obtain t where t: "t \<in> set targets" "(t, x) \<in> (ds_edges ds)\<^sup>*" using x by blast
    then have "(t, c) \<in> (ds_edges ds)\<^sup>+" using e by (rule_tac rtrancl_into_trancl1)
    then have "c \<notin> set targets" using antichain t(1) by blast
    moreover have "(t, c) \<in> (ds_edges ds)\<^sup>*" using t(2) e by (rule rtrancl_into_rtrancl)
    ultimately have "?Q c" using c(1) t(1) by blast
    then show "?Q c \<and> (c \<in> known ds \<or> c \<in> {})" using ds_parents_known [OF c(2)] by blast
  qed
  from undo_order_rev_filter [OF definitions_okD(3,2) [OF ok] _ this]
  have "undo_order ds (set applied - {}) (rev (filter ?Q (mg_ids (ds_definitions ds))))" by blast
  ultimately show ?thesis by simp
qed

section \<open>Cutting branches\<close>

lemma excluded_parent_None: "excluded_parent ids defs = None \<longleftrightarrow> (\<forall>d \<in> set defs. set (mg_Parents d) \<subseteq> set ids)"
  by (induction defs) (auto split: list.splits simp: filter_empty_conv filter_eq_Cons_iff)

lemma excluded_parent_Some:
  "excluded_parent ids defs = Some (x, p) \<Longrightarrow> \<exists>d \<in> set defs. mg_ID d = x \<and> p \<in> set (mg_Parents d) \<and> p \<notin> set ids"
proof (induction defs)
  case (Cons d defs)
  show ?case
  proof (cases "filter (\<lambda>p. p \<notin> set ids) (mg_Parents d)")
    case (Cons q qs)
    then have "q \<in> set (filter (\<lambda>p. p \<notin> set ids) (mg_Parents d))" by simp
    then have "q \<in> set (mg_Parents d) \<and> q \<notin> set ids" unfolding set_filter by blast
    with Cons Cons.prems show ?thesis by auto
  qed (use Cons in auto)
qed simp

lemma length_filter_filter: "length (filter P (filter R xs)) \<le> length (filter P xs)"
  by (induction xs) auto

lemma Definitions_Filter_ok:
  assumes ok: "definitions_ok ds" and run: "Definitions_Filter ds ids = Inr ds'"
  shows "definitions_ok ds'" and "ds_definitions ds' = filter (\<lambda>d. mg_ID d \<in> set ids) (ds_definitions ds)"
proof -
  let ?f = "filter (\<lambda>d. mg_ID d \<in> set ids) (ds_definitions ds)"
  have x: "excluded_parent ids ?f = None" and d': "ds' = newDefinitions ?f"
    using run by (auto simp: Definitions_Filter_def Let_def split: option.splits)
  have none: "\<forall>d \<in> set ?f. set (mg_Parents d) \<subseteq> set ids" using x by (simp only: excluded_parent_None)
  show f: "ds_definitions ds' = ?f" using d' by (simp add: newDefinitions_def)
  have dist: "distinct (mg_ids ?f)" using definitions_okD(2) [OF ok] by (simp add: distinct_map_filter)
  have par: "parents_of ?f (mg_ID d) = mg_Parents d" if "d \<in> set ?f" for d using parents_of_distinct [OF dist that] .
  have "parents_first (parents_of ?f) [] (mg_ids ?f)"
    unfolding parents_first_split
  proof (intro allI impI)
    fix ys x zs
    assume s: "mg_ids ?f = ys @ x # zs"
    have "x \<in> set (mg_ids ?f)" unfolding s by simp
    then obtain d where d: "d \<in> set ?f" "mg_ID d = x" by auto
    have pf: "parents_first (ds_parents ds) [] (mg_ids ?f)"
      unfolding map_filter_ids [of "\<lambda>x. x \<in> set ids"]
    proof (rule parents_first_filter [OF definitions_okD(3) [OF ok]])
      fix y p
      assume "y \<in> known ds" "y \<in> set ids" "p \<in> set (ds_parents ds y)"
      moreover from this obtain d' where "d' \<in> set ?f" "mg_ID d' = y" by auto
      ultimately show "p \<in> set ids" using none ds_parents_definition [OF ok, of d'] by auto
    qed
    have "set (ds_parents ds x) \<subseteq> set ys" using pf s unfolding parents_first_split by auto
    then show "set (parents_of ?f x) \<subseteq> set [] \<union> set ys" using d par [OF d(1)] ds_parents_definition [OF ok, of d] by auto
  qed
  moreover have "length (filter (\<lambda>d. mg_Parents d = []) ?f) = 1" if ne: "?f \<noteq> []"
  proof -
    obtain d fs where df: "?f = d # fs" using ne by (cases ?f) auto
    have "parents_of ?f (mg_ID d) = []" using calculation unfolding df by simp
    then have "mg_Parents d = []" using par [of d] df by simp
    then have "1 \<le> length (filter (\<lambda>d. mg_Parents d = []) ?f)" unfolding df by simp
    moreover have "length (filter (\<lambda>d. mg_Parents d = []) ?f) \<le> length (filter (\<lambda>d. mg_Parents d = []) (ds_definitions ds))"
      by (rule length_filter_filter)
    moreover have "length (filter (\<lambda>d. mg_Parents d = []) (ds_definitions ds)) = 1" using ok ne by (auto simp: definitions_ok_def)
    ultimately show ?thesis by (metis le_antisym)
  qed
  ultimately show "definitions_ok ds'" using dist unfolding d' by (cases "?f = []") (simp_all add: definitions_ok_def newDefinitions_def del: filter_filter)
qed

lemma Definitions_Filter_succeeds:
  assumes ok: "definitions_ok ds" and k: "set ids \<subseteq> known ds"
  shows "(\<exists>ds'. Definitions_Filter ds ids = Inr ds') \<longleftrightarrow> parent_closed ds (set ids)"
proof -
  let ?f = "filter (\<lambda>d. mg_ID d \<in> set ids) (ds_definitions ds)"
  have "(\<exists>ds'. Definitions_Filter ds ids = Inr ds') \<longleftrightarrow> excluded_parent ids ?f = None"
    by (auto simp: Definitions_Filter_def Let_def split: option.splits)
  also have "\<dots> \<longleftrightarrow> (\<forall>d \<in> set ?f. set (mg_Parents d) \<subseteq> set ids)" by (rule excluded_parent_None)
  also have "\<dots> \<longleftrightarrow> parent_closed ds (set ids)"
  proof
    assume l: "\<forall>d \<in> set ?f. set (mg_Parents d) \<subseteq> set ids"
    show "parent_closed ds (set ids)"
      unfolding parent_closed_def
    proof
      fix x
      assume x: "x \<in> set ids"
      then obtain d where "d \<in> set (ds_definitions ds)" "mg_ID d = x" using k by auto
      with l x ds_parents_definition [OF ok, of d] show "set (ds_parents ds x) \<subseteq> set ids" by auto
    qed
  next
    assume c: "parent_closed ds (set ids)"
    show "\<forall>d \<in> set ?f. set (mg_Parents d) \<subseteq> set ids"
    proof
      fix d
      assume d: "d \<in> set ?f"
      then have "set (ds_parents ds (mg_ID d)) \<subseteq> set ids" using c unfolding parent_closed_def by simp
      then show "set (mg_Parents d) \<subseteq> set ids" using d ds_parents_definition [OF ok, of d] by simp
    qed
  qed
  finally show ?thesis .
qed

section \<open>Dominators\<close>

lemma set_intersect: "set (intersect a bs) = {x \<in> set a. \<forall>b \<in> set bs. x \<in> set b}"
  by (induction a bs rule: intersect.induct) auto

lemma sorted_wrt_intersect: "sorted_wrt R a \<Longrightarrow> sorted_wrt R (intersect a bs)"
  by (induction a bs rule: intersect.induct) (simp_all add: sorted_wrt_filter)

text \<open>The paths from a migration without parents to \<open>n\<close>; a dominator of \<open>n\<close> is on all of them.\<close>

definition root_path :: "Definitions \<Rightarrow> int list \<Rightarrow> int \<Rightarrow> bool" where
  "root_path ds path n \<longleftrightarrow> down_path (ds_parents ds) path \<and> ds_parents ds (hd path) = [] \<and> last path = n"

definition dominates :: "Definitions \<Rightarrow> int \<Rightarrow> int \<Rightarrow> bool" where
  "dominates ds x n \<longleftrightarrow> (\<forall>path. root_path ds path n \<longrightarrow> x \<in> set path)"

lemma root_path_snoc:
  assumes "p \<in> set (ds_parents ds n)" and "root_path ds path p"
  shows "root_path ds (path @ [n]) n"
proof -
  have "path \<noteq> []" using assms(2) by (auto simp: root_path_def)
  then obtain xs where "path = xs @ [p]" using assms(2) by (metis append_butlast_last_id root_path_def)
  with assms down_path_last [of "ds_parents ds" xs p n] show ?thesis by (cases xs) (simp_all add: root_path_def)
qed

lemma root_path_cases:
  assumes "root_path ds path n"
  obtains "path = [n]" "ds_parents ds n = []" | p path' where "path = path' @ [n]" "p \<in> set (ds_parents ds n)" "root_path ds path' p"
proof -
  have "path \<noteq> []" using assms by (auto simp: root_path_def)
  then obtain xs where xs: "path = xs @ [n]" using assms by (metis append_butlast_last_id root_path_def)
  show ?thesis
  proof (cases xs rule: rev_cases)
    case Nil
    with xs assms that(1) show ?thesis by (simp add: root_path_def)
  next
    case (snoc ys p)
    then have d: "down_path (ds_parents ds) (ys @ p # [n])" using xs assms by (simp add: root_path_def)
    have "p \<in> set (ds_parents ds n)" using down_path_suffix [OF d] by simp
    moreover have "root_path ds (ys @ [p]) p" using down_path_prefix [OF d] assms xs snoc by (cases ys) (simp_all add: root_path_def)
    ultimately show ?thesis using that(2) [of xs p] xs snoc by simp
  qed
qed

lemma dominates_step:
  "dominates ds x n \<longleftrightarrow> x = n \<or> (ds_parents ds n \<noteq> [] \<and> (\<forall>p \<in> set (ds_parents ds n). dominates ds x p))"
proof
  assume l: "dominates ds x n"
  show "x = n \<or> (ds_parents ds n \<noteq> [] \<and> (\<forall>p \<in> set (ds_parents ds n). dominates ds x p))"
  proof (cases "x = n")
    case False
    have "ds_parents ds n \<noteq> []"
    proof
      assume "ds_parents ds n = []"
      then have "root_path ds [n] n" by (simp add: root_path_def)
      with l False show False by (auto simp: dominates_def)
    qed
    moreover have "dominates ds x p" if "p \<in> set (ds_parents ds n)" for p
      unfolding dominates_def
    proof (intro allI impI)
      fix path
      assume "root_path ds path p"
      from root_path_snoc [OF that this] l have "x \<in> set (path @ [n])" by (simp only: dominates_def)
      with False show "x \<in> set path" by simp
    qed
    ultimately show ?thesis by blast
  qed simp
next
  assume r: "x = n \<or> (ds_parents ds n \<noteq> [] \<and> (\<forall>p \<in> set (ds_parents ds n). dominates ds x p))"
  show "dominates ds x n"
    unfolding dominates_def
  proof (intro allI impI)
    fix path
    assume "root_path ds path n"
    then show "x \<in> set path"
      by (cases rule: root_path_cases) (use r in \<open>auto simp: dominates_def\<close>)
  qed
qed

text \<open>What the map holds for a migration: its dominators, the deepest first.\<close>

definition dom_spec :: "Definitions \<Rightarrow> int \<Rightarrow> int list \<Rightarrow> bool" where
  "dom_spec ds x l \<longleftrightarrow> set l = {y. dominates ds y x} \<and> sorted_wrt (\<lambda>a b. dominates ds b a) l"

lemma dom_spec_step:
  assumes "\<And>p. p \<in> set (ds_parents ds x) \<Longrightarrow> dom_spec ds p (dom_at m p)"
  shows "dom_spec ds x (case ds_parents ds x of [] \<Rightarrow> [x] | p # ps \<Rightarrow> x # intersect (dom_at m p) (map (dom_at m) ps))"
proof (cases "ds_parents ds x")
  case Nil
  then have "{y. dominates ds y x} = {x}" using dominates_step [of ds _ x] by auto
  with Nil show ?thesis by (simp add: dom_spec_def)
next
  case (Cons p ps)
  let ?i = "intersect (dom_at m p) (map (dom_at m) ps)"
  have all: "set (dom_at m q) = {y. dominates ds y q}" if "q \<in> set (p # ps)" for q
    using assms [of q] that Cons by (simp add: dom_spec_def)
  have i: "set ?i = {y. \<forall>q \<in> set (p # ps). dominates ds y q}" using all by (auto simp: set_intersect)
  have "set (x # ?i) = {y. dominates ds y x}" using dominates_step [of ds _ x] Cons i by auto
  moreover have "sorted_wrt (\<lambda>a b. dominates ds b a) ?i"
    by (rule sorted_wrt_intersect) (use assms [of p] Cons in \<open>simp add: dom_spec_def\<close>)
  ultimately show ?thesis using Cons by (auto simp: dom_spec_def)
qed

lemma dominators_from_other: "x \<notin> set (mg_ids defs) \<Longrightarrow> dominators_from m defs x = m x"
  by (induction m defs rule: dominators_from.induct) auto

lemma dominators_from_ok:
  assumes "\<forall>d \<in> set defs. ds_parents ds (mg_ID d) = mg_Parents d" and "parents_first (ds_parents ds) seen (mg_ids defs)"
    and "\<forall>x \<in> set seen. dom_spec ds x (dom_at m x)"
  shows "\<forall>x \<in> set seen \<union> set (mg_ids defs). dom_spec ds x (dom_at (dominators_from m defs) x)"
  using assms
proof (induction defs arbitrary: m seen)
  case (Cons d defs)
  define m' where "m' = m(mg_ID d \<mapsto> (case mg_Parents d of
    [] \<Rightarrow> [mg_ID d] | p # ps \<Rightarrow> mg_ID d # intersect (dom_at m p) (map (dom_at m) ps)))"
  have "ds_parents ds (mg_ID d) = mg_Parents d" using Cons.prems(1) by simp
  then have "dom_spec ds (mg_ID d) (dom_at m' (mg_ID d))"
    using dom_spec_step [of ds "mg_ID d" m] Cons.prems(2,3) by (auto simp: m'_def dom_at_def [of "_(_ \<mapsto> _)"])
  moreover have "dom_at m' x = dom_at m x" if "x \<noteq> mg_ID d" for x using that by (simp add: m'_def dom_at_def)
  ultimately have "\<forall>x \<in> set (mg_ID d # seen). dom_spec ds x (dom_at m' x)" using Cons.prems(3) by (metis set_ConsD)
  moreover have "dominators_from m (d # defs) = dominators_from m' defs" by (simp add: m'_def)
  ultimately show ?case using Cons.IH [of "mg_ID d # seen" m'] Cons.prems(1,2) by simp
qed simp

lemma dominators_ok: "definitions_ok ds \<Longrightarrow> x \<in> known ds \<Longrightarrow> dom_spec ds x (dom_at (dominators ds) x)"
  using dominators_from_ok [of "ds_definitions ds" ds "[]" Map.empty] definitions_okD(3) ds_parents_definition
  by (auto simp: dominators_def)

lemma dominators_unknown: "x \<notin> known ds \<Longrightarrow> dom_at (dominators ds) x = []"
  using dominators_from_other [of x "ds_definitions ds" Map.empty] by (simp add: dominators_def dom_at_def)

lemma dominates_known:
  assumes ok: "definitions_ok ds" and "n \<in> known ds" and "dominates ds x n"
  shows "x \<in> known ds"
  using definitions_okD(3) [OF ok] assms(2,3)
proof (induction n rule: parents_first_induct)
  case (node n)
  show ?case
  proof (cases "x = n")
    case False
    then obtain p where "p \<in> set (ds_parents ds n)" "dominates ds x p"
      using node.prems dominates_step [of ds x n] by (cases "ds_parents ds n") auto
    with node.IH show ?thesis by blast
  qed (use node.hyps in simp)
qed

lemma Root_dominates:
  assumes ok: "definitions_ok ds" and root: "Definitions_Root ds = Some r" and "n \<in> known ds"
  shows "dominates ds (mg_ID r) n"
  using definitions_okD(3) [OF ok] assms(3)
proof (induction n rule: parents_first_induct)
  case (node n)
  obtain d where d: "d \<in> set (ds_definitions ds)" "mg_ID d = n" using node.hyps by auto
  obtain rest where rest: "ds_definitions ds = r # rest" using root by (auto simp: Definitions_Root_def split: list.splits)
  show ?case
  proof (cases "ds_parents ds n = []")
    case True
    have "mg_Parents d = []" using True d ds_parents_definition [OF ok d(1)] by simp
    moreover have "ds_parents ds (mg_ID r) = []" using definitions_okD(3) [OF ok] rest by simp
    then have "mg_Parents r = []" using ds_parents_definition [OF ok, of r] rest by simp
    moreover have "length (filter (\<lambda>d. mg_Parents d = []) (ds_definitions ds)) = 1" using ok rest by (simp add: definitions_ok_def)
    ultimately have "d = r" using d(1) unfolding rest by (auto simp: filter_empty_conv)
    with d(2) dominates_step [of ds "mg_ID r" n] show ?thesis by simp
  next
    case False
    with node.IH dominates_step [of ds "mg_ID r" n] show ?thesis by blast
  qed
qed

lemma dominates_trans:
  assumes "dominates ds x h" and "dominates ds h n"
  shows "dominates ds x n"
  unfolding dominates_def
proof (intro allI impI)
  fix path
  assume p: "root_path ds path n"
  then have "h \<in> set path" using assms(2) by (simp add: dominates_def)
  then obtain xs ys where s: "path = xs @ h # ys" by (meson split_list)
  have "root_path ds (xs @ [h]) h" using p s down_path_prefix [of "ds_parents ds" xs h ys]
    by (cases xs) (simp_all add: root_path_def)
  then have "x \<in> set (xs @ [h])" using assms(1) by (simp only: dominates_def)
  then show "x \<in> set path" using s by auto
qed

lemma Leaves_nonempty:
  assumes ok: "definitions_ok ds" and "ds_definitions ds \<noteq> []"
  shows "Leaves ds \<noteq> []"
proof -
  obtain defs d where d: "ds_definitions ds = defs @ [d]" using assms(2) by (metis append_butlast_last_id)
  have "mg_ID d \<notin> set (ds_parents ds c)" for c
  proof (cases "c \<in> known ds")
    case True
    then show ?thesis using parents_first_last [of "ds_parents ds" "mg_ids defs" "mg_ID d" c] definitions_okD(2,3) [OF ok] d by simp
  next
    case False
    then show ?thesis using ds_parents_known by blast
  qed
  then have "children (ds_definitions ds) (mg_ID d) = []" using children_iff [OF ok, of _ "mg_ID d"] by (metis list.set_intros(1) neq_Nil_conv)
  then have "d \<in> set (Leaves ds)" by (simp add: Leaves_def d)
  then show ?thesis by auto
qed

lemma LeafDominator_eq:
  assumes ok: "definitions_ok ds" and ne: "ds_definitions ds \<noteq> []" and k: "set extraIDs \<subseteq> known ds"
  shows "\<exists>d. LeafDominator ds extraIDs = Some d \<and> d \<in> set (ds_definitions ds) \<and>
    (\<forall>x. dominates ds x (mg_ID d) \<longleftrightarrow> (\<forall>n \<in> mg_ID ` set (Leaves ds) \<union> set extraIDs. dominates ds x n))"
proof -
  let ?N = "mg_ids (Leaves ds) @ extraIDs" and ?doms = "dominators ds"
  have nk: "set ?N \<subseteq> known ds" using k by (auto simp: Leaves_def)
  obtain n ns where n: "?N = n # ns" using Leaves_nonempty [OF ok ne] by (cases "Leaves ds") auto
  have spec: "dom_spec ds y (dom_at ?doms y)" if "y \<in> set ?N" for y using dominators_ok [OF ok] that nk by blast
  define same where "same = intersect (dom_at ?doms n) (map (dom_at ?doms) ns)"
  have mem: "x \<in> set same \<longleftrightarrow> (\<forall>y \<in> set ?N. dominates ds x y)" for x
    using spec n by (auto simp: same_def set_intersect dom_spec_def)
  have sorted: "sorted_wrt (\<lambda>a b. dominates ds b a) same"
    unfolding same_def by (rule sorted_wrt_intersect) (use spec n in \<open>simp add: dom_spec_def\<close>)
  obtain r where "Definitions_Root ds = Some r" using ne by (cases "ds_definitions ds") (simp_all add: Definitions_Root_def)
  then have "mg_ID r \<in> set same" using Root_dominates [OF ok] nk by (auto simp: mem)
  then obtain h hs where h: "same = h # hs" by (cases same) auto
  have dh: "dominates ds h y" if "y \<in> set ?N" for y using mem [of h] that h by simp
  then have "h \<in> known ds" using dominates_known [OF ok, of n h] nk n by auto
  then obtain d where d: "GetByID ds h = Some d" using GetByID_None [OF ok, of h] by (cases "GetByID ds h") auto
  have idh: "d \<in> set (ds_definitions ds)" "mg_ID d = h" using d GetByID_Some [OF ok] by simp_all
  have "map (\<lambda>d. dom_at ?doms (mg_ID d)) (Leaves ds) @ map (dom_at ?doms) extraIDs = map (dom_at ?doms) ?N" by simp
  then have ids: "map (\<lambda>d. dom_at ?doms (mg_ID d)) (Leaves ds) @ map (dom_at ?doms) extraIDs = dom_at ?doms n # map (dom_at ?doms) ns"
    unfolding n by simp
  have "LeafDominator ds extraIDs = Some d"
    using h d Leaves_nonempty [OF ok ne] unfolding same_def LeafDominator_def Let_def ids by simp
  moreover have "dominates ds x h \<longleftrightarrow> (\<forall>y \<in> set ?N. dominates ds x y)" for x
  proof
    assume x: "dominates ds x h"
    show "\<forall>y \<in> set ?N. dominates ds x y" using dominates_trans [OF x] dh by blast
  next
    assume "\<forall>y \<in> set ?N. dominates ds x y"
    then have "x \<in> set same" by (simp add: mem)
    with sorted h dominates_step [of ds h h] show "dominates ds x h" by auto
  qed
  ultimately show ?thesis using idh by auto
qed

lemma NewDefinitions_graph:
  assumes "NewDefinitions defs = Inr ds"
  shows "ds_parents ds = parents_of defs" and "ds_edges ds = migration_edges defs" and "known ds = set (mg_ids defs)"
    and "set (ds_definitions ds) = set defs" and "definitions_ok ds"
proof -
  note ok = NewDefinitions_ok [OF assms]
  show s: "set (ds_definitions ds) = set defs" using ok(1) by (rule mset_eq_setD)
  show "definitions_ok ds" by (rule ok(2))
  note d = definitions_okD(2) [OF ok(2)]
  show p: "ds_parents ds = parents_of defs" using parents_of_perm(1) [OF d ok(1)] .
  show "known ds = set (mg_ids defs)" using s by simp
  show "ds_edges ds = migration_edges defs"
  proof (intro equalityI subrelI)
    fix p c
    assume "(p, c) \<in> ds_edges ds"
    then have pc: "p \<in> set (ds_parents ds c)" by (simp add: ds_edges_def)
    then obtain x where "x \<in> set (ds_definitions ds)" "c = mg_ID x" using ds_parents_known by fastforce
    with pc s parents_of_distinct [OF d] show "(p, c) \<in> migration_edges defs" by (auto simp: migration_edges_def)
  next
    fix p c
    assume "(p, c) \<in> migration_edges defs"
    then show "(p, c) \<in> ds_edges ds" using s parents_of_distinct [OF d] by (auto simp: migration_edges_def ds_edges_def)
  qed
qed

lemma edge_known: "definitions_ok ds \<Longrightarrow> (p, c) \<in> ds_edges ds \<Longrightarrow> p \<in> known ds \<and> c \<in> known ds"
  using parents_are_known ds_parents_known unfolding ds_edges_def by blast

lemma edges_known:
  assumes "definitions_ok ds" and "(x, t) \<in> (ds_edges ds)\<^sup>*"
  shows "t \<in> known ds \<Longrightarrow> x \<in> known ds" and "x \<in> known ds \<Longrightarrow> t \<in> known ds"
  using assms(2) edge_known [OF assms(1)] by (metis converse_rtranclE, metis rtranclE)

lemma Definitions_Up_exact:
  assumes ok: "definitions_ok ds" and k: "set targets \<subseteq> known ds"
  obtains up where "Definitions_Up ds applied targets = Inr up" and "distinct (mg_ids up)" and "set up \<subseteq> set (ds_definitions ds)"
    and "\<And>x. x \<in> set (mg_ids up) \<longleftrightarrow> x \<notin> set applied \<and> (\<exists>t \<in> set targets. (x, t) \<in> (ds_edges ds)\<^sup>*)"
    and "parents_first (ds_parents ds) applied (mg_ids up)"
proof -
  let ?P = "\<lambda>x. x \<notin> set applied \<and> (\<exists>t \<in> set targets. (x, t) \<in> (ds_edges ds)\<^sup>*)"
  let ?up = "filter (\<lambda>d. ?P (mg_ID d)) (ds_definitions ds)"
  have run: "Definitions_Up ds applied targets = Inr ?up" by (rule Definitions_Up_eq [OF ok k])
  have ids: "mg_ids ?up = filter ?P (mg_ids (ds_definitions ds))" by (rule map_filter_ids)
  have "x \<in> known ds" if "?P x" for x using that edges_known(1) [OF ok] k by blast
  then have "x \<in> set (mg_ids ?up) \<longleftrightarrow> ?P x" for x unfolding ids by auto
  moreover have "distinct (mg_ids ?up)" unfolding ids using definitions_okD(2) [OF ok] by simp
  moreover have "set ?up \<subseteq> set (ds_definitions ds)" by auto
  ultimately show ?thesis using that [OF run] Definitions_Up_order [OF ok k run] by blast
qed

lemma Definitions_Down_exact:
  assumes ok: "definitions_ok ds" and k: "set targets \<subseteq> known ds"
    and antichain: "\<And>t t'. t \<in> set targets \<Longrightarrow> t' \<in> set targets \<Longrightarrow> (t, t') \<notin> (ds_edges ds)\<^sup>+"
  obtains down where "Definitions_Down ds applied targets = Inr down" and "distinct (mg_ids down)"
    and "\<And>x. x \<in> set (mg_ids down) \<longleftrightarrow> x \<in> set applied \<and> (\<exists>t \<in> set targets. (t, x) \<in> (ds_edges ds)\<^sup>+)"
    and "undo_order ds (set applied) (mg_ids down)"
proof -
  let ?Q = "\<lambda>x. x \<in> set applied \<and> (\<exists>t \<in> set targets. (t, x) \<in> (ds_edges ds)\<^sup>*) \<and> x \<notin> set targets"
  let ?down = "rev (filter (\<lambda>d. ?Q (mg_ID d)) (ds_definitions ds))"
  have run: "Definitions_Down ds applied targets = Inr ?down" by (rule Definitions_Down_eq [OF ok k])
  have ids: "mg_ids ?down = rev (filter ?Q (mg_ids (ds_definitions ds)))"
    unfolding rev_map [symmetric] map_filter_ids [of ?Q] by (rule refl)
  have "?Q x \<longleftrightarrow> x \<in> set applied \<and> (\<exists>t \<in> set targets. (t, x) \<in> (ds_edges ds)\<^sup>+)" for x
    using antichain by (metis rtrancl_eq_or_trancl)
  moreover have "x \<in> known ds" if "?Q x" for x using that edges_known(2) [OF ok] k by blast
  ultimately have "x \<in> set (mg_ids ?down) \<longleftrightarrow> x \<in> set applied \<and> (\<exists>t \<in> set targets. (t, x) \<in> (ds_edges ds)\<^sup>+)" for x
    unfolding ids set_rev set_filter by blast
  moreover have "distinct (mg_ids ?down)" unfolding ids using definitions_okD(2) [OF ok] by simp
  ultimately show ?thesis using that [OF run] Definitions_Down_order [OF ok k run antichain] by blast
qed

lemma migration_root_error:
  assumes "migration_root defs = Inl e"
  shows "(e = NoRoots \<and> (\<forall>d \<in> set defs. mg_Parents d \<noteq> [])) \<or>
    (\<exists>roots. e = MultipleRoots roots \<and> 2 \<le> length roots \<and> roots = mg_ids (filter (\<lambda>d. mg_Parents d = []) defs))"
  using assms by (auto simp: migration_root_def Let_def filter_empty_conv split: if_splits)

lemma Definitions_Filter_error:
  assumes ok: "definitions_ok ds" and "Definitions_Filter ds ids = Inl e"
  shows "\<exists>x p. e = IllegalFilter x p \<and> x \<in> set ids \<and> p \<notin> set ids \<and> (p, x) \<in> ds_edges ds"
proof -
  let ?f = "filter (\<lambda>d. mg_ID d \<in> set ids) (ds_definitions ds)"
  obtain x p where e: "excluded_parent ids ?f = Some (x, p)" "e = IllegalFilter x p"
    using assms(2) by (auto simp: Definitions_Filter_def Let_def split: option.splits)
  from excluded_parent_Some [OF e(1)] obtain d where "d \<in> set ?f" "mg_ID d = x" "p \<in> set (mg_Parents d)" "p \<notin> set ids" by blast
  with e(2) ds_parents_definition [OF ok, of d] show ?thesis by (auto simp: ds_edges_def)
qed

end
