(* ===== verification/Go_Strings.thy ===== *)
theory Go_Strings
  imports Go_Text
begin

text \<open>
  More of the standard library's package \<open>strings\<close>: trimming and splitting, as the migration
  reader and the commit graph parser use them.
\<close>

text \<open>
  \<open>strings.TrimSpace\<close>: a space at either end is the encoding of a rune for which
  \<open>unicode.IsSpace\<close> holds.
\<close>

definition space_encodings :: "string list" where
  "space_encodings = map EncodeRune
     ([9, 10, 11, 12, 13, 32, 133, 160, 5760] @ map (\<lambda>i. 8192 + i) [0..<11] @ [8232, 8233, 8239, 8287, 12288])"

function strip :: "string list \<Rightarrow> string \<Rightarrow> string" where
  "strip es s =
     (case filter (\<lambda>e. e \<noteq> [] \<and> strings_HasPrefix s e) es of
        [] \<Rightarrow> s
      | e # _ \<Rightarrow> strip es (drop (length e) s))"
  by pat_completeness auto
termination
proof (relation "measure (\<lambda>(es, s). length s)")
  fix es s e rest
  assume "filter (\<lambda>e. e \<noteq> [] \<and> strings_HasPrefix s e) es = e # rest"
  then have "e \<in> set (filter (\<lambda>e. e \<noteq> [] \<and> strings_HasPrefix s e) es)" by simp
  then have "e \<noteq> []" "take (length e) s = e" by (simp_all add: strings_HasPrefix_def)
  then have "s \<noteq> []" by auto
  with \<open>e \<noteq> []\<close> show "((es, drop (length e) s), (es, s)) \<in> measure (\<lambda>(es, s). length s)" by simp
qed simp

declare strip.simps [simp del]

definition strings_TrimSpace :: "string \<Rightarrow> string" where
  "strings_TrimSpace s = rev (strip (map rev space_encodings) (rev (strip space_encodings s)))"

definition strings_TrimPrefix :: "string \<Rightarrow> string \<Rightarrow> string" where
  "strings_TrimPrefix s p = (if strings_HasPrefix s p then drop (length p) s else s)"

definition strings_TrimSuffix :: "string \<Rightarrow> string \<Rightarrow> string" where
  "strings_TrimSuffix s p = (if strings_HasPrefix (rev s) (rev p) then take (length s - length p) s else s)"

text \<open>\<open>strings.SplitN\<close> with a separator that is not empty: at most \<open>n\<close> parts.\<close>

fun cut_at :: "string \<Rightarrow> string \<Rightarrow> (string \<times> string) option" where
  "cut_at sep [] = None"
| "cut_at sep (b # s) =
     (if strings_HasPrefix (b # s) sep then Some ([], drop (length sep) (b # s))
      else map_option (\<lambda>(x, y). (b # x, y)) (cut_at sep s))"

fun strings_SplitN :: "string \<Rightarrow> string \<Rightarrow> nat \<Rightarrow> string list" where
  "strings_SplitN s sep 0 = []"
| "strings_SplitN s sep (Suc 0) = [s]"
| "strings_SplitN s sep (Suc (Suc n)) =
     (case cut_at sep s of None \<Rightarrow> [s] | Some (x, y) \<Rightarrow> x # strings_SplitN y sep (Suc n))"

lemma strip_id: "(\<And>e. e \<in> set es \<Longrightarrow> e \<noteq> [] \<Longrightarrow> take (length e) s \<noteq> e) \<Longrightarrow> strip es s = s"
proof -
  assume "\<And>e. e \<in> set es \<Longrightarrow> e \<noteq> [] \<Longrightarrow> take (length e) s \<noteq> e"
  then have "filter (\<lambda>e. e \<noteq> [] \<and> strings_HasPrefix s e) es = []" by (auto simp: filter_empty_conv strings_HasPrefix_def)
  then show ?thesis by (subst strip.simps) simp
qed

lemma TrimSpace_id:
  assumes "s \<noteq> []" and "hd s \<notin> hd ` set space_encodings" and "last s \<notin> last ` set space_encodings"
  shows "strings_TrimSpace s = s"
proof -
  have "strip space_encodings s = s"
  proof (rule strip_id)
    fix e
    assume e: "e \<in> set space_encodings" "e \<noteq> []"
    then have "hd e \<noteq> hd s" using assms(2) by (metis imageI)
    with e(2) show "take (length e) s \<noteq> e" by (metis hd_take length_greater_0_conv)
  qed
  moreover have "strip (map rev space_encodings) (rev s) = rev s"
  proof (rule strip_id)
    fix e
    assume e: "e \<in> set (map rev space_encodings)" "e \<noteq> []"
    then have "rev e \<in> set space_encodings" by auto
    then have "last (rev e) \<noteq> last s" using assms(3) by (metis imageI)
    then have "hd e \<noteq> hd (rev s)" using assms(1) e(2) by (simp add: hd_rev last_rev)
    with e(2) show "take (length e) (rev s) \<noteq> e" by (metis hd_take length_greater_0_conv)
  qed
  ultimately show ?thesis by (simp add: strings_TrimSpace_def)
qed

end
