(* ===== verification/Migration_Read.thy ===== *)
theory Migration_Read
  imports Migration_Graph Go_Strings
begin

text \<open>
  Reading the migration definitions of a schema (\<open>internal/database/migration/definition/read.go\<close>):
  one directory per migration, with the queries \<open>up.sql\<close> and \<open>down.sql\<close> and the file
  \<open>metadata.yaml\<close>. The file system, the YAML decoder and the rendering of a query
  (\<open>sqlf.Query.Query\<close>) are parameters. An error stands for its class and the migration it names,
  not for its text.

  Shown here: what is returned is in an order that can be applied, every definition is the one that
  its directory describes, and the flags agree with the queries.
\<close>

section \<open>Queries\<close>

definition frontmatter :: string where
  "frontmatter = ''-- +++'' @ [CHR 0x0A]"

definition CanonicalizeQuery :: "string \<Rightarrow> string" where
  "CanonicalizeQuery query =
     (let parts = strings_SplitN query frontmatter 3;
          query = (if length parts = 3 then parts ! 2 else query) in
      strings_TrimSpace (strings_TrimSuffix (strings_TrimPrefix (strings_TrimSpace query) ''BEGIN;'') ''COMMIT;''))"

text \<open>The format string of the query.\<close>

definition queryFromString :: "string \<Rightarrow> string" where
  "queryFromString query = strings_ReplaceAll (CanonicalizeQuery query) ''%'' ''%%''"

section \<open>The two patterns\<close>

text \<open>
  A pattern is matched from the left; \<open>\s+\<close> and a run of word characters take all they can, since
  what follows them never starts with such a character. An optional part is tried first with and then
  without it.
\<close>

definition re_space :: "char \<Rightarrow> bool" where
  "re_space c \<longleftrightarrow> c \<in> set [CHR 0x09, CHR 0x0A, CHR 0x0C, CHR 0x0D, CHR 0x20]"

definition re_word :: "char \<Rightarrow> bool" where
  "re_word c \<longleftrightarrow> is_digit c \<or> is_ascii_letter (of_char c) \<or> c = CHR ''_''"

definition lit :: "string \<Rightarrow> string \<Rightarrow> string option" where
  "lit k s = (if strings_HasPrefix s k then Some (drop (length k) s) else None)"

fun spaces :: "string \<Rightarrow> string option" where
  "spaces [] = None"
| "spaces (c # s) = (if re_space c then Some (dropWhile re_space s) else None)"

definition re_words :: "string \<Rightarrow> (string \<times> string) option" where
  "re_words s = (if takeWhile re_word s = [] then None else Some (takeWhile re_word s, dropWhile re_word s))"

definition lit_spaces :: "string \<Rightarrow> string \<Rightarrow> string option" where
  "lit_spaces k s = Option.bind (lit k s) spaces"

definition re_optional :: "(string \<Rightarrow> string option) \<Rightarrow> (string \<Rightarrow> 'a option) \<Rightarrow> string \<Rightarrow> 'a option" where
  "re_optional p k s =
     (case p s of
        None \<Rightarrow> k s
      | Some r \<Rightarrow> (case k r of Some v \<Rightarrow> Some v | None \<Rightarrow> k s))"

fun first_match :: "(string \<Rightarrow> 'a option) \<Rightarrow> string \<Rightarrow> 'a option" where
  "first_match f [] = f []"
| "first_match f (c # s) = (case f (c # s) of Some v \<Rightarrow> Some v | None \<Rightarrow> first_match f s)"

definition index_on :: "string \<Rightarrow> (string \<times> string) option" where
  "index_on s =
     Option.bind (re_words s) (\<lambda>(name, s).
     Option.bind (spaces s) (\<lambda>s.
     Option.bind (lit_spaces ''ON'' s) (\<lambda>s.
     Option.bind (re_words s) (\<lambda>(table, s). Some (name, table)))))"

definition if_not_exists :: "string \<Rightarrow> string option" where
  "if_not_exists s =
     Option.bind (lit_spaces ''IF'' s) (\<lambda>s. Option.bind (lit_spaces ''NOT'' s) (\<lambda>s. lit_spaces ''EXISTS'' s))"

definition createIndexConcurrentlyPattern :: "string \<Rightarrow> (string \<times> string) option" where
  "createIndexConcurrentlyPattern s =
     Option.bind (lit_spaces ''CREATE'' s)
       (re_optional (lit_spaces ''UNIQUE'') (\<lambda>s.
          Option.bind (lit_spaces ''INDEX'' s) (\<lambda>s.
          Option.bind (lit_spaces ''CONCURRENTLY'' s) (re_optional if_not_exists index_on))))"

definition parseIndexMetadata :: "string \<Rightarrow> IndexMetadata option" where
  "parseIndexMetadata queryText =
     (case first_match createIndexConcurrentlyPattern queryText of
        None \<Rightarrow> None
      | Some (name, table) \<Rightarrow> Some \<lparr>im_TableName = table, im_IndexName = name\<rparr>)"

definition alterExtensionPattern :: "string \<Rightarrow> unit option" where
  "alterExtensionPattern s =
     (if list_ex (\<lambda>k. Option.bind (lit_spaces k s) (lit ''EXTENSION'') \<noteq> None) [''CREATE'', ''COMMENT ON'', ''DROP'']
      then Some () else None)"

definition isPrivileged :: "string \<Rightarrow> bool" where
  "isPrivileged queryText \<longleftrightarrow> first_match alterExtensionPattern queryText \<noteq> None"

section \<open>Definitions\<close>

record payload =
  pl_Name :: string
  pl_Parent :: int
  pl_Parents :: "int list"
  pl_CreateIndexConcurrently :: bool
  pl_Privileged :: bool
  pl_NonIdempotent :: bool

datatype read_error =
    OpenError string
  | YamlError string
  | DownCreatesIndexConcurrently int
  | UpCreatesIndexConcurrently int
  | UpCreatesNoIndexConcurrently int
  | RequiresPrivileges int
  | MalformedDefinition string read_error
  | ReorderError migration_error

text \<open>
  \<open>ParseRawVersion\<close> reads the digits before the first \<open>_\<close>.
\<close>

definition ParseRawVersion :: "string \<Rightarrow> num_error + int" where
  "ParseRawVersion rawVersion = Atoi (strings_SplitN rawVersion ''_'' 2 ! 0)"

definition readQueryFromFile :: "(string \<Rightarrow> string + string) \<Rightarrow> string \<Rightarrow> read_error + string" where
  "readQueryFromFile fs filepath =
     (case fs filepath of
        Inl e \<Rightarrow> Inl (OpenError e)
      | Inr contents \<Rightarrow> Inr (queryFromString contents))"

definition hydrateMetadataFromFile ::
  "(string \<Rightarrow> string + string) \<Rightarrow> (string \<Rightarrow> string + payload) \<Rightarrow> (string \<Rightarrow> string) \<Rightarrow> string \<Rightarrow> Definition \<Rightarrow>
   read_error + Definition" where
  "hydrateMetadataFromFile fs Unmarshal Query metadataFilename d0 =
     (case fs metadataFilename of
        Inl e \<Rightarrow> Inl (OpenError e)
      | Inr contents \<Rightarrow>
     (case Unmarshal contents of
        Inl e \<Rightarrow> Inl (YamlError e)
      | Inr payload \<Rightarrow>
          (let parents = pl_Parents payload @ (if pl_Parent payload \<noteq> 0 then [pl_Parent payload] else []);
               d = d0\<lparr>mg_Name := pl_Name payload, mg_Privileged := pl_Privileged payload,
                      mg_NonIdempotent := pl_NonIdempotent payload, mg_Parents := sort parents\<rparr> in
           if parseIndexMetadata (Query (mg_DownQuery d)) \<noteq> None then Inl (DownCreatesIndexConcurrently (mg_ID d))
           else
             case (case parseIndexMetadata (Query (mg_UpQuery d)) of
                     Some indexMetadata \<Rightarrow>
                       if \<not> pl_CreateIndexConcurrently payload then Inl (UpCreatesIndexConcurrently (mg_ID d))
                       else Inr (d\<lparr>mg_IsCreateIndexConcurrently := True, mg_IndexMetadata := Some indexMetadata\<rparr>)
                   | None \<Rightarrow>
                       if pl_CreateIndexConcurrently payload then Inl (UpCreatesNoIndexConcurrently (mg_ID d)) else Inr d) of
               Inl e \<Rightarrow> Inl e
             | Inr d \<Rightarrow>
                 if (isPrivileged (Query (mg_UpQuery d)) \<or> isPrivileged (Query (mg_DownQuery d))) \<and> \<not> pl_Privileged payload
                 then Inl (RequiresPrivileges (mg_ID d))
                 else Inr d)))"

definition readDefinition ::
  "(string \<Rightarrow> string + string) \<Rightarrow> (string \<Rightarrow> string + payload) \<Rightarrow> (string \<Rightarrow> string) \<Rightarrow> int \<Rightarrow> string \<Rightarrow>
   read_error + Definition" where
  "readDefinition fs Unmarshal Query version filename =
     (case readQueryFromFile fs (filename @ ''/up.sql'') of
        Inl e \<Rightarrow> Inl e
      | Inr upQuery \<Rightarrow>
     (case readQueryFromFile fs (filename @ ''/down.sql'') of
        Inl e \<Rightarrow> Inl e
      | Inr downQuery \<Rightarrow>
          hydrateMetadataFromFile fs Unmarshal Query (filename @ ''/metadata.yaml'')
            \<lparr>mg_ID = version, mg_Name = [], mg_UpQuery = upQuery, mg_DownQuery = downQuery, mg_Privileged = False,
             mg_NonIdempotent = False, mg_Parents = [], mg_IsCreateIndexConcurrently = False, mg_IndexMetadata = None\<rparr>))"

text \<open>Files whose name does not start with a version are ignored.\<close>

fun readDefinitions_from ::
  "(string \<Rightarrow> string + string) \<Rightarrow> (string \<Rightarrow> string + payload) \<Rightarrow> (string \<Rightarrow> string) \<Rightarrow> string list \<Rightarrow>
   read_error + Definition list" where
  "readDefinitions_from fs Unmarshal Query [] = Inr []"
| "readDefinitions_from fs Unmarshal Query (file # migrations) =
     (case ParseRawVersion file of
        Inl _ \<Rightarrow> readDefinitions_from fs Unmarshal Query migrations
      | Inr version \<Rightarrow>
     (case readDefinition fs Unmarshal Query version file of
        Inl e \<Rightarrow> Inl (MalformedDefinition file e)
      | Inr d \<Rightarrow> map_sum id (\<lambda>defs. d # defs) (readDefinitions_from fs Unmarshal Query migrations)))"

text \<open>\<open>Readdir\<close> is the listing of the root of the file system. Distinct identifiers have one sorted order.\<close>

definition readDefinitions ::
  "string + string list \<Rightarrow> (string \<Rightarrow> string + string) \<Rightarrow> (string \<Rightarrow> string + payload) \<Rightarrow> (string \<Rightarrow> string) \<Rightarrow>
   read_error + Definition list" where
  "readDefinitions Readdir fs Unmarshal Query =
     (case Readdir of
        Inl e \<Rightarrow> Inl (OpenError e)
      | Inr migrations \<Rightarrow> map_sum id (sort_key mg_ID) (readDefinitions_from fs Unmarshal Query migrations))"

definition ReadDefinitions ::
  "string + string list \<Rightarrow> (string \<Rightarrow> string + string) \<Rightarrow> (string \<Rightarrow> string + payload) \<Rightarrow> (string \<Rightarrow> string) \<Rightarrow>
   read_error + Definitions" where
  "ReadDefinitions Readdir fs Unmarshal Query =
     (case readDefinitions Readdir fs Unmarshal Query of
        Inl e \<Rightarrow> Inl e
      | Inr defs \<Rightarrow>
     (case reorderDefinitions defs of
        Inl e \<Rightarrow> Inl (ReorderError e)
      | Inr defs' \<Rightarrow> Inr (newDefinitions defs')))"

section \<open>What is read\<close>

text \<open>A transaction around the query is removed.\<close>

lemma CanonicalizeQuery_transaction:
  assumes "cut_at frontmatter (''BEGIN;'' @ q @ ''COMMIT;'') = None"
  shows "CanonicalizeQuery (''BEGIN;'' @ q @ ''COMMIT;'') = strings_TrimSpace q"
proof -
  let ?s = "''BEGIN;'' @ q @ ''COMMIT;''"
  have "hd ?s \<notin> hd ` set space_encodings" "last ?s \<notin> last ` set space_encodings" by simp_all code_simp+
  then have t: "strings_TrimSpace ?s = ?s" by (intro TrimSpace_id) simp_all
  have "strings_SplitN ?s frontmatter 3 = [?s]" using assms by (simp add: numeral_3_eq_3)
  moreover have "strings_TrimPrefix ?s ''BEGIN;'' = q @ ''COMMIT;''" by (simp add: strings_TrimPrefix_def strings_HasPrefix_def)
  moreover have "strings_TrimSuffix (q @ ''COMMIT;'') ''COMMIT;'' = q" by (simp add: strings_TrimSuffix_def strings_HasPrefix_def)
  ultimately show ?thesis using t by (simp add: CanonicalizeQuery_def Let_def)
qed

text \<open>The flags of a definition agree with its queries.\<close>

definition flags_agree :: "(string \<Rightarrow> string) \<Rightarrow> Definition \<Rightarrow> bool" where
  "flags_agree Query d \<longleftrightarrow>
     parseIndexMetadata (Query (mg_DownQuery d)) = None \<and>
     mg_IndexMetadata d = parseIndexMetadata (Query (mg_UpQuery d)) \<and>
     (mg_IsCreateIndexConcurrently d \<longleftrightarrow> mg_IndexMetadata d \<noteq> None) \<and>
     (isPrivileged (Query (mg_UpQuery d)) \<or> isPrivileged (Query (mg_DownQuery d)) \<longrightarrow> mg_Privileged d)"

lemma hydrateMetadataFromFile_ok:
  assumes "hydrateMetadataFromFile fs Unmarshal Query metadataFilename d0 = Inr d"
    and "mg_IndexMetadata d0 = None" and "\<not> mg_IsCreateIndexConcurrently d0"
  shows "mg_ID d = mg_ID d0" and "flags_agree Query d"
  using assms by (auto simp: hydrateMetadataFromFile_def Let_def flags_agree_def split: sum.splits option.splits if_splits)

lemma readDefinition_ok:
  assumes "readDefinition fs Unmarshal Query version filename = Inr d"
  shows "mg_ID d = version" and "flags_agree Query d"
  using assms hydrateMetadataFromFile_ok by (fastforce simp: readDefinition_def split: sum.splits)+

lemma readDefinitions_from_ok:
  "readDefinitions_from fs Unmarshal Query files = Inr defs \<Longrightarrow> d \<in> set defs \<Longrightarrow>
   \<exists>file \<in> set files. ParseRawVersion file = Inr (mg_ID d) \<and> readDefinition fs Unmarshal Query (mg_ID d) file = Inr d"
proof (induction files arbitrary: defs)
  case (Cons f files)
  show ?case
  proof (cases "ParseRawVersion f")
    case (Inr version)
    then obtain d' defs' where d': "readDefinition fs Unmarshal Query version f = Inr d'"
      "readDefinitions_from fs Unmarshal Query files = Inr defs'" "defs = d' # defs'"
      using Cons.prems(1) by (cases "readDefinitions_from fs Unmarshal Query files") (auto split: sum.splits)
    then have "mg_ID d' = version" using readDefinition_ok(1) by blast
    with d' Inr Cons show ?thesis by auto
  qed (use Cons in auto)
qed simp

text \<open>The versions that a listing names; the definitions that are read have these identifiers.\<close>

definition versions :: "string list \<Rightarrow> int list" where
  "versions files = [v. Inr v \<leftarrow> map ParseRawVersion files]"

lemma readDefinitions_from_ids:
  "readDefinitions_from fs Unmarshal Query files = Inr defs \<Longrightarrow> mg_ids defs = versions files"
proof (induction files arbitrary: defs)
  case (Cons f files)
  show ?case
  proof (cases "ParseRawVersion f")
    case (Inr version)
    then obtain d' defs' where d': "readDefinition fs Unmarshal Query version f = Inr d'"
      "readDefinitions_from fs Unmarshal Query files = Inr defs'" "defs = d' # defs'"
      using Cons.prems(1) by (cases "readDefinitions_from fs Unmarshal Query files") (auto split: sum.splits)
    then have "mg_ID d' = version" using readDefinition_ok(1) by blast
    with d' Inr Cons.IH [OF d'(2)] show ?thesis by (simp add: versions_def)
  qed (use Cons in \<open>auto simp: versions_def\<close>)
qed (simp add: versions_def)

lemma readDefinitions_from_error: "readDefinitions_from fs Unmarshal Query files = Inl e \<Longrightarrow> \<exists>file e'. e = MalformedDefinition file e'"
proof (induction files arbitrary: e)
  case (Cons f files)
  show ?case
  proof (cases "ParseRawVersion f")
    case (Inr version)
    with Cons show ?thesis
      by (cases "readDefinition fs Unmarshal Query version f"; cases "readDefinitions_from fs Unmarshal Query files") auto
  qed (use Cons in auto)
qed simp

lemma ReadDefinitions_NewDefinitions:
  assumes "readDefinitions_from fs Unmarshal Query files = Inr defs"
  shows "ReadDefinitions (Inr files) fs Unmarshal Query = map_sum ReorderError id (NewDefinitions (sort_key mg_ID defs))"
  using assms by (cases "reorderDefinitions (sort_key mg_ID defs)") (simp_all add: ReadDefinitions_def readDefinitions_def NewDefinitions_def)

end
