(* ===== verification/Commit_Graph.thy ===== *)
theory Commit_Graph
  imports Graph_Order Go_Strings Go_Strconv "HOL-Library.Word" "HOL-Library.AList" "HOL-Library.Multiset" "HOL-Library.List_Lexorder" "HOL-Library.Char_ord"
begin

text \<open>
  The commit graph of a repository and the code intelligence uploads that are visible from each of
  its commits: \<open>internal/gitserver/gitdomain/commit_graph.go\<close> and
  \<open>enterprise/internal/codeintel/uploads/internal/commitgraph\<close>.

  A Go map that is ranged over is an association list with distinct keys. The order in which the
  uploads of a commit are ranged over is the parameter \<open>it\<close>; everything shown holds for each
  function that permutes its argument. A slice is a list; the slice of commits that
  \<open>NewGraph\<close> sorts in place is the one of the commit graph, so the operation returns the changed
  commit graph. A distance is a 32-bit word. The two loops along the first parent take a bound, the
  number of commits, and None stands for a loop that has not ended by then.
\<close>

section \<open>Commit graphs\<close>

record CommitGraph =
  cg_graph :: "(string \<times> string list) list"
  cg_order :: "string list"

text \<open>A missing entry of the graph is the nil slice.\<close>

definition graph_at :: "(string \<times> string list) list \<Rightarrow> string \<Rightarrow> string list" where
  "graph_at graph commit = (case map_of graph commit of None \<Rightarrow> [] | Some parents \<Rightarrow> parents)"

text \<open>The loop over the parts of a line: parents that have no entry yet.\<close>

fun add_parts ::
  "string list \<Rightarrow> (string \<times> string list) list \<Rightarrow> string list \<Rightarrow> (string \<times> string list) list \<times> string list" where
  "add_parts [] graph pre = (graph, pre)"
| "add_parts (part # parts) graph pre =
     (if map_of graph part = None then add_parts parts (AList.update part [] graph) (pre @ [part])
      else add_parts parts graph pre)"

text \<open>The loop over the lines; \<open>pre\<close> is the slice \<open>prefix\<close> of the code.\<close>

fun parse_lines ::
  "string list \<Rightarrow> (string \<times> string list) list \<Rightarrow> string list \<Rightarrow> string list \<Rightarrow>
   (string \<times> string list) list \<times> string list \<times> string list" where
  "parse_lines [] graph order pre = (graph, order, pre)"
| "parse_lines (l # ls) graph order pre =
     (let line = strings_TrimSpace l in
      if line = [] then parse_lines ls graph order pre
      else
        let parts = strings_Split line (CHR '' '');
            graph = AList.update (parts ! 0) (if length parts = 1 then [] else drop 1 parts) graph in
        case add_parts (drop 1 parts) graph pre of
          (graph, pre) \<Rightarrow> parse_lines ls graph (order @ [parts ! 0]) pre)"

definition ParseCommitGraph :: "string list \<Rightarrow> CommitGraph" where
  "ParseCommitGraph lines =
     (case parse_lines (rev lines) [] [] [] of
        (graph, order, pre) \<Rightarrow> \<lparr>cg_graph = graph, cg_order = pre @ order\<rparr>)"

section \<open>Uploads\<close>

record UploadMeta =
  um_UploadID :: int
  um_Distance :: "32 word"

record CommitGraphView =
  gv_Meta :: "string \<rightharpoonup> UploadMeta list"
  gv_Tokens :: "int \<rightharpoonup> string"

definition NewCommitGraphView :: CommitGraphView where
  "NewCommitGraphView = \<lparr>gv_Meta = Map.empty, gv_Tokens = Map.empty\<rparr>"

definition meta_at :: "CommitGraphView \<Rightarrow> string \<Rightarrow> UploadMeta list" where
  "meta_at view commit = (case gv_Meta view commit of None \<Rightarrow> [] | Some ms \<Rightarrow> ms)"

text \<open>The token of an unknown upload is the empty string.\<close>

definition token_of :: "CommitGraphView \<Rightarrow> int \<Rightarrow> string" where
  "token_of view uploadID = (case gv_Tokens view uploadID of None \<Rightarrow> [] | Some t \<Rightarrow> t)"

definition View_Add :: "CommitGraphView \<Rightarrow> UploadMeta \<Rightarrow> string \<Rightarrow> string \<Rightarrow> CommitGraphView" where
  "View_Add v meta commit token =
     v\<lparr>gv_Meta := (gv_Meta v)(commit \<mapsto> meta_at v commit @ [meta]),
       gv_Tokens := (gv_Tokens v)(um_UploadID meta \<mapsto> token)\<rparr>"

type_synonym token_uploads = "(string \<times> UploadMeta) list"
type_synonym range_order = "string \<Rightarrow> token_uploads \<Rightarrow> token_uploads"

record Graph =
  g_view :: CommitGraphView
  g_graph :: "(string \<times> string list) list"
  g_commits :: "string list"
  g_ancestorUploads :: "string \<rightharpoonup> token_uploads"

text \<open>An envelope has one of its two fields.\<close>

datatype Envelope =
    VisibilityRelationship string "UploadMeta list"
  | LinkRelationship string string "32 word"

definition replaces :: "UploadMeta \<Rightarrow> UploadMeta \<Rightarrow> bool" where
  "replaces upload1 upload2 \<longleftrightarrow>
     um_Distance upload1 < um_Distance upload2 \<or>
     (um_Distance upload1 = um_Distance upload2 \<and> um_UploadID upload1 < um_UploadID upload2)"

text \<open>The children of a commit.\<close>

definition reverseGraph :: "(string \<times> string list) list \<Rightarrow> string \<Rightarrow> string list" where
  "reverseGraph graph parent =
     concat (map (\<lambda>(child, parents). replicate (count_list parents parent) child) graph)"

text \<open>The uploads that a commit defines: of those with one token, the last.\<close>

fun uploads_defined :: "CommitGraphView \<Rightarrow> UploadMeta list \<Rightarrow> token_uploads \<Rightarrow> token_uploads" where
  "uploads_defined view [] uploadsByToken = uploadsByToken"
| "uploads_defined view (upload # uploads) uploadsByToken =
     uploads_defined view uploads (AList.update (token_of view (um_UploadID upload)) upload uploadsByToken)"

text \<open>The loop over the uploads that are visible from one ancestor.\<close>

fun add_uploads :: "CommitGraphView \<Rightarrow> 32 word \<Rightarrow> token_uploads \<Rightarrow> token_uploads \<Rightarrow> token_uploads" where
  "add_uploads view distance [] uploadsByToken = uploadsByToken"
| "add_uploads view distance ((_, upload0) # uploads) uploadsByToken =
     (let token = token_of view (um_UploadID upload0);
          upload = upload0\<lparr>um_Distance := um_Distance upload0 + distance\<rparr> in
      add_uploads view distance uploads
        (case map_of uploadsByToken token of
           None \<Rightarrow> AList.update token upload uploadsByToken
         | Some currentUpload \<Rightarrow>
             if replaces upload currentUpload then AList.update token upload uploadsByToken else uploadsByToken))"

definition uploads_at :: "(string \<rightharpoonup> token_uploads) \<Rightarrow> string \<Rightarrow> token_uploads" where
  "uploads_at uploads commit = (case uploads commit of None \<Rightarrow> [] | Some m \<Rightarrow> m)"

fun add_ancestors ::
  "range_order \<Rightarrow> CommitGraphView \<Rightarrow> (string \<rightharpoonup> token_uploads) \<Rightarrow> 32 word \<Rightarrow> string list \<Rightarrow> token_uploads \<Rightarrow> token_uploads" where
  "add_ancestors it view uploads distance [] uploadsByToken = uploadsByToken"
| "add_ancestors it view uploads distance (ancestor # ancestors) uploadsByToken =
     add_ancestors it view uploads distance ancestors
       (add_uploads view distance (it ancestor (uploads_at uploads ancestor)) uploadsByToken)"

definition populateUploadsForCommit ::
  "range_order \<Rightarrow> (string \<rightharpoonup> token_uploads) \<Rightarrow> string list \<Rightarrow> 32 word \<Rightarrow> CommitGraphView \<Rightarrow> string \<Rightarrow> token_uploads" where
  "populateUploadsForCommit it uploads ancestors distance view commit =
     add_ancestors it view uploads distance ancestors (uploads_defined view (meta_at view commit) [])"

text \<open>The loop along single parents to the nearest ancestors with data.\<close>

fun nearest_ancestors ::
  "nat \<Rightarrow> (string \<times> string list) list \<Rightarrow> (string \<rightharpoonup> token_uploads) \<Rightarrow> string list \<Rightarrow> 32 word \<Rightarrow>
   (string list \<times> 32 word) option" where
  "nearest_ancestors n graph uploads ancestors distance =
     (if length ancestors = 1 \<and> uploads (hd ancestors) = None then
        (case n of
           0 \<Rightarrow> None
         | Suc n \<Rightarrow> nearest_ancestors n graph uploads (graph_at graph (hd ancestors)) (distance + 1))
      else Some (ancestors, distance))"

declare nearest_ancestors.simps [simp del]

text \<open>A commit that gets no data: without uploads and a second parent, and so are its children.\<close>

definition skips :: "(string \<times> string list) list \<Rightarrow> CommitGraphView \<Rightarrow> string \<Rightarrow> bool" where
  "skips graph view commit \<longleftrightarrow>
     gv_Meta view commit = None \<and> length (graph_at graph commit) \<le> 1 \<and>
     list_all (\<lambda>child. \<not> length (graph_at graph child) > 1) (reverseGraph graph commit)"

fun populate_from ::
  "range_order \<Rightarrow> nat \<Rightarrow> (string \<times> string list) list \<Rightarrow> CommitGraphView \<Rightarrow> string list \<Rightarrow> (string \<rightharpoonup> token_uploads) \<Rightarrow>
   (string \<rightharpoonup> token_uploads) option" where
  "populate_from it n graph view [] uploads = Some uploads"
| "populate_from it n graph view (commit # order) uploads =
     (if skips graph view commit then populate_from it n graph view order uploads
      else
        case nearest_ancestors n graph uploads (graph_at graph commit) 1 of
          None \<Rightarrow> None
        | Some (ancestors, distance) \<Rightarrow>
            populate_from it n graph view order
              (uploads(commit \<mapsto> populateUploadsForCommit it uploads ancestors distance view commit)))"

definition populateUploadsByTraversal ::
  "range_order \<Rightarrow> (string \<times> string list) list \<Rightarrow> string list \<Rightarrow> CommitGraphView \<Rightarrow> (string \<rightharpoonup> token_uploads) option" where
  "populateUploadsByTraversal it graph order view = populate_from it (length order) graph view order Map.empty"

text \<open>The graph, and the commit graph with its sorted slice of commits.\<close>

definition NewGraph :: "range_order \<Rightarrow> CommitGraph \<Rightarrow> CommitGraphView \<Rightarrow> (Graph \<times> CommitGraph) option" where
  "NewGraph it commitGraph view =
     (let graph = cg_graph commitGraph; order = cg_order commitGraph in
      case populateUploadsByTraversal it graph order view of
        None \<Rightarrow> None
      | Some ancestorUploads \<Rightarrow>
          Some (\<lparr>g_view = view, g_graph = graph, g_commits = sort order, g_ancestorUploads = ancestorUploads\<rparr>,
            commitGraph\<lparr>cg_order := sort order\<rparr>))"

text \<open>None: not ended; Some None: not found.\<close>

fun traverseForCommit ::
  "nat \<Rightarrow> (string \<times> string list) list \<Rightarrow> (string \<rightharpoonup> token_uploads) \<Rightarrow> string \<Rightarrow> 32 word \<Rightarrow> (string \<times> 32 word) option option" where
  "traverseForCommit n graph uploads commit distance =
     (if uploads commit \<noteq> None then Some (Some (commit, distance))
      else case graph_at graph commit of
        [] \<Rightarrow> Some None
      | parent # _ \<Rightarrow>
          (case n of
             0 \<Rightarrow> None
           | Suc n \<Rightarrow> traverseForCommit n graph uploads parent (distance + 1)))"

declare traverseForCommit.simps [simp del]

definition traverseForUploads ::
  "nat \<Rightarrow> (string \<times> string list) list \<Rightarrow> (string \<rightharpoonup> token_uploads) \<Rightarrow> string \<Rightarrow> (token_uploads \<times> 32 word) option" where
  "traverseForUploads n graph uploads commit =
     (case traverseForCommit n graph uploads commit 0 of
        None \<Rightarrow> None
      | Some None \<Rightarrow> Some (uploads_at uploads [], 0)
      | Some (Some (commit, distance)) \<Rightarrow> Some (uploads_at uploads commit, distance))"

definition adjustVisibleUploads :: "token_uploads \<Rightarrow> 32 word \<Rightarrow> UploadMeta list" where
  "adjustVisibleUploads ancestorVisibleUploads ancestorDistance =
     map (\<lambda>(_, upload). upload\<lparr>um_Distance := um_Distance upload + ancestorDistance\<rparr>) ancestorVisibleUploads"

definition UploadsVisibleAtCommit :: "range_order \<Rightarrow> Graph \<Rightarrow> string \<Rightarrow> UploadMeta list option" where
  "UploadsVisibleAtCommit it g commit =
     (case traverseForUploads (length (g_commits g)) (g_graph g) (g_ancestorUploads g) commit of
        None \<Rightarrow> None
      | Some (ancestorUploads, ancestorDistance) \<Rightarrow> Some (adjustVisibleUploads (it commit ancestorUploads) ancestorDistance))"

definition stream_commit :: "range_order \<Rightarrow> Graph \<Rightarrow> string \<Rightarrow> Envelope list option" where
  "stream_commit it g commit =
     (case traverseForCommit (length (g_commits g)) (g_graph g) (g_ancestorUploads g) commit 0 of
        None \<Rightarrow> None
      | Some None \<Rightarrow> Some []
      | Some (Some (ancestorCommit, ancestorDistance)) \<Rightarrow>
          (let ancestorVisibleUploads = uploads_at (g_ancestorUploads g) ancestorCommit in
           Some
             (if ancestorDistance = 0 \<or> length ancestorVisibleUploads = 1 then
                [VisibilityRelationship commit (adjustVisibleUploads (it commit ancestorVisibleUploads) ancestorDistance)]
              else if length ancestorVisibleUploads > 1 then
                [LinkRelationship commit ancestorCommit ancestorDistance]
              else [])))"

text \<open>The values of the channel, in order.\<close>

fun stream_commits :: "range_order \<Rightarrow> Graph \<Rightarrow> string list \<Rightarrow> Envelope list option" where
  "stream_commits it g [] = Some []"
| "stream_commits it g (commit # commits) =
     (case stream_commit it g commit of
        None \<Rightarrow> None
      | Some es \<Rightarrow> map_option (\<lambda>rest. es @ rest) (stream_commits it g commits))"

definition Graph_Stream :: "range_order \<Rightarrow> Graph \<Rightarrow> Envelope list option" where
  "Graph_Stream it g = stream_commits it g (g_commits g)"

fun gather ::
  "Envelope list \<Rightarrow> (string \<rightharpoonup> UploadMeta list) \<Rightarrow> (string \<rightharpoonup> string \<times> 32 word) \<Rightarrow>
   (string \<rightharpoonup> UploadMeta list) \<times> (string \<rightharpoonup> string \<times> 32 word)" where
  "gather [] uploads links = (uploads, links)"
| "gather (VisibilityRelationship commit us # es) uploads links = gather es (uploads(commit \<mapsto> us)) links"
| "gather (LinkRelationship commit ancestorCommit distance # es) uploads links =
     gather es uploads (links(commit \<mapsto> (ancestorCommit, distance)))"

definition Gather ::
  "range_order \<Rightarrow> Graph \<Rightarrow> ((string \<rightharpoonup> UploadMeta list) \<times> (string \<rightharpoonup> string \<times> 32 word)) option" where
  "Gather it g = map_option (\<lambda>es. gather es Map.empty Map.empty) (Graph_Stream it g)"

section \<open>The nearest uploads\<close>

text \<open>
  The reference: \<open>cand graph view t c k i\<close> says that the upload \<open>i\<close> with token \<open>t\<close>, defined by the
  commit \<open>c\<close> or one of its ancestors, is at distance \<open>k\<close> from \<open>c\<close>. Of the candidates with one
  token, the nearest is the one with the smallest distance, and then the smallest identifier.
\<close>

definition own_upload :: "CommitGraphView \<Rightarrow> string \<Rightarrow> string \<Rightarrow> UploadMeta option" where
  "own_upload view c t = map_of (uploads_defined view (meta_at view c) []) t"

inductive cand :: "(string \<times> string list) list \<Rightarrow> CommitGraphView \<Rightarrow> string \<Rightarrow> string \<Rightarrow> nat \<Rightarrow> int \<Rightarrow> bool"
  for graph view t where
  own: "own_upload view c t = Some u \<Longrightarrow> cand graph view t c (unat (um_Distance u)) (um_UploadID u)"
| parent: "p \<in> set (graph_at graph c) \<Longrightarrow> cand graph view t p k i \<Longrightarrow> cand graph view t c (Suc k) i"

inductive_cases candE: "cand graph view t c k i"

definition closer :: "nat \<times> int \<Rightarrow> nat \<times> int \<Rightarrow> bool" where
  "closer x y \<longleftrightarrow> fst x < fst y \<or> (fst x = fst y \<and> snd x \<le> snd y)"

definition least :: "(nat \<times> int) set \<Rightarrow> nat \<times> int \<Rightarrow> bool" where
  "least S x \<longleftrightarrow> x \<in> S \<and> (\<forall>y \<in> S. closer x y)"

abbreviation um_pair :: "UploadMeta \<Rightarrow> nat \<times> int" where
  "um_pair u \<equiv> (unat (um_Distance u), um_UploadID u)"

definition shift :: "nat \<Rightarrow> (nat \<times> int) set \<Rightarrow> (nat \<times> int) set" where
  "shift d S = (\<lambda>(k, i). (k + d, i)) ` S"

lemma closer_refl [simp]: "closer x x"
  by (simp add: closer_def)

lemma closer_trans: "closer x y \<Longrightarrow> closer y z \<Longrightarrow> closer x z"
  by (auto simp: closer_def)

lemma replaces_closer: "replaces u v \<longleftrightarrow> \<not> closer (um_pair v) (um_pair u)"
  by (auto simp: replaces_def closer_def word_less_nat_alt word_unat_eq_iff)

lemma least_unique: "least S x \<Longrightarrow> least S y \<Longrightarrow> x = y"
  by (cases x; cases y) (force simp: least_def closer_def)

lemma least_shift: "least S (k, i) \<Longrightarrow> least (shift d S) (k + d, i)"
  by (force simp: least_def shift_def closer_def)

lemma shift_simps [simp]: "shift 0 S = S" "shift d {} = {}" "shift d S = {} \<longleftrightarrow> S = {}" "shift d (shift e S) = shift (e + d) S"
  "shift d (S \<union> T) = shift d S \<union> shift d T"
  by (auto simp: shift_def image_image split_def add.assoc)

text \<open>
  A map from tokens to uploads has the token of each upload as its key. It \<open>holds\<close> the least of the
  pairs that are given for each token.
\<close>

definition keyed :: "CommitGraphView \<Rightarrow> token_uploads \<Rightarrow> bool" where
  "keyed view m \<longleftrightarrow> distinct (map fst m) \<and> (\<forall>(t, u) \<in> set m. token_of view (um_UploadID u) = t)"

definition holds :: "CommitGraphView \<Rightarrow> token_uploads \<Rightarrow> (string \<Rightarrow> (nat \<times> int) set) \<Rightarrow> bool" where
  "holds view m S \<longleftrightarrow>
     keyed view m \<and> (\<forall>t. case map_of m t of None \<Rightarrow> S t = {} | Some u \<Rightarrow> least (S t) (um_pair u))"

lemma holdsD:
  assumes "holds view m S"
  shows "keyed view m" and "map_of m t = None \<Longrightarrow> S t = {}" and "map_of m t = Some u \<Longrightarrow> least (S t) (um_pair u)"
proof -
  have "keyed view m \<and> (case map_of m t of None \<Rightarrow> S t = {} | Some u \<Rightarrow> least (S t) (um_pair u))"
    using assms unfolding holds_def by blast
  then show "keyed view m" "map_of m t = None \<Longrightarrow> S t = {}" "map_of m t = Some u \<Longrightarrow> least (S t) (um_pair u)" by simp_all
qed

lemma keyed_update: "keyed view m \<Longrightarrow> token_of view (um_UploadID u) = t \<Longrightarrow> keyed view (AList.update t u m)"
proof -
  assume k: "keyed view m" and t: "token_of view (um_UploadID u) = t"
  have "set (AList.update t u m) \<subseteq> insert (t, u) (set m)" by (induction m) auto
  with k t show ?thesis by (auto simp: keyed_def distinct_update)
qed

lemma map_of_perm: "distinct (map fst xs) \<Longrightarrow> mset ys = mset xs \<Longrightarrow> map_of ys = map_of xs \<and> distinct (map fst ys) \<and> set ys = set xs"
proof -
  assume d: "distinct (map fst xs)" and p: "mset ys = mset xs"
  have "mset (map fst ys) = mset (map fst xs)" using p by simp
  then have "distinct (map fst ys)" using d mset_eq_imp_distinct_iff by blast
  moreover have "set ys = set xs" using p by (rule mset_eq_setD)
  ultimately show ?thesis using d map_of_inject_set by blast
qed

lemma uploads_defined_keyed: "keyed view m \<Longrightarrow> keyed view (uploads_defined view us m)"
proof (induction us arbitrary: m)
  case (Cons u us)
  from Cons.IH [OF keyed_update [OF Cons.prems refl]] show ?case by simp
qed simp

definition merge_upload :: "32 word \<Rightarrow> UploadMeta option \<Rightarrow> UploadMeta option \<Rightarrow> UploadMeta option" where
  "merge_upload d a b =
     (case b of
        None \<Rightarrow> a
      | Some u0 \<Rightarrow>
          (let u = u0\<lparr>um_Distance := um_Distance u0 + d\<rparr> in
           case a of None \<Rightarrow> Some u | Some c \<Rightarrow> if replaces u c then Some u else Some c))"

lemma add_uploads_merge:
  assumes "keyed view es" and "keyed view m"
  shows "keyed view (add_uploads view d es m)" and "map_of (add_uploads view d es m) t = merge_upload d (map_of m t) (map_of es t)"
proof -
  have "keyed view (add_uploads view d es m) \<and> map_of (add_uploads view d es m) t = merge_upload d (map_of m t) (map_of es t)"
    using assms
  proof (induction es arbitrary: m)
    case (Cons e es)
    obtain k u0 where e: "e = (k, u0)" by (cases e)
    define u where "u = u0\<lparr>um_Distance := um_Distance u0 + d\<rparr>"
    have k: "token_of view (um_UploadID u0) = k" "token_of view (um_UploadID u) = k" "k \<notin> set (map fst es)"
      using Cons.prems(1) e by (auto simp: u_def keyed_def)
    have es: "keyed view es" using Cons.prems(1) by (auto simp: keyed_def)
    have kes: "map_of es k = None" using k(3) by (simp add: map_of_eq_None_iff)
    define m' where "m' = (case map_of m k of None \<Rightarrow> AList.update k u m
      | Some c \<Rightarrow> if replaces u c then AList.update k u m else m)"
    have m': "keyed view m'" using keyed_update [OF Cons.prems(2) k(2)] Cons.prems(2) by (auto simp: m'_def split: option.splits)
    have "map_of m' s = (if s = k then merge_upload d (map_of m k) (Some u0) else map_of m s)" for s
      by (auto simp: m'_def merge_upload_def Let_def u_def [symmetric] update_conv' split: option.splits)
    moreover have "add_uploads view d (e # es) m = add_uploads view d es m'"
      unfolding u_def m'_def by (simp add: e k(1) Let_def)
    ultimately show ?case using Cons.IH [OF es m'] kes e by (auto simp: merge_upload_def [of _ _ None])
  qed (simp add: merge_upload_def)
  then show "keyed view (add_uploads view d es m)" "map_of (add_uploads view d es m) t = merge_upload d (map_of m t) (map_of es t)" by simp_all
qed

lemma least_Un:
  assumes "least S x" and "least T y"
  shows "closer x y \<Longrightarrow> least (S \<union> T) x" and "\<not> closer x y \<Longrightarrow> least (S \<union> T) y"
proof -
  show "closer x y \<Longrightarrow> least (S \<union> T) x" using assms closer_trans unfolding least_def by blast
  assume "\<not> closer x y"
  then have "closer y x" by (auto simp: closer_def)
  then show "least (S \<union> T) y" using assms closer_trans unfolding least_def by blast
qed

lemma um_pair_shift:
  assumes "unat (um_Distance u) + d < 2 ^ 32"
  shows "um_pair (u\<lparr>um_Distance := um_Distance u + of_nat d\<rparr>) = (unat (um_Distance u) + d, um_UploadID u)"
proof -
  have "unat (of_nat d :: 32 word) = d" using assms by (simp add: unat_of_nat)
  then show ?thesis using assms by (simp add: unat_word_ariths)
qed

lemma holds_add_uploads:
  assumes m: "holds view m S" and es: "holds view es T" and bound: "\<forall>t. \<forall>(k, i) \<in> T t. k + d < 2 ^ 32"
  shows "holds view (add_uploads view (of_nat d) es m) (\<lambda>t. S t \<union> shift d (T t))"
proof -
  note k = holdsD(1) [OF es] holdsD(1) [OF m]
  have "case map_of (add_uploads view (of_nat d) es m) t of
      None \<Rightarrow> S t \<union> shift d (T t) = {} | Some u \<Rightarrow> least (S t \<union> shift d (T t)) (um_pair u)" for t
  proof (cases "map_of es t")
    case None
    then have "T t = {}" by (rule holdsD(2) [OF es])
    then show ?thesis using None holdsD(2,3) [OF m, of t] by (cases "map_of m t") (simp_all add: add_uploads_merge(2) [OF k] merge_upload_def)
  next
    case (Some u0)
    define u where "u = u0\<lparr>um_Distance := um_Distance u0 + of_nat d\<rparr>"
    have l: "least (T t) (um_pair u0)" by (rule holdsD(3) [OF es Some])
    then have "unat (um_Distance u0) + d < 2 ^ 32" using bound by (auto simp: least_def)
    then have u: "least (shift d (T t)) (um_pair u)" using least_shift [OF l] um_pair_shift by (simp add: u_def)
    show ?thesis
    proof (cases "map_of m t")
      case None
      then have "S t = {}" by (rule holdsD(2) [OF m])
      then show ?thesis using None Some u by (simp add: add_uploads_merge(2) [OF k] merge_upload_def u_def)
    next
      case (Some c)
      then have c: "least (S t) (um_pair c)" by (rule holdsD(3) [OF m])
      have "map_of (add_uploads view (of_nat d) es m) t = (if replaces u c then Some u else Some c)"
        using Some \<open>map_of es t = Some u0\<close> by (simp add: add_uploads_merge(2) [OF k] merge_upload_def u_def)
      then show ?thesis using least_Un [OF c u] by (simp add: replaces_closer)
    qed
  qed
  then show ?thesis using add_uploads_merge(1) [OF k] by (simp add: holds_def)
qed

text \<open>The range order only permutes the entries of a map.\<close>

definition permutes :: "range_order \<Rightarrow> bool" where
  "permutes it \<longleftrightarrow> (\<forall>c m. mset (it c m) = mset m)"

lemma holds_perm:
  assumes "permutes it" and "holds view m S"
  shows "holds view (it c m) S"
proof -
  have "map_of (it c m) = map_of m \<and> distinct (map fst (it c m)) \<and> set (it c m) = set m"
    by (rule map_of_perm) (use assms in \<open>simp_all add: holds_def keyed_def permutes_def\<close>)
  with assms(2) show ?thesis by (simp add: holds_def keyed_def)
qed

lemma holds_add_ancestors:
  assumes it: "permutes it"
    and "\<forall>a \<in> set ancestors. holds view (uploads_at uploads a) (T a) \<and> (\<forall>t. \<forall>(k, i) \<in> T a t. k + d < 2 ^ 32)"
    and "holds view m S"
  shows "holds view (add_ancestors it view uploads (of_nat d) ancestors m) (\<lambda>t. S t \<union> (\<Union>a \<in> set ancestors. shift d (T a t)))"
  using assms(2,3)
proof (induction ancestors arbitrary: m S)
  case (Cons a ancestors)
  have a: "holds view (uploads_at uploads a) (T a)" "\<forall>t. \<forall>(k, i) \<in> T a t. k + d < 2 ^ 32" using Cons.prems(1) by simp_all
  have rest: "\<forall>a \<in> set ancestors. holds view (uploads_at uploads a) (T a) \<and> (\<forall>t. \<forall>(k, i) \<in> T a t. k + d < 2 ^ 32)"
    using Cons.prems(1) by simp
  from Cons.IH [OF rest holds_add_uploads [OF Cons.prems(2) holds_perm [OF it a(1)] a(2)], of a]
  show ?case by (simp add: Un_assoc)
qed simp

text \<open>The pairs of the candidates of a commit.\<close>

definition cands :: "(string \<times> string list) list \<Rightarrow> CommitGraphView \<Rightarrow> string \<Rightarrow> string \<Rightarrow> (nat \<times> int) set" where
  "cands graph view c t = {(k, i). cand graph view t c k i}"

definition own_cands :: "CommitGraphView \<Rightarrow> string \<Rightarrow> string \<Rightarrow> (nat \<times> int) set" where
  "own_cands view c t = (case own_upload view c t of None \<Rightarrow> {} | Some u \<Rightarrow> {um_pair u})"

lemma cands_eq: "cands graph view c t = own_cands view c t \<union> (\<Union>p \<in> set (graph_at graph c). shift 1 (cands graph view p t))"
proof (intro equalityI subsetI)
  fix x
  assume "x \<in> cands graph view c t"
  then obtain k i where x: "x = (k, i)" "cand graph view t c k i" by (auto simp: cands_def)
  from x(2) show "x \<in> own_cands view c t \<union> (\<Union>p \<in> set (graph_at graph c). shift 1 (cands graph view p t))"
  proof (cases rule: cand.cases)
    case (parent p k')
    then have "x \<in> shift 1 (cands graph view p t)" using x(1) by (force simp: shift_def cands_def)
    with parent show ?thesis by blast
  qed (use x(1) in \<open>auto simp: own_cands_def\<close>)
next
  fix x
  assume "x \<in> own_cands view c t \<union> (\<Union>p \<in> set (graph_at graph c). shift 1 (cands graph view p t))"
  then show "x \<in> cands graph view c t"
    by (auto simp: own_cands_def cands_def shift_def split: option.splits intro: cand.intros)
qed

lemma own_holds: "holds view (uploads_defined view (meta_at view c) []) (own_cands view c)"
proof -
  have "keyed view (uploads_defined view (meta_at view c) [])" by (rule uploads_defined_keyed) (simp add: keyed_def)
  then show ?thesis by (simp add: holds_def own_cands_def own_upload_def least_def split: option.splits)
qed

text \<open>A skipped commit has the candidates of its parent.\<close>

lemma skips_cands:
  assumes "skips graph view c"
  shows "graph_at graph c = [] \<Longrightarrow> cands graph view c t = {}"
    and "graph_at graph c = p # ps \<Longrightarrow> ps = [] \<and> cands graph view c t = shift 1 (cands graph view p t)"
proof -
  have "own_cands view c t = {}" using assms by (simp add: skips_def own_cands_def own_upload_def meta_at_def)
  with assms show "graph_at graph c = [] \<Longrightarrow> cands graph view c t = {}"
    and "graph_at graph c = p # ps \<Longrightarrow> ps = [] \<and> cands graph view c t = shift 1 (cands graph view p t)"
    by (simp_all add: cands_eq [of graph view c t] skips_def)
qed

text \<open>What is stored when the commits of \<open>done\<close> have been processed.\<close>

definition stored ::
  "(string \<times> string list) list \<Rightarrow> CommitGraphView \<Rightarrow> string set \<Rightarrow> (string \<rightharpoonup> token_uploads) \<Rightarrow> bool" where
  "stored graph view seen uploads \<longleftrightarrow>
     (\<forall>c. case uploads c of
        None \<Rightarrow> c \<in> seen \<longrightarrow> skips graph view c
      | Some m \<Rightarrow> c \<in> seen \<and> \<not> skips graph view c \<and> holds view m (cands graph view c))"

lemma storedD:
  assumes "stored graph view seen uploads"
  shows "uploads c = None \<Longrightarrow> c \<in> seen \<Longrightarrow> skips graph view c"
    and "uploads c \<noteq> None \<Longrightarrow> c \<in> seen \<and> \<not> skips graph view c \<and> holds view (uploads_at uploads c) (cands graph view c)"
proof -
  have "case uploads c of None \<Rightarrow> c \<in> seen \<longrightarrow> skips graph view c
    | Some m \<Rightarrow> c \<in> seen \<and> \<not> skips graph view c \<and> holds view m (cands graph view c)"
    using assms unfolding stored_def by blast
  then show "uploads c = None \<Longrightarrow> c \<in> seen \<Longrightarrow> skips graph view c"
    and "uploads c \<noteq> None \<Longrightarrow> c \<in> seen \<and> \<not> skips graph view c \<and> holds view (uploads_at uploads c) (cands graph view c)"
    by (auto simp: uploads_at_def split: option.splits)
qed

lemma nearest_ancestors_single:
  assumes st: "stored graph view (set seen) uploads" and "parents_first (graph_at graph) [] seen" and "p \<in> set seen"
    and "node_pos seen p < n"
  shows "\<exists>as j. nearest_ancestors n graph uploads [p] (of_nat d) = Some (as, of_nat (d + j)) \<and> (\<forall>a \<in> set as. uploads a \<noteq> None) \<and>
    (\<forall>t. cands graph view p t = (\<Union>a \<in> set as. shift j (cands graph view a t)))"
  using assms(2-4)
proof (induction p arbitrary: n d rule: parents_first_induct)
  case (node p)
  show ?case
  proof (cases "uploads p")
    case (Some m)
    then have "nearest_ancestors n graph uploads [p] (of_nat d) = Some ([p], of_nat (d + 0))"
      by (subst nearest_ancestors.simps) simp
    moreover have "\<forall>t. cands graph view p t = (\<Union>a \<in> set [p]. shift 0 (cands graph view a t))" by simp
    ultimately show ?thesis using Some by (metis empty_set list.simps(15) option.distinct(1) singletonD)
  next
    case None
    then have sk: "skips graph view p" using storedD(1) [OF st] node.hyps by blast
    obtain n' where n': "n = Suc n'" using node.prems by (cases n) auto
    have run: "nearest_ancestors n graph uploads [p] (of_nat d) = nearest_ancestors n' graph uploads (graph_at graph p) (of_nat (d + 1))"
      by (subst nearest_ancestors.simps) (simp add: None n' add.commute)
    show ?thesis
    proof (cases "graph_at graph p")
      case Nil
      then have "nearest_ancestors n graph uploads [p] (of_nat d) = Some ([], of_nat (d + 1))"
        unfolding run by (subst nearest_ancestors.simps) simp
      then show ?thesis using skips_cands(1) [OF sk Nil] by (intro exI [of _ "[]"] exI [of _ 1]) simp
    next
      case (Cons q qs)
      have q: "graph_at graph p = [q]" and c: "cands graph view p t = shift 1 (cands graph view q t)" for t
        using skips_cands(2) [OF sk Cons] Cons by simp_all
      have "node_pos seen q < n'" using parents_first_pos(2) [OF assms(2) node.hyps, of q] q node.prems n' by simp
      then obtain as j where a: "nearest_ancestors n' graph uploads [q] (of_nat (d + 1)) = Some (as, of_nat (d + 1 + j))"
        "\<forall>a \<in> set as. uploads a \<noteq> None" "\<forall>t. cands graph view q t = (\<Union>a \<in> set as. shift j (cands graph view a t))"
        using node.IH [of q, unfolded q] by (metis list.set_intros(1))
      have "cands graph view p t = (\<Union>a \<in> set as. shift (1 + j) (cands graph view a t))" for t
        using a(3) c [of t] by (simp add: shift_def image_UN image_image split_def)
      then show ?thesis using a(1,2) unfolding run q by (intro exI [of _ as] exI [of _ "1 + j"]) (simp add: add.assoc)
    qed
  qed
qed

lemma nearest_ancestors_ok:
  assumes st: "stored graph view (set seen) uploads" and pf: "parents_first (graph_at graph) [] (seen @ [c])" and n: "length seen \<le> n"
  shows "\<exists>as d. nearest_ancestors n graph uploads (graph_at graph c) 1 = Some (as, of_nat d) \<and> (\<forall>a \<in> set as. uploads a \<noteq> None) \<and>
    (\<forall>t. (\<Union>p \<in> set (graph_at graph c). shift 1 (cands graph view p t)) = (\<Union>a \<in> set as. shift d (cands graph view a t)))"
proof -
  have seen: "parents_first (graph_at graph) [] seen" "set (graph_at graph c) \<subseteq> set seen" using pf by (simp_all add: parents_first_append)
  consider "graph_at graph c = []" | p where "graph_at graph c = [p]" | "length (graph_at graph c) > 1"
    by (metis (no_types) One_nat_def Suc_lessI length_0_conv length_Suc_conv length_greater_0_conv)
  then show ?thesis
  proof cases
    case 1
    then have "nearest_ancestors n graph uploads (graph_at graph c) 1 = Some ([], of_nat 1)" by (subst nearest_ancestors.simps) simp
    with 1 show ?thesis by (intro exI [of _ "[]"] exI [of _ 1]) simp
  next
    case (2 p)
    have p: "p \<in> set seen" using 2 seen(2) by simp
    have "node_pos seen p < n" using node_pos_less [OF p] n by simp
    from nearest_ancestors_single [OF st seen(1) p this, of 1]
    obtain as j where a: "nearest_ancestors n graph uploads [p] (of_nat 1) = Some (as, of_nat (1 + j))"
      "\<forall>a \<in> set as. uploads a \<noteq> None" "\<forall>t. cands graph view p t = (\<Union>a \<in> set as. shift j (cands graph view a t))" by blast
    have "(\<Union>p \<in> set (graph_at graph c). shift 1 (cands graph view p t)) = (\<Union>a \<in> set as. shift (1 + j) (cands graph view a t))" for t
      using a(3) 2 by (simp add: shift_def image_UN image_image split_def)
    with a 2 show ?thesis by (intro exI [of _ as] exI [of _ "1 + j"]) simp
  next
    case 3
    have "\<not> skips graph view p" if "p \<in> set (graph_at graph c)" for p
    proof -
      define ps where "ps = graph_at graph c"
      have ps: "map_of graph c = Some ps" "graph_at graph c = ps" using that by (cases "map_of graph c"; simp add: ps_def graph_at_def)+
      then have "(c, ps) \<in> set graph" "count_list ps p \<noteq> 0" using that by (auto simp: map_of_SomeD count_list_0_iff)
      then have "c \<in> set (reverseGraph graph p)" by (force simp: reverseGraph_def)
      then show ?thesis using 3 by (auto simp: skips_def list_all_iff)
    qed
    then have "\<forall>p \<in> set (graph_at graph c). uploads p \<noteq> None" using storedD(1) [OF st] seen(2) by blast
    moreover have "nearest_ancestors n graph uploads (graph_at graph c) 1 = Some (graph_at graph c, of_nat 1)"
      using 3 by (subst nearest_ancestors.simps) simp
    ultimately show ?thesis by blast
  qed
qed

text \<open>Distances do not wrap around.\<close>

definition distances_fit :: "(string \<times> string list) list \<Rightarrow> CommitGraphView \<Rightarrow> string list \<Rightarrow> bool" where
  "distances_fit graph view order \<longleftrightarrow>
     length order \<le> 2 ^ 32 \<and> (\<forall>c \<in> set order. \<forall>u \<in> set (meta_at view c). unat (um_Distance u) + length order \<le> 2 ^ 32)"

lemma uploads_defined_Some: "map_of (uploads_defined view us m) t = Some u \<Longrightarrow> u \<in> set us \<or> map_of m t = Some u"
proof (induction us arbitrary: m)
  case (Cons v us)
  then have "u \<in> set us \<or> map_of (AList.update (token_of view (um_UploadID v)) v m) t = Some u" by simp
  then show ?case by (auto simp: update_conv' split: if_splits)
qed simp

lemma cand_bound:
  assumes fit: "distances_fit graph view order" and pf: "parents_first (graph_at graph) [] order"
    and "cand graph view t c k i" and "c \<in> set order"
  shows "k + (length order - node_pos order c) \<le> 2 ^ 32"
  using assms(3,4)
proof (induction rule: cand.induct)
  case (own c u)
  then have "u \<in> set (meta_at view c)" using uploads_defined_Some by (fastforce simp: own_upload_def)
  then have "unat (um_Distance u) + length order \<le> 2 ^ 32" using fit own.prems unfolding distances_fit_def by blast
  then show ?case by simp
next
  case (parent p c k i)
  from parents_first_pos [OF pf parent.prems parent.hyps(1)] parent.IH node_pos_less [OF parent.prems]
  show ?case by simp
qed

lemma cands_bound:
  assumes "distances_fit graph view order" and "parents_first (graph_at graph) [] order" and "c \<in> set order" and "(k, i) \<in> cands graph view c t"
  shows "k < 2 ^ 32"
  using cand_bound [OF assms(1,2) _ assms(3), of t k i] assms(4) node_pos_less [OF assms(3)] by (simp add: cands_def)

lemma populate_from_ok:
  assumes it: "permutes it" and fit: "distances_fit graph view order" and pf: "parents_first (graph_at graph) [] order" and d: "distinct order"
  shows "order = seen @ rest \<Longrightarrow> stored graph view (set seen) uploads \<Longrightarrow>
    \<exists>uploads'. populate_from it (length order) graph view rest uploads = Some uploads' \<and> stored graph view (set order) uploads'"
proof (induction rest arbitrary: seen uploads)
  case (Cons c rest)
  have pfc: "parents_first (graph_at graph) [] (seen @ [c])" using pf Cons.prems(1) parents_first_append [of _ _ "seen @ [c]" rest] by simp
  have new: "uploads c = None" using storedD(2) [OF Cons.prems(2), of c] d Cons.prems(1) by (cases "uploads c") auto
  have split: "order = (seen @ [c]) @ rest" using Cons.prems(1) by simp
  show ?case
  proof (cases "skips graph view c")
    case True
    have "stored graph view (set (seen @ [c])) uploads"
      using Cons.prems(2) True new unfolding stored_def by (auto split: option.splits)
    from Cons.IH [OF split this] True show ?thesis by simp
  next
    case False
    obtain as dist where a: "nearest_ancestors (length order) graph uploads (graph_at graph c) 1 = Some (as, of_nat dist)"
      "\<forall>a \<in> set as. uploads a \<noteq> None"
      "\<forall>t. (\<Union>p \<in> set (graph_at graph c). shift 1 (cands graph view p t)) = (\<Union>a \<in> set as. shift dist (cands graph view a t))"
      using nearest_ancestors_ok [OF Cons.prems(2) pfc, of "length order"] Cons.prems(1) by auto
    have cands: "cands graph view c t = own_cands view c t \<union> (\<Union>a \<in> set as. shift dist (cands graph view a t))" for t
      using cands_eq [of graph view c t] a(3) by simp
    have "k + dist < 2 ^ 32" if "a \<in> set as" "(k, i) \<in> cands graph view a t" for a t k i
    proof -
      have "(k + dist, i) \<in> cands graph view c t" using that unfolding cands by (force simp: shift_def)
      then show ?thesis using cands_bound [OF fit pf, of c "k + dist" i t] split by simp
    qed
    then have "\<forall>a \<in> set as. holds view (uploads_at uploads a) (cands graph view a) \<and> (\<forall>t. \<forall>(k, i) \<in> cands graph view a t. k + dist < 2 ^ 32)"
      using storedD(2) [OF Cons.prems(2)] a(2) by blast
    from holds_add_ancestors [OF it this own_holds]
    have h: "holds view (populateUploadsForCommit it uploads as (of_nat dist) view c) (cands graph view c)"
      unfolding populateUploadsForCommit_def cands by blast
    have "stored graph view (set (seen @ [c])) (uploads(c \<mapsto> populateUploadsForCommit it uploads as (of_nat dist) view c))"
      using Cons.prems(2) False h unfolding stored_def by (auto split: option.splits)
    from Cons.IH [OF split this] False a(1) show ?thesis by (simp del: fun_upd_apply)
  qed
qed simp

lemma traverseForCommit_ok:
  assumes st: "stored graph view (set seen) uploads" and "parents_first (graph_at graph) [] seen" and "c \<in> set seen"
    and "node_pos seen c \<le> n"
  shows "(traverseForCommit n graph uploads c (of_nat d) = Some None \<and> (\<forall>t. cands graph view c t = {}) \<and> uploads c = None) \<or>
    (\<exists>a j. traverseForCommit n graph uploads c (of_nat d) = Some (Some (a, of_nat (d + j))) \<and> a \<in> set seen \<and> uploads a \<noteq> None \<and>
      (\<forall>t. cands graph view c t = shift j (cands graph view a t)) \<and> j \<le> node_pos seen c \<and> (j = 0 \<longleftrightarrow> a = c))"
  using assms(2-4)
proof (induction c arbitrary: n d rule: parents_first_induct)
  case (node c)
  show ?case
  proof (cases "uploads c")
    case (Some m)
    then have "traverseForCommit n graph uploads c (of_nat d) = Some (Some (c, of_nat (d + 0)))"
      by (subst traverseForCommit.simps) simp
    then show ?thesis using Some node.hyps by (intro disjI2 exI [of _ c] exI [of _ 0]) simp
  next
    case None
    then have sk: "skips graph view c" using storedD(1) [OF st] node.hyps by blast
    show ?thesis
    proof (cases "graph_at graph c")
      case Nil
      then have "traverseForCommit n graph uploads c (of_nat d) = Some None"
        by (subst traverseForCommit.simps) (simp add: None)
      then show ?thesis using skips_cands(1) [OF sk Nil] None by simp
    next
      case (Cons q qs)
      have c: "cands graph view c t = shift 1 (cands graph view q t)" for t using skips_cands(2) [OF sk Cons] by simp
      have q: "q \<in> set (graph_at graph c)" using Cons by simp
      have less: "node_pos seen q < node_pos seen c" using parents_first_pos(2) [OF assms(2) node.hyps q] .
      then obtain n' where n': "n = Suc n'" using node.prems by (cases n) auto
      have run: "traverseForCommit n graph uploads c (of_nat d) = traverseForCommit n' graph uploads q (of_nat (d + 1))"
        by (subst traverseForCommit.simps) (simp add: None n' Cons add.commute)
      have "node_pos seen q \<le> n'" using less node.prems n' by simp
      with node.IH [OF q] consider
        "traverseForCommit n' graph uploads q (of_nat (d + 1)) = Some None" "\<forall>t. cands graph view q t = {}"
        | a j where "traverseForCommit n' graph uploads q (of_nat (d + 1)) = Some (Some (a, of_nat (d + 1 + j)))" "a \<in> set seen"
          "uploads a \<noteq> None" "\<forall>t. cands graph view q t = shift j (cands graph view a t)" "j \<le> node_pos seen q"
        by (metis (no_types))
      then show ?thesis
      proof cases
        case 1
        then show ?thesis using c None by (simp add: run)
      next
        case (2 a j)
        have "a \<noteq> c" using 2(3) None by auto
        then show ?thesis using 2 c less unfolding run
          by (intro disjI2 exI [of _ a] exI [of _ "j + 1"]) (simp add: ac_simps)
      qed
    qed
  qed
qed

lemma um_pair_inject: "um_pair u = um_pair v \<Longrightarrow> u = (v :: UploadMeta)"
  by (cases u; cases v) (simp add: word_unat_eq_iff)

lemma adjustVisibleUploads_exact:
  assumes m: "holds view m S" and bound: "\<forall>t. \<forall>(k, i) \<in> S t. k + j < 2 ^ 32"
  shows "u \<in> set (adjustVisibleUploads m (of_nat j)) \<longleftrightarrow> least (shift j (S (token_of view (um_UploadID u)))) (um_pair u)"
    and "distinct (map (\<lambda>u. token_of view (um_UploadID u)) (adjustVisibleUploads m (of_nat j)))"
proof -
  let ?adj = "\<lambda>u. u\<lparr>um_Distance := um_Distance u + of_nat j\<rparr>"
  have keys: "distinct (map fst m)" and tok: "\<And>t u. (t, u) \<in> set m \<Longrightarrow> token_of view (um_UploadID u) = t"
    using holdsD(1) [OF m] by (auto simp: keyed_def)
  have adj: "least (shift j (S t)) (um_pair (?adj u0))" if "map_of m t = Some u0" for t u0
  proof -
    have l: "least (S t) (um_pair u0)" using holdsD(3) [OF m that] .
    then have "unat (um_Distance u0) + j < 2 ^ 32" using bound by (auto simp: least_def)
    then show ?thesis using least_shift [OF l, of j] um_pair_shift [of u0 j] by simp
  qed
  show "u \<in> set (adjustVisibleUploads m (of_nat j)) \<longleftrightarrow> least (shift j (S (token_of view (um_UploadID u)))) (um_pair u)"
  proof
    assume "u \<in> set (adjustVisibleUploads m (of_nat j))"
    then obtain t u0 where "(t, u0) \<in> set m" "u = ?adj u0" by (auto simp: adjustVisibleUploads_def)
    moreover from this have "map_of m t = Some u0" "token_of view (um_UploadID u) = t" using keys tok [of t u0] by simp_all
    ultimately show "least (shift j (S (token_of view (um_UploadID u)))) (um_pair u)" using adj by blast
  next
    let ?t = "token_of view (um_UploadID u)"
    assume l: "least (shift j (S ?t)) (um_pair u)"
    then have "S ?t \<noteq> {}" by (auto simp: least_def)
    then obtain u0 where u0: "map_of m ?t = Some u0" using holdsD(2) [OF m, of ?t] by (cases "map_of m ?t") auto
    have "u = ?adj u0" using least_unique [OF l adj [OF u0]] by (rule um_pair_inject)
    then show "u \<in> set (adjustVisibleUploads m (of_nat j))" using map_of_SomeD [OF u0] by (force simp: adjustVisibleUploads_def)
  qed
  have "map (\<lambda>u. token_of view (um_UploadID u)) (adjustVisibleUploads m (of_nat j)) = map fst m"
    using tok by (auto simp: adjustVisibleUploads_def)
  then show "distinct (map (\<lambda>u. token_of view (um_UploadID u)) (adjustVisibleUploads m (of_nat j)))" using keys by simp
qed

text \<open>An upload is visible from a commit if it is the nearest of its token.\<close>

definition visible :: "(string \<times> string list) list \<Rightarrow> CommitGraphView \<Rightarrow> string \<Rightarrow> UploadMeta \<Rightarrow> bool" where
  "visible graph view c u \<longleftrightarrow> least (cands graph view c (token_of view (um_UploadID u))) (um_pair u)"

text \<open>A commit graph in topological order whose commits have names, with distances that do not wrap around.\<close>

definition graph_ok :: "CommitGraph \<Rightarrow> CommitGraphView \<Rightarrow> bool" where
  "graph_ok cg view \<longleftrightarrow>
     parents_first (graph_at (cg_graph cg)) [] (cg_order cg) \<and> distinct (cg_order cg) \<and> [] \<notin> set (cg_order cg) \<and>
     distances_fit (cg_graph cg) view (cg_order cg)"

lemma NewGraph_ok:
  assumes it: "permutes it" and ok: "graph_ok cg view"
  obtains uploads where "NewGraph it cg view =
      Some (\<lparr>g_view = view, g_graph = cg_graph cg, g_commits = sort (cg_order cg), g_ancestorUploads = uploads\<rparr>, cg\<lparr>cg_order := sort (cg_order cg)\<rparr>)"
    and "stored (cg_graph cg) view (set (cg_order cg)) uploads"
proof -
  have o: "parents_first (graph_at (cg_graph cg)) [] (cg_order cg)" "distinct (cg_order cg)" "distances_fit (cg_graph cg) view (cg_order cg)"
    using ok by (simp_all add: graph_ok_def)
  have "stored (cg_graph cg) view (set []) Map.empty" by (simp add: stored_def)
  from populate_from_ok [OF it o(3,1,2) _ this, of "cg_order cg"] that show ?thesis
    by (auto simp: NewGraph_def Let_def populateUploadsByTraversal_def)
qed

lemma traverse_cases:
  assumes ok: "graph_ok cg view" and st: "stored (cg_graph cg) view (set (cg_order cg)) uploads" and c: "c \<in> set (cg_order cg)"
  obtains "traverseForCommit (length (cg_order cg)) (cg_graph cg) uploads c 0 = Some None" "\<forall>t. cands (cg_graph cg) view c t = {}"
  | a j where "traverseForCommit (length (cg_order cg)) (cg_graph cg) uploads c 0 = Some (Some (a, of_nat j))"
    "a \<in> set (cg_order cg)" "uploads a \<noteq> None" "holds view (uploads_at uploads a) (cands (cg_graph cg) view a)"
    "\<forall>t. cands (cg_graph cg) view c t = shift j (cands (cg_graph cg) view a t)"
    "\<forall>t. \<forall>(k, i) \<in> cands (cg_graph cg) view a t. k + j < 2 ^ 32" "(of_nat j :: 32 word) = 0 \<longleftrightarrow> a = c"
proof -
  have o: "parents_first (graph_at (cg_graph cg)) [] (cg_order cg)" "distances_fit (cg_graph cg) view (cg_order cg)"
    using ok by (simp_all add: graph_ok_def)
  have pos: "node_pos (cg_order cg) c < length (cg_order cg)" by (rule node_pos_less [OF c])
  from traverseForCommit_ok [OF st o(1) c, of "length (cg_order cg)" 0] pos
  consider "traverseForCommit (length (cg_order cg)) (cg_graph cg) uploads c 0 = Some None" "\<forall>t. cands (cg_graph cg) view c t = {}"
    | a j where "traverseForCommit (length (cg_order cg)) (cg_graph cg) uploads c 0 = Some (Some (a, of_nat j))"
      "a \<in> set (cg_order cg)" "uploads a \<noteq> None" "\<forall>t. cands (cg_graph cg) view c t = shift j (cands (cg_graph cg) view a t)"
      "j \<le> node_pos (cg_order cg) c" "j = 0 \<longleftrightarrow> a = c"
    by auto
  then show ?thesis
  proof cases
    case (2 a j)
    have h: "holds view (uploads_at uploads a) (cands (cg_graph cg) view a)" using storedD(2) [OF st 2(3)] by blast
    have b: "k + j < 2 ^ 32" if "(k, i) \<in> cands (cg_graph cg) view a t" for k i t
    proof -
      have "(k + j, i) \<in> cands (cg_graph cg) view c t" using that 2(4) by (force simp: shift_def)
      then show ?thesis by (rule cands_bound [OF o(2,1) c])
    qed
    have "(of_nat j :: 32 word) = 0 \<longleftrightarrow> a = c"
    proof -
      have "j < 2 ^ 32" using 2(5) pos o(2) by (simp add: distances_fit_def)
      then show ?thesis using 2(6) by (simp add: word_of_nat_eq_0_iff) (metis nat_dvd_not_less neq0_conv dvd_0_right)
    qed
    with 2 h b show ?thesis using that(2) [of a j] by blast
  qed (rule that(1))
qed

lemma UploadsVisibleAtCommit_exact:
  assumes it: "permutes it" and ok: "graph_ok cg view" and new: "NewGraph it cg view = Some (g, cg')" and c: "c \<in> set (cg_order cg)"
  obtains us where "UploadsVisibleAtCommit it g c = Some us" and "\<And>u. u \<in> set us \<longleftrightarrow> visible (cg_graph cg) view c u"
    and "distinct (map (\<lambda>u. token_of view (um_UploadID u)) us)"
proof -
  obtain uploads where g: "g = \<lparr>g_view = view, g_graph = cg_graph cg, g_commits = sort (cg_order cg), g_ancestorUploads = uploads\<rparr>"
    and st: "stored (cg_graph cg) view (set (cg_order cg)) uploads"
    using NewGraph_ok [OF it ok] new by auto
  from traverse_cases [OF ok st c] show ?thesis
  proof cases
    case 1
    have "[] \<notin> set (cg_order cg)" using ok by (simp add: graph_ok_def)
    then have "uploads [] = None" using storedD(2) [OF st, of "[]"] by blast
    then have "uploads_at uploads [] = []" by (simp add: uploads_at_def)
    moreover have "mset (it c []) = mset []" using it unfolding permutes_def by blast
    then have "it c [] = []" by simp
    ultimately have "UploadsVisibleAtCommit it g c = Some []"
      using 1 by (simp add: UploadsVisibleAtCommit_def g traverseForUploads_def adjustVisibleUploads_def)
    then show ?thesis using that [of "[]"] 1 by (simp add: visible_def least_def)
  next
    case (2 a j)
    have "UploadsVisibleAtCommit it g c = Some (adjustVisibleUploads (it c (uploads_at uploads a)) (of_nat j))"
      using 2(1) by (simp add: UploadsVisibleAtCommit_def g traverseForUploads_def)
    moreover note adjustVisibleUploads_exact [OF holds_perm [OF it 2(4), of c] 2(6)]
    ultimately show ?thesis using that 2(5) by (simp add: visible_def)
  qed
qed

text \<open>What a reader of the stored rows sees: the uploads of a commit, or those of the linked ancestor.\<close>

definition reconstruct ::
  "(string \<rightharpoonup> UploadMeta list) \<times> (string \<rightharpoonup> string \<times> 32 word) \<Rightarrow> string \<Rightarrow> UploadMeta list" where
  "reconstruct rows c =
     (case fst rows c of
        Some us \<Rightarrow> us
      | None \<Rightarrow>
          (case snd rows c of
             None \<Rightarrow> []
           | Some (a, d) \<Rightarrow>
               map (\<lambda>u. u\<lparr>um_Distance := um_Distance u + d\<rparr>) (case fst rows a of None \<Rightarrow> [] | Some us \<Rightarrow> us)))"

lemma gather_append: "gather (es @ fs) u l = (case gather es u l of (u', l') \<Rightarrow> gather fs u' l')"
  by (induction es u l rule: gather.induct) (simp_all del: fun_upd_apply)

fun envelope_rows :: "Envelope list \<Rightarrow> UploadMeta list option \<times> (string \<times> 32 word) option" where
  "envelope_rows (VisibilityRelationship c us # es) = (Some us, None)"
| "envelope_rows (LinkRelationship c a d # es) = (None, Some (a, d))"
| "envelope_rows [] = (None, None)"

lemma stream_commit_gather:
  assumes "stream_commit it g c = Some es" and "gather es u l = (u', l')" and "u c = None" and "l c = None"
  shows "(u' c, l' c) = envelope_rows es" and "x \<noteq> c \<Longrightarrow> u' x = u x \<and> l' x = l x"
  using assms by (auto simp: stream_commit_def Let_def split: option.splits if_splits)

lemma stream_commits_gather:
  "stream_commits it g cs = Some es \<Longrightarrow> distinct cs \<Longrightarrow> gather es u l = (u', l') \<Longrightarrow> \<forall>c \<in> set cs. u c = None \<and> l c = None \<Longrightarrow>
   (\<forall>c \<in> set cs. stream_commit it g c \<noteq> None \<and> (u' c, l' c) = envelope_rows (the (stream_commit it g c))) \<and>
   (\<forall>c. c \<notin> set cs \<longrightarrow> u' c = u c \<and> l' c = l c)"
proof (induction cs arbitrary: es u l)
  case (Cons c cs)
  obtain fs rest where fs: "stream_commit it g c = Some fs" "stream_commits it g cs = Some rest" "es = fs @ rest"
    using Cons.prems(1) by (auto split: option.splits)
  obtain u1 l1 where g1: "gather fs u l = (u1, l1)" by (cases "gather fs u l")
  have g2: "gather rest u1 l1 = (u', l')" using Cons.prems(3) by (simp add: fs(3) gather_append g1)
  note one = stream_commit_gather [OF fs(1) g1]
  have "\<forall>x \<in> set cs. u1 x = None \<and> l1 x = None" using one(2) Cons.prems(2,4) by (metis distinct.simps(2) list.set_intros(1,2))
  note IH = Cons.IH [OF fs(2) _ g2 this]
  have "u' c = u1 c \<and> l' c = l1 c" using IH Cons.prems(2) by simp
  then show ?case using IH one fs(1) Cons.prems(2,4) by auto
qed simp

lemma stream_commit_exact:
  assumes it: "permutes it" and ok: "graph_ok cg view" and st: "stored (cg_graph cg) view (set (cg_order cg)) uploads" and c: "c \<in> set (cg_order cg)"
    and g: "g = \<lparr>g_view = view, g_graph = cg_graph cg, g_commits = sort (cg_order cg), g_ancestorUploads = uploads\<rparr>"
  obtains us where "stream_commit it g c = Some [VisibilityRelationship c us]" and "\<And>u. u \<in> set us \<longleftrightarrow> visible (cg_graph cg) view c u"
  | a us d where "stream_commit it g c = Some [LinkRelationship c a d]" and "a \<in> set (cg_order cg)"
    and "stream_commit it g a = Some [VisibilityRelationship a us]"
    and "\<And>u. u \<in> set (map (\<lambda>u. u\<lparr>um_Distance := um_Distance u + d\<rparr>) us) \<longleftrightarrow> visible (cg_graph cg) view c u"
  | "stream_commit it g c = Some []" and "\<And>u. \<not> visible (cg_graph cg) view c u"
  using traverse_cases [OF ok st c]
proof cases
  case 1
  then show ?thesis using that(3) by (simp add: stream_commit_def g visible_def least_def)
next
  case (2 a j)
  let ?m = "uploads_at uploads a"
  have exact: "u \<in> set (adjustVisibleUploads (it x ?m) (of_nat j)) \<longleftrightarrow> visible (cg_graph cg) view c u" for u x
    using adjustVisibleUploads_exact(1) [OF holds_perm [OF it 2(4)] 2(6), of u x] 2(5) by (simp add: visible_def)
  have run: "stream_commit it g c = Some (if (of_nat j :: 32 word) = 0 \<or> length ?m = 1 then [VisibilityRelationship c (adjustVisibleUploads (it c ?m) (of_nat j))]
      else if length ?m > 1 then [LinkRelationship c a (of_nat j)] else [])"
    using 2(1) by (simp add: stream_commit_def g)
  consider "(of_nat j :: 32 word) = 0 \<or> length ?m = 1" | "(of_nat j :: 32 word) \<noteq> 0" "length ?m > 1" | "(of_nat j :: 32 word) \<noteq> 0" "?m = []"
    by (metis length_0_conv less_one nat_neq_iff)
  then show ?thesis
  proof cases
    case 1
    with run exact [of _ c] that(1) show ?thesis by simp
  next
    case 2
    have "traverseForCommit (length (cg_order cg)) (cg_graph cg) uploads a 0 = Some (Some (a, 0))"
      using \<open>uploads a \<noteq> None\<close> by (subst traverseForCommit.simps) simp
    then have "stream_commit it g a = Some [VisibilityRelationship a (adjustVisibleUploads (it a ?m) 0)]"
      by (simp add: stream_commit_def g)
    moreover have "map (\<lambda>u. u\<lparr>um_Distance := um_Distance u + of_nat j\<rparr>) (adjustVisibleUploads (it a ?m) 0) = adjustVisibleUploads (it a ?m) (of_nat j)"
      by (auto simp: adjustVisibleUploads_def)
    ultimately show ?thesis using that(2) [of a "of_nat j" "adjustVisibleUploads (it a ?m) 0"] run 2 exact [of _ a] \<open>a \<in> set (cg_order cg)\<close> by simp
  next
    case 3
    have "mset (it c []) = mset []" using it unfolding permutes_def by blast
    with exact [of _ c] 3 run that(3) show ?thesis by (simp add: adjustVisibleUploads_def)
  qed
qed

lemma stream_commits_Some: "\<forall>c \<in> set cs. stream_commit it g c \<noteq> None \<Longrightarrow> \<exists>es. stream_commits it g cs = Some es"
  by (induction cs) auto

lemma Gather_exact:
  assumes it: "permutes it" and ok: "graph_ok cg view" and new: "NewGraph it cg view = Some (g, cg')"
  obtains rows where "Gather it g = Some rows"
    and "\<And>c u. c \<in> set (cg_order cg) \<Longrightarrow> u \<in> set (reconstruct rows c) \<longleftrightarrow> visible (cg_graph cg) view c u"
proof -
  obtain uploads where g: "g = \<lparr>g_view = view, g_graph = cg_graph cg, g_commits = sort (cg_order cg), g_ancestorUploads = uploads\<rparr>"
    and st: "stored (cg_graph cg) view (set (cg_order cg)) uploads"
    using NewGraph_ok [OF it ok] new by auto
  note exact = stream_commit_exact [OF it ok st _ g]
  have "\<forall>c \<in> set (sort (cg_order cg)). stream_commit it g c \<noteq> None" 
  proof
    fix c
    assume "c \<in> set (sort (cg_order cg))"
    then have "c \<in> set (cg_order cg)" by simp
    from exact [OF this] show "stream_commit it g c \<noteq> None" by cases simp_all
  qed
  then obtain es where es: "stream_commits it g (sort (cg_order cg)) = Some es" using stream_commits_Some by blast
  obtain u' l' where r: "gather es Map.empty Map.empty = (u', l')" by (cases "gather es Map.empty Map.empty")
  have "distinct (sort (cg_order cg))" using ok by (simp add: graph_ok_def)
  from stream_commits_gather [OF es this r]
  have rows: "(u' c, l' c) = envelope_rows (the (stream_commit it g c))" if "c \<in> set (cg_order cg)" for c using that by simp
  have "u \<in> set (reconstruct (u', l') c) \<longleftrightarrow> visible (cg_graph cg) view c u" if c: "c \<in> set (cg_order cg)" for c u
    using exact [OF c]
  proof cases
    case (1 us)
    then show ?thesis using rows [OF c] by (simp add: reconstruct_def)
  next
    case (2 a us d)
    then show ?thesis using rows [OF c] rows [OF 2(2)] by (simp add: reconstruct_def)
  next
    case 3
    then show ?thesis using rows [OF c] by (simp add: reconstruct_def)
  qed
  moreover have "Gather it g = Some (u', l')" using es r by (simp add: Gather_def Graph_Stream_def g)
  ultimately show ?thesis using that by blast
qed

section \<open>Parsing the log\<close>

text \<open>
  An entry of the log is a commit and its parents. The log lists a commit before its parents; parents
  that are not listed are allowed.
\<close>

definition commit_name :: "string \<Rightarrow> bool" where
  "commit_name s \<longleftrightarrow> s \<noteq> [] \<and> list_all (\<lambda>c. is_digit c \<or> is_ascii_letter (of_char c)) s"

definition log_line :: "string \<times> string list \<Rightarrow> string" where
  "log_line e = strings_Join (fst e # snd e) '' ''"

abbreviation listed_parents :: "(string \<times> string list) list \<Rightarrow> string set" where
  "listed_parents es \<equiv> \<Union>e \<in> set es. set (snd e)"

text \<open>Oldest first.\<close>

primrec topological :: "(string \<times> string list) list \<Rightarrow> bool" where
  "topological [] \<longleftrightarrow> True"
| "topological (e # es) \<longleftrightarrow> set (snd e) \<inter> set (map fst (e # es)) = {} \<and> fst e \<notin> set (map fst es) \<and> topological es"

definition log_ok :: "(string \<times> string list) list \<Rightarrow> bool" where
  "log_ok es \<longleftrightarrow> list_all (\<lambda>(c, ps). commit_name c \<and> list_all commit_name ps) es \<and> topological (rev es)"

lemma commit_name_space: "commit_name s \<Longrightarrow> CHR '' '' \<notin> set s"
  by (auto simp: commit_name_def list_all_iff is_digit_def is_ascii_letter_def)

lemma space_bytes: "hd ` set space_encodings \<subseteq> {c. \<not> (is_digit c \<or> is_ascii_letter (of_char c))}"
  "last ` set space_encodings \<subseteq> {c. \<not> (is_digit c \<or> is_ascii_letter (of_char c))}"
proof -
  have "list_all (\<lambda>e. \<not> (is_digit (hd e) \<or> is_ascii_letter (of_char (hd e)))) space_encodings"
    "list_all (\<lambda>e. \<not> (is_digit (last e) \<or> is_ascii_letter (of_char (last e)))) space_encodings" by code_simp+
  then show "hd ` set space_encodings \<subseteq> {c. \<not> (is_digit c \<or> is_ascii_letter (of_char c))}"
    "last ` set space_encodings \<subseteq> {c. \<not> (is_digit c \<or> is_ascii_letter (of_char c))}" by (auto simp: list_all_iff)
qed

lemma Join_ends:
  assumes "\<forall>w \<in> set ws. w \<noteq> []" and "ws \<noteq> []"
  shows "strings_Join ws sep \<noteq> [] \<and> hd (strings_Join ws sep) = hd (hd ws) \<and> last (strings_Join ws sep) = last (last ws)"
  using assms by (induction ws sep rule: strings_Join.induct) auto

lemma log_line_parts:
  assumes "commit_name c" and "list_all commit_name ps"
  shows "strings_TrimSpace (log_line (c, ps)) = log_line (c, ps)" and "log_line (c, ps) \<noteq> []"
    and "strings_Split (log_line (c, ps)) (CHR '' '') = c # ps"
proof -
  have all: "\<forall>w \<in> set (c # ps). commit_name w" using assms by (simp add: list_all_iff)
  then have ne: "\<forall>w \<in> set (c # ps). w \<noteq> []" by (auto simp: commit_name_def)
  note ends = Join_ends [OF ne, of "'' ''"]
  have "last (last (c # ps)) \<in> set (last (c # ps))" "last (c # ps) \<in> set (c # ps)" using ne last_in_set [of "c # ps"] by auto
  then have "is_digit (last (last (c # ps))) \<or> is_ascii_letter (of_char (last (last (c # ps))))"
    using all unfolding commit_name_def list_all_iff by blast
  moreover have "is_digit (hd c) \<or> is_ascii_letter (of_char (hd c))" using assms(1) by (cases c) (auto simp: commit_name_def)
  ultimately show "strings_TrimSpace (log_line (c, ps)) = log_line (c, ps)"
    using ends space_bytes by (intro TrimSpace_id) (auto simp: log_line_def)
  show "log_line (c, ps) \<noteq> []" using ends by (simp add: log_line_def)
  show "strings_Split (log_line (c, ps)) (CHR '' '') = c # ps"
    unfolding log_line_def by (simp add: strings_Split_Join commit_name_space all [simplified])
qed

lemma add_parts_ok:
  "distinct pre \<Longrightarrow> \<forall>x \<in> set pre. map_of graph x \<noteq> None \<Longrightarrow>
   \<exists>graph' pre'. add_parts parts graph pre = (graph', pre') \<and> distinct pre' \<and>
     set pre' = set pre \<union> {x \<in> set parts. map_of graph x = None} \<and>
     (\<forall>x. map_of graph' x = (if x \<in> set parts \<and> map_of graph x = None then Some [] else map_of graph x))"
proof (induction parts arbitrary: graph pre)
  case (Cons p parts)
  show ?case
  proof (cases "map_of graph p")
    case None
    have "distinct (pre @ [p])" using Cons.prems None by auto
    moreover have "\<forall>x \<in> set (pre @ [p]). map_of (AList.update p [] graph) x \<noteq> None" using Cons.prems(2) by (auto simp: update_conv')
    ultimately obtain graph' pre' where "add_parts parts (AList.update p [] graph) (pre @ [p]) = (graph', pre')" "distinct pre'"
      "set pre' = set (pre @ [p]) \<union> {x \<in> set parts. map_of (AList.update p [] graph) x = None}"
      "\<forall>x. map_of graph' x = (if x \<in> set parts \<and> map_of (AList.update p [] graph) x = None then Some [] else map_of (AList.update p [] graph) x)"
      using Cons.IH by meson
    then show ?thesis using None by (auto simp: update_conv' split: if_splits)
  next
    case (Some ps)
    with Cons.IH [OF Cons.prems] show ?thesis by auto
  qed
qed simp

text \<open>The state of the loop after the entries \<open>es\<close>.\<close>

definition parsed :: "(string \<times> string list) list \<Rightarrow> (string \<times> string list) list \<Rightarrow> string list \<Rightarrow> string list \<Rightarrow> bool" where
  "parsed es graph order pre \<longleftrightarrow>
     order = map fst es \<and> distinct pre \<and> set pre = listed_parents es - set (map fst es) \<and>
     (\<forall>x. map_of graph x =
        (case map_of es x of Some ps \<Rightarrow> Some ps | None \<Rightarrow> if x \<in> set pre then Some [] else None))"

lemma topological_append:
  "topological (es @ fs) \<longleftrightarrow> topological es \<and> topological fs \<and> (listed_parents es \<union> set (map fst es)) \<inter> set (map fst fs) = {}"
  by (induction es) auto

lemma parsed_step:
  assumes inv: "parsed es graph order pre" and topo: "topological (es @ [(c, ps)])"
    and run: "add_parts ps (AList.update c ps graph) pre = (graph', pre')"
  shows "parsed (es @ [(c, ps)]) graph' (order @ [c]) pre'"
proof -
  have o: "order = map fst es" and d: "distinct pre" and sp: "set pre = listed_parents es - set (map fst es)"
    and look: "map_of graph x = (case map_of es x of Some ps \<Rightarrow> Some ps | None \<Rightarrow> if x \<in> set pre then Some [] else None)" for x
    using inv unfolding parsed_def by blast+
  have t: "c \<notin> listed_parents es" "c \<notin> set (map fst es)" "c \<notin> set ps" using topo by (auto simp: topological_append)
  have dom: "map_of graph x = None \<longleftrightarrow> x \<notin> set (map fst es) \<and> x \<notin> set pre" for x
    using look [of x] map_of_eq_None_iff [of es x] by (auto split: option.splits)
  let ?g = "AList.update c ps graph"
  have "\<forall>x \<in> set pre. map_of ?g x \<noteq> None" using dom by (auto simp: update_conv')
  from add_parts_ok [OF d this, of ps] run
  have p': "distinct pre'" "set pre' = set pre \<union> {x \<in> set ps. map_of ?g x = None}"
    and look': "map_of graph' x = (if x \<in> set ps \<and> map_of ?g x = None then Some [] else map_of ?g x)" for x by auto
  have new: "{x \<in> set ps. map_of ?g x = None} = {x \<in> set ps. x \<notin> set (map fst es) \<and> x \<notin> set pre}"
    using t(3) dom by (auto simp: update_conv')
  have sp': "set pre' = listed_parents (es @ [(c, ps)]) - set (map fst (es @ [(c, ps)]))"
    unfolding p'(2) new sp using t by auto
  have "map_of graph' x = (case map_of (es @ [(c, ps)]) x of Some ps \<Rightarrow> Some ps | None \<Rightarrow> if x \<in> set pre' then Some [] else None)" for x
  proof (cases "x = c")
    case True
    have "map_of es c = None" using t(2) by (simp add: map_of_eq_None_iff)
    with True show ?thesis using look' [of x] t by (simp add: update_conv' map_add_def)
  next
    case False
    have e: "map_of (es @ [(c, ps)]) x = map_of es x" using False by (simp add: map_add_def split: option.splits)
    show ?thesis
    proof (cases "map_of es x")
      case None
      then have "x \<notin> set (map fst es)" by (simp add: map_of_eq_None_iff)
      then have "x \<in> set pre' \<longleftrightarrow> x \<in> set pre \<or> x \<in> set ps" unfolding p'(2) new by auto
      then show ?thesis unfolding e using False None look [of x] look' [of x] by (auto simp: update_conv')
    next
      case (Some qs)
      then show ?thesis unfolding e using False look [of x] look' [of x] by (simp add: update_conv')
    qed
  qed
  then show ?thesis using o p'(1) sp' unfolding parsed_def by simp
qed

lemma parse_lines_ok:
  assumes "parsed es graph order pre" and "topological (es @ fs)"
    and "list_all (\<lambda>(c, ps). commit_name c \<and> list_all commit_name ps) fs"
  shows "\<exists>graph' order' pre'. parse_lines (map log_line fs) graph order pre = (graph', order', pre') \<and> parsed (es @ fs) graph' order' pre'"
  using assms
proof (induction fs arbitrary: es graph order pre)
  case (Cons f fs)
  obtain c ps where f: "f = (c, ps)" by (cases f)
  have names: "commit_name c" "list_all commit_name ps" using Cons.prems(3) f by simp_all
  obtain graph' pre' where run: "add_parts ps (AList.update c ps graph) pre = (graph', pre')" by (cases "add_parts ps (AList.update c ps graph) pre")
  have "topological (es @ [(c, ps)])" using Cons.prems(2) f by (auto simp: topological_append)
  from parsed_step [OF Cons.prems(1) this run]
  have inv: "parsed (es @ [f]) graph' (order @ [c]) pre'" using f by simp
  have "parse_lines (map log_line (f # fs)) graph order pre = parse_lines (map log_line fs) graph' (order @ [c]) pre'"
    using log_line_parts [OF names] run by (cases "ps = []") (simp_all add: f Let_def)
  with Cons.IH [OF inv] Cons.prems(2,3) show ?case by simp
qed simp

lemma ParseCommitGraph_ok:
  assumes ok: "log_ok es" and cg: "cg = ParseCommitGraph (map log_line es)"
  shows "distinct (cg_order cg)" and "parents_first (graph_at (cg_graph cg)) [] (cg_order cg)" and "[] \<notin> set (cg_order cg)"
    and "set (cg_order cg) = set (map fst es) \<union> listed_parents es"
    and "(c, ps) \<in> set es \<Longrightarrow> graph_at (cg_graph cg) c = ps" and "c \<notin> set (map fst es) \<Longrightarrow> graph_at (cg_graph cg) c = []"
proof -
  have t: "topological (rev es)" and n: "list_all (\<lambda>(c, ps). commit_name c \<and> list_all commit_name ps) es" using ok by (simp_all add: log_ok_def)
  have "parsed [] [] [] []" by (simp add: parsed_def)
  from parse_lines_ok [OF this, of "rev es"] t n
  obtain graph order pre where run: "parse_lines (map log_line (rev es)) [] [] [] = (graph, order, pre)"
    and inv: "parsed (rev es) graph order pre" by (auto simp: list_all_iff)
  have c: "cg_graph cg = graph" "cg_order cg = pre @ order" using run by (simp_all add: cg ParseCommitGraph_def rev_map)
  have o: "order = map fst (rev es)" and d: "distinct pre" and sp: "set pre = listed_parents es - set (map fst es)"
    and look: "map_of graph x = (case map_of (rev es) x of Some ps \<Rightarrow> Some ps | None \<Rightarrow> if x \<in> set pre then Some [] else None)" for x
    using inv unfolding parsed_def by auto
  have dist: "distinct (map fst fs)" if "topological fs" for fs using that by (induction fs) auto
  then have de: "distinct (map fst (rev es))" using t by blast
  show in_log: "graph_at (cg_graph cg) c = ps" if "(c, ps) \<in> set es" for c ps
    using look [of c] map_of_is_SomeI [of "rev es" c ps] that de c(1) by (simp add: graph_at_def)
  show not_in_log: "graph_at (cg_graph cg) c = []" if "c \<notin> set (map fst es)" for c
    using look [of c] that c(1) map_of_eq_None_iff [of "rev es" c] by (auto simp: graph_at_def split: option.splits)
  show dist_order: "distinct (cg_order cg)" using c(2) o d sp de by auto
  show "set (cg_order cg) = set (map fst es) \<union> listed_parents es" using c(2) o sp by auto
  have "[] \<notin> set (map fst es)" "[] \<notin> listed_parents es" using n by (fastforce simp: list_all_iff commit_name_def)+
  then show "[] \<notin> set (cg_order cg)" using c(2) o sp by auto
  show "parents_first (graph_at (cg_graph cg)) [] (cg_order cg)"
    unfolding parents_first_split
  proof (intro allI impI subsetI)
    fix ys x zs p
    assume s: "cg_order cg = ys @ x # zs" and p: "p \<in> set (graph_at (cg_graph cg) x)"
    then have "x \<in> set (map fst es)" using not_in_log [of x] by fastforce
    then obtain ps where x: "(x, ps) \<in> set (rev es)" by auto
    then obtain as bs where ab: "rev es = as @ (x, ps) # bs" by (meson split_list)
    have eq: "cg_order cg = (pre @ map fst as) @ x # map fst bs" using c(2) o ab by simp
    have "distinct ((pre @ map fst as) @ x # map fst bs)" using dist_order unfolding eq .
    then have "x \<notin> set (pre @ map fst as)" "x \<notin> set (map fst bs)" by auto
    from append_Cons_eq_iff [OF this, of ys zs] have ys: "ys = pre @ map fst as" using s eq by simp
    have "p \<in> set ps" using p in_log [of x ps] x by simp
    moreover have "p \<notin> set (map fst ((x, ps) # bs))" using t unfolding ab topological_append using calculation by auto
    ultimately have "p \<in> listed_parents es" "p \<in> set (map fst es) \<longrightarrow> p \<in> set (map fst as)"
      using x ab by (auto simp flip: set_rev [of es])
    then show "p \<in> set [] \<union> set ys" using ys sp by auto
  qed
qed

end
