(* ===== verification/Commit_Graph_Rows.thy ===== *)
theory Commit_Graph_Rows
  imports Commit_Graph
begin

text \<open>
  How the decorated commit graph is read from and written to the database
  (\<open>enterprise/internal/codeintel/uploads/internal/store/commitgraph.go\<close>): \<open>scanCommitGraphView\<close> makes
  the view from the rows of a query, and \<open>sanitizeCommitInput\<close> makes the rows of three tables. The
  queries themselves are not modelled; a channel is the list of the values sent on it, in a run that is
  not canceled. Time is a number of nanoseconds; \<open>now\<close> is what the clock says.

  Shown here: the encoding of a list of uploads can be decoded, the rows of the first two tables give
  back the visible uploads of each commit, and the rows of the third are the uploads that are visible at
  the tips that are not stale.
\<close>

section \<open>Rows in\<close>

fun scanCommitGraphView :: "(int \<times> string \<times> string \<times> 32 word) list \<Rightarrow> CommitGraphView \<Rightarrow> CommitGraphView" where
  "scanCommitGraphView [] view = view"
| "scanCommitGraphView ((uploadID, commit, token, distance) # rows) view =
     scanCommitGraphView rows (View_Add view \<lparr>um_UploadID = uploadID, um_Distance = distance\<rparr> commit token)"

section \<open>The encoding of uploads\<close>

text \<open>The state of the serializer is its buffer; \<open>scratch\<close> only saves allocations.\<close>

type_synonym serializer = string

definition newUploadMetaListSerializer :: serializer where
  "newUploadMetaListSerializer = []"

definition writeInteger :: "int \<Rightarrow> serializer \<Rightarrow> serializer" where
  "writeInteger value buf = buf @ Itoa value"

definition writeUploadMeta :: "UploadMeta \<Rightarrow> serializer \<Rightarrow> serializer" where
  "writeUploadMeta uploadMeta buf =
     writeInteger (int (unat (um_Distance uploadMeta)))
       (writeInteger (um_UploadID uploadMeta) (buf @ [CHR 0x22]) @ [CHR 0x22, CHR '':''])"

fun write_metas :: "nat \<Rightarrow> UploadMeta list \<Rightarrow> serializer \<Rightarrow> serializer" where
  "write_metas i [] buf = buf"
| "write_metas i (uploadMeta # uploadMetas) buf =
     write_metas (Suc i) uploadMetas (writeUploadMeta uploadMeta (if i > 0 then buf @ '','' else buf))"

definition serializer_write :: "UploadMeta list \<Rightarrow> serializer \<Rightarrow> serializer" where
  "serializer_write uploadMetas buf = write_metas 0 uploadMetas (buf @ ''{'') @ ''}''"

text \<open>\<open>take\<close> copies the buffer and resets it.\<close>

definition serializer_take :: "serializer \<Rightarrow> string \<times> serializer" where
  "serializer_take buf = (buf, [])"

definition Serialize :: "UploadMeta list \<Rightarrow> serializer \<Rightarrow> string \<times> serializer" where
  "Serialize uploadMetas buf = serializer_take (serializer_write uploadMetas buf)"

section \<open>Rows out\<close>

datatype RefType = RefTypeUnknown | RefTypeBranch | RefTypeTag

record RefDescription =
  rd_Name :: string
  rd_Type :: RefType
  rd_IsDefaultBranch :: bool
  rd_CreatedDate :: "int option"

record sanitizedCommitInput =
  sci_nearestUploadsRowValues :: "(string \<times> string) list"
  sci_nearestUploadsLinksRowValues :: "(string \<times> string \<times> 32 word) list"
  sci_uploadsVisibleAtTipRowValues :: "(int \<times> string \<times> bool) list"
  sci_numNearestUploadsRecords :: "32 word"
  sci_numNearestUploadsLinksRecords :: "32 word"
  sci_numUploadsVisibleAtTipRecords :: "32 word"

fun envelope_rows_from ::
  "Envelope list \<Rightarrow> serializer \<Rightarrow> sanitizedCommitInput \<Rightarrow> sanitizedCommitInput" where
  "envelope_rows_from [] ser s = s"
| "envelope_rows_from (VisibilityRelationship commit uploads # es) ser s =
     (case Serialize uploads ser of
        (bytes, ser) \<Rightarrow>
          envelope_rows_from es ser
            (s\<lparr>sci_nearestUploadsRowValues := sci_nearestUploadsRowValues s @ [(commit, bytes)],
               sci_numNearestUploadsRecords := sci_numNearestUploadsRecords s + 1\<rparr>))"
| "envelope_rows_from (LinkRelationship commit ancestorCommit distance # es) ser s =
     envelope_rows_from es ser
       (s\<lparr>sci_nearestUploadsLinksRowValues := sci_nearestUploadsLinksRowValues s @ [(commit, ancestorCommit, distance)],
          sci_numNearestUploadsLinksRecords := sci_numNearestUploadsLinksRecords s + 1\<rparr>)"

text \<open>The references of a commit that are not stale: whether one is the default branch, and the names.\<close>

fun fresh_refs :: "(RefType \<rightharpoonup> int) \<Rightarrow> int \<Rightarrow> RefDescription list \<Rightarrow> bool \<Rightarrow> string list \<Rightarrow> bool \<times> string list" where
  "fresh_refs maxAges now [] isDefaultBranch names = (isDefaultBranch, names)"
| "fresh_refs maxAges now (rd # rds) isDefaultBranch names =
     (if rd_IsDefaultBranch rd then fresh_refs maxAges now rds True (names @ [rd_Name rd])
      else
        case maxAges (rd_Type rd) of
          None \<Rightarrow> fresh_refs maxAges now rds isDefaultBranch names
        | Some maxAge \<Rightarrow>
            (case rd_CreatedDate rd of
               None \<Rightarrow> fresh_refs maxAges now rds isDefaultBranch names
             | Some created \<Rightarrow>
                 if now - created > maxAge then fresh_refs maxAges now rds isDefaultBranch names
                 else fresh_refs maxAges now rds isDefaultBranch (names @ [rd_Name rd])))"

definition add_tip_row :: "int \<times> string \<times> bool \<Rightarrow> sanitizedCommitInput \<Rightarrow> sanitizedCommitInput" where
  "add_tip_row row s =
     s\<lparr>sci_uploadsVisibleAtTipRowValues := sci_uploadsVisibleAtTipRowValues s @ [row],
       sci_numUploadsVisibleAtTipRecords := sci_numUploadsVisibleAtTipRecords s + 1\<rparr>"

text \<open>The loop over the references of the repository, in the order of the map's range.\<close>

fun tip_rows_from ::
  "range_order \<Rightarrow> Graph \<Rightarrow> (RefType \<rightharpoonup> int) \<Rightarrow> int \<Rightarrow> (string \<times> RefDescription list) list \<Rightarrow> sanitizedCommitInput \<Rightarrow>
   sanitizedCommitInput option" where
  "tip_rows_from it g maxAges now [] s = Some s"
| "tip_rows_from it g maxAges now ((commit, rds) # refs) s =
     (case fresh_refs maxAges now rds False [] of
        (isDefaultBranch, names) \<Rightarrow>
          if length names = 0 then tip_rows_from it g maxAges now refs s
          else
            case UploadsVisibleAtCommit it g commit of
              None \<Rightarrow> None
            | Some uploadMetas \<Rightarrow>
                tip_rows_from it g maxAges now refs
                  (fold (\<lambda>u. add_tip_row (um_UploadID u, strings_Join (sort names) '','', isDefaultBranch)) uploadMetas s))"

definition max_ages :: "int \<Rightarrow> int \<Rightarrow> (RefType \<rightharpoonup> int)" where
  "max_ages maxAgeForNonStaleBranches maxAgeForNonStaleTags =
     [RefTypeBranch \<mapsto> maxAgeForNonStaleBranches, RefTypeTag \<mapsto> maxAgeForNonStaleTags]"

definition sanitizeCommitInput ::
  "range_order \<Rightarrow> int \<Rightarrow> Graph \<Rightarrow> (string \<times> RefDescription list) list \<Rightarrow> int \<Rightarrow> int \<Rightarrow> sanitizedCommitInput option" where
  "sanitizeCommitInput it now g refDescriptions maxAgeForNonStaleBranches maxAgeForNonStaleTags =
     (case Graph_Stream it g of
        None \<Rightarrow> None
      | Some es \<Rightarrow>
          tip_rows_from it g (max_ages maxAgeForNonStaleBranches maxAgeForNonStaleTags) now refDescriptions
            (envelope_rows_from es newUploadMetaListSerializer
              \<lparr>sci_nearestUploadsRowValues = [], sci_nearestUploadsLinksRowValues = [], sci_uploadsVisibleAtTipRowValues = [],
               sci_numNearestUploadsRecords = 0, sci_numNearestUploadsLinksRecords = 0, sci_numUploadsVisibleAtTipRecords = 0\<rparr>))"

section \<open>Decoding\<close>

definition meta_text :: "UploadMeta \<Rightarrow> string" where
  "meta_text u = CHR 0x22 # Itoa (um_UploadID u) @ CHR 0x22 # CHR '':'' # Itoa (int (unat (um_Distance u)))"

text \<open>The decoder of the reader: an object whose keys are identifiers and whose values are distances.\<close>

definition decode_meta :: "string \<Rightarrow> UploadMeta option" where
  "decode_meta s =
     (case strings_Split s (CHR 0x22) of
        [_, key, val] \<Rightarrow>
          (case (Atoi key, Atoi (tl val)) of
             (Inr i, Inr d) \<Rightarrow> Some \<lparr>um_UploadID = i, um_Distance = of_int d\<rparr>
           | _ \<Rightarrow> None)
      | _ \<Rightarrow> None)"

definition decode_metas :: "string \<Rightarrow> UploadMeta list option" where
  "decode_metas s =
     (let body = butlast (tl s) in
      if body = [] then Some [] else those (map decode_meta (strings_Split body (CHR '',''))))"

lemma nat_digits_chars: "c \<in> set (nat_digits n) \<Longrightarrow> is_digit c"
proof (induction n rule: nat_digits.induct)
  case (1 n)
  have "n mod 10 < 10" by simp
  with 1 digit_char(1) [of n] digit_char(1) [of "n mod 10"] show ?case by (auto simp: nat_digits.simps [of n] split: if_splits)
qed

lemma Itoa_chars: "c \<in> set (Itoa i) \<Longrightarrow> is_digit c \<or> c = CHR ''-''"
  using nat_digits_chars by (auto simp: Itoa_def split: if_splits)

lemma Itoa_not: "\<not> is_digit c \<Longrightarrow> c \<noteq> CHR ''-'' \<Longrightarrow> c \<notin> set (Itoa i)"
  using Itoa_chars by blast

definition ids_fit :: "UploadMeta list \<Rightarrow> bool" where
  "ids_fit us \<longleftrightarrow> (\<forall>u \<in> set us. - (2 ^ 63) \<le> um_UploadID u \<and> um_UploadID u < 2 ^ 63)"

lemma decode_meta_text:
  assumes "- (2 ^ 63) \<le> um_UploadID u" and "um_UploadID u < 2 ^ 63"
  shows "decode_meta (meta_text u) = Some u"
proof -
  let ?i = "Itoa (um_UploadID u)" and ?d = "Itoa (int (unat (um_Distance u)))"
  have "CHR 0x22 \<notin> set ?i" "CHR 0x22 \<notin> set ?d" by (rule Itoa_not; simp add: is_digit_def)+
  then have "strings_Split (strings_Join [[], ?i, CHR '':'' # ?d] [CHR 0x22]) (CHR 0x22) = [[], ?i, CHR '':'' # ?d]"
    by (intro strings_Split_Join) auto
  then have s: "strings_Split (meta_text u) (CHR 0x22) = [[], ?i, CHR '':'' # ?d]" by (simp add: meta_text_def)
  have i: "Atoi ?i = Inr (um_UploadID u)" using ParseInt_Itoa [of 64 "um_UploadID u"] assms by (simp add: Atoi_def)
  have "uint (um_Distance u) < 2 ^ LENGTH(32)" by (rule unsigned_less)
  moreover have "- (2 ^ 63) \<le> uint (um_Distance u)" by (rule order_trans [OF _ unsigned_greater_eq]) simp
  ultimately have "Atoi ?d = Inr (int (unat (um_Distance u)))" using ParseInt_Itoa [of 64 "int (unat (um_Distance u))"] by (simp add: Atoi_def)
  with s i show ?thesis by (simp add: decode_meta_def)
qed

lemma write_metas_eq:
  "write_metas i us buf = buf @ (if i > 0 \<and> us \<noteq> [] then '','' else []) @ strings_Join (map meta_text us) '',''"
proof (induction i us buf rule: write_metas.induct)
  case (2 i u us buf)
  then show ?case by (cases us) (simp_all add: writeUploadMeta_def writeInteger_def meta_text_def)
qed simp

lemma Serialize_eq: "Serialize us [] = (''{'' @ strings_Join (map meta_text us) '','' @ ''}'', [])"
  by (simp add: Serialize_def serializer_take_def serializer_write_def write_metas_eq)

lemma those_map_Some: "(\<And>x. x \<in> set xs \<Longrightarrow> f x = Some (g x)) \<Longrightarrow> those (map f xs) = Some (map g xs)"
  by (induction xs) auto

lemma decode_Serialize:
  assumes "ids_fit us"
  shows "decode_metas (fst (Serialize us [])) = Some us"
proof (cases us)
  case Nil
  then show ?thesis by (simp add: Serialize_eq decode_metas_def)
next
  case (Cons u us')
  let ?body = "strings_Join (map meta_text us) '',''"
  have "\<forall>p \<in> set (map meta_text us). CHR '','' \<notin> set p"
  proof -
    have "CHR '','' \<notin> set (Itoa i)" for i by (rule Itoa_not) (simp_all add: is_digit_def)
    then show ?thesis by (auto simp: meta_text_def)
  qed
  then have s: "strings_Split ?body (CHR '','') = map meta_text us" using Cons by (intro strings_Split_Join) simp_all
  have "?body \<noteq> []" using Cons by (cases us') (simp_all add: meta_text_def)
  moreover have "those (map decode_meta (map meta_text us)) = Some (map id us)"
    unfolding map_map by (rule those_map_Some) (use assms decode_meta_text in \<open>simp add: ids_fit_def\<close>)
  ultimately show ?thesis using s by (simp add: Serialize_eq decode_metas_def Let_def butlast_append)
qed

section \<open>What the rows say\<close>

definition read_rows :: "sanitizedCommitInput \<Rightarrow> (string \<rightharpoonup> UploadMeta list) \<times> (string \<rightharpoonup> string \<times> 32 word)" where
  "read_rows s =
     (fold (\<lambda>(c, bytes) m. m(c \<mapsto> the (decode_metas bytes))) (sci_nearestUploadsRowValues s) Map.empty,
      fold (\<lambda>(c, a, d) m. m(c \<mapsto> (a, d))) (sci_nearestUploadsLinksRowValues s) Map.empty)"

fun envelope_fits :: "Envelope \<Rightarrow> bool" where
  "envelope_fits (VisibilityRelationship c us) \<longleftrightarrow> ids_fit us"
| "envelope_fits (LinkRelationship c a d) \<longleftrightarrow> True"

lemma read_envelope_rows:
  "\<forall>e \<in> set es. envelope_fits e \<Longrightarrow>
   read_rows (envelope_rows_from es [] s) = gather es (fst (read_rows s)) (snd (read_rows s))"
proof (induction es arbitrary: s)
  case (Cons e es)
  then have rest: "\<forall>e \<in> set es. envelope_fits e" and e: "envelope_fits e" by simp_all
  show ?case
  proof (cases e)
    case (VisibilityRelationship c us)
    obtain bytes where b: "Serialize us [] = (bytes, [])" "decode_metas bytes = Some us"
      using decode_Serialize [of us] e VisibilityRelationship by (simp add: Serialize_eq)
    define s' where "s' = s\<lparr>sci_nearestUploadsRowValues := sci_nearestUploadsRowValues s @ [(c, bytes)],
      sci_numNearestUploadsRecords := sci_numNearestUploadsRecords s + 1\<rparr>"
    have "envelope_rows_from (e # es) [] s = envelope_rows_from es [] s'" by (simp add: VisibilityRelationship b(1) s'_def)
    moreover have "fst (read_rows s') = (fst (read_rows s))(c \<mapsto> us)" "snd (read_rows s') = snd (read_rows s)"
      using b(2) by (simp_all add: read_rows_def s'_def del: fun_upd_apply)
    ultimately show ?thesis using Cons.IH [OF rest, of s'] by (simp add: VisibilityRelationship del: fun_upd_apply)
  next
    case (LinkRelationship c a d)
    define s' where "s' = s\<lparr>sci_nearestUploadsLinksRowValues := sci_nearestUploadsLinksRowValues s @ [(c, a, d)],
      sci_numNearestUploadsLinksRecords := sci_numNearestUploadsLinksRecords s + 1\<rparr>"
    have "envelope_rows_from (e # es) [] s = envelope_rows_from es [] s'" by (simp add: LinkRelationship s'_def)
    moreover have "fst (read_rows s') = fst (read_rows s)" "snd (read_rows s') = (snd (read_rows s))(c \<mapsto> (a, d))"
      by (simp_all add: read_rows_def s'_def del: fun_upd_apply)
    ultimately show ?thesis using Cons.IH [OF rest, of s'] by (simp add: LinkRelationship del: fun_upd_apply)
  qed
qed (simp add: read_rows_def)

text \<open>The identifiers of the view are 64-bit integers.\<close>

definition view_fits :: "CommitGraphView \<Rightarrow> bool" where
  "view_fits view \<longleftrightarrow> (\<forall>c. ids_fit (meta_at view c))"

lemma cand_fits:
  assumes "view_fits view"
  shows "cand graph view t c k i \<Longrightarrow> - (2 ^ 63) \<le> i \<and> i < 2 ^ 63"
proof (induction rule: cand.induct)
  case (own c u)
  then have "u \<in> set (meta_at view c)" using uploads_defined_Some by (fastforce simp: own_upload_def)
  then show ?case using assms unfolding view_fits_def ids_fit_def by blast
qed

lemma visible_fits: "view_fits view \<Longrightarrow> (\<And>u. u \<in> set us \<Longrightarrow> visible graph view c u) \<Longrightarrow> ids_fit us"
  using cand_fits by (fastforce simp: ids_fit_def visible_def least_def cands_def)

lemma stream_commits_envelopes:
  "stream_commits it g cs = Some es \<Longrightarrow> e \<in> set es \<Longrightarrow> \<exists>c \<in> set cs. \<exists>fs. stream_commit it g c = Some fs \<and> e \<in> set fs"
  by (induction cs arbitrary: es) (auto split: option.splits)

text \<open>A reference is fresh if it is the default branch or young enough.\<close>

definition fresh :: "(RefType \<rightharpoonup> int) \<Rightarrow> int \<Rightarrow> RefDescription \<Rightarrow> bool" where
  "fresh maxAges now rd \<longleftrightarrow>
     rd_IsDefaultBranch rd \<or>
     (\<exists>maxAge created. maxAges (rd_Type rd) = Some maxAge \<and> rd_CreatedDate rd = Some created \<and> now - created \<le> maxAge)"

lemma fresh_refs_eq:
  "fresh_refs maxAges now rds isDefault names =
     (isDefault \<or> (\<exists>rd \<in> set rds. rd_IsDefaultBranch rd), names @ map rd_Name (filter (fresh maxAges now) rds))"
  by (induction maxAges now rds isDefault names rule: fresh_refs.induct) (auto simp: fresh_def split: option.splits)

definition ref_rows :: "(RefType \<rightharpoonup> int) \<Rightarrow> int \<Rightarrow> (string \<Rightarrow> UploadMeta list) \<Rightarrow> string \<times> RefDescription list \<Rightarrow> (int \<times> string \<times> bool) list" where
  "ref_rows maxAges now vis ref =
     (let names = map rd_Name (filter (fresh maxAges now) (snd ref)) in
      if names = [] then []
      else map (\<lambda>u. (um_UploadID u, strings_Join (sort names) '','', \<exists>rd \<in> set (snd ref). rd_IsDefaultBranch rd)) (vis (fst ref)))"

lemma fold_tip_rows:
  "sci_uploadsVisibleAtTipRowValues (fold (\<lambda>u. add_tip_row (f u)) us s) = sci_uploadsVisibleAtTipRowValues s @ map f us"
  "read_rows (fold (\<lambda>u. add_tip_row (f u)) us s) = read_rows s"
  by (induction us arbitrary: s) (simp_all add: add_tip_row_def read_rows_def)

lemma tip_rows_from_eq:
  assumes "\<forall>(c, rds) \<in> set refs. UploadsVisibleAtCommit it g c = Some (vis c)"
  shows "\<exists>s'. tip_rows_from it g maxAges now refs s = Some s' \<and> read_rows s' = read_rows s \<and>
    sci_uploadsVisibleAtTipRowValues s' = sci_uploadsVisibleAtTipRowValues s @ concat (map (ref_rows maxAges now vis) refs)"
  using assms
proof (induction refs arbitrary: s)
  case (Cons ref refs)
  obtain c rds where ref: "ref = (c, rds)" by (cases ref)
  have vis: "UploadsVisibleAtCommit it g c = Some (vis c)" and rest: "\<forall>(c, rds) \<in> set refs. UploadsVisibleAtCommit it g c = Some (vis c)"
    using Cons.prems ref by simp_all
  show ?case
  proof (cases "filter (fresh maxAges now) rds = []")
    case True
    then have "tip_rows_from it g maxAges now (ref # refs) s = tip_rows_from it g maxAges now refs s"
      and "ref_rows maxAges now vis ref = []" by (simp_all add: ref fresh_refs_eq ref_rows_def)
    with Cons.IH [OF rest, of s] show ?thesis by simp
  next
    case False
    let ?f = "\<lambda>u. (um_UploadID u, strings_Join (sort (map rd_Name (filter (fresh maxAges now) rds))) '','', \<exists>rd \<in> set rds. rd_IsDefaultBranch rd)"
    have "tip_rows_from it g maxAges now (ref # refs) s = tip_rows_from it g maxAges now refs (fold (\<lambda>u. add_tip_row (?f u)) (vis c) s)"
      and "ref_rows maxAges now vis ref = map ?f (vis c)" using False vis by (simp_all add: ref fresh_refs_eq ref_rows_def)
    with Cons.IH [OF rest, of "fold (\<lambda>u. add_tip_row (?f u)) (vis c) s"] show ?thesis by (simp add: fold_tip_rows)
  qed
qed simp

lemma envelope_rows_tip: "sci_uploadsVisibleAtTipRowValues (envelope_rows_from es ser s) = sci_uploadsVisibleAtTipRowValues s"
  by (induction es ser s rule: envelope_rows_from.induct) (auto split: prod.splits)

lemma sanitizeCommitInput_exact:
  assumes it: "permutes it" and ok: "graph_ok cg view" and fits: "view_fits view" and new: "NewGraph it cg view = Some (g, cg')"
    and refs: "fst ` set refs \<subseteq> set (cg_order cg)"
  obtains s where "sanitizeCommitInput it now g refs maxBranch maxTag = Some s"
    and "\<And>c u. c \<in> set (cg_order cg) \<Longrightarrow> u \<in> set (reconstruct (read_rows s) c) \<longleftrightarrow> visible (cg_graph cg) view c u"
    and "sci_uploadsVisibleAtTipRowValues s = concat (map (ref_rows (max_ages maxBranch maxTag) now (\<lambda>c. the (UploadsVisibleAtCommit it g c))) refs)"
proof -
  obtain uploads where g: "g = \<lparr>g_view = view, g_graph = cg_graph cg, g_commits = sort (cg_order cg), g_ancestorUploads = uploads\<rparr>"
    and st: "stored (cg_graph cg) view (set (cg_order cg)) uploads"
    using NewGraph_ok [OF it ok] new by auto
  obtain rows where rows: "Gather it g = Some rows"
    and exact: "\<And>c u. c \<in> set (cg_order cg) \<Longrightarrow> u \<in> set (reconstruct rows c) \<longleftrightarrow> visible (cg_graph cg) view c u"
    using Gather_exact [OF it ok new] by blast
  then obtain es where es: "Graph_Stream it g = Some es" "rows = gather es Map.empty Map.empty" by (auto simp: Gather_def)
  have "envelope_fits e" if e: "e \<in> set es" for e
  proof -
    obtain c fs where c: "c \<in> set (cg_order cg)" "stream_commit it g c = Some fs" "e \<in> set fs"
      using stream_commits_envelopes [of it g "sort (cg_order cg)" es e] es(1) e by (auto simp: Graph_Stream_def g)
    show ?thesis using stream_commit_exact [OF it ok st c(1) g]
    proof cases
      case (1 us)
      then have "ids_fit us" using visible_fits [OF fits, of us "cg_graph cg" c] by blast
      with 1 c show ?thesis by simp
    qed (use c in auto)
  qed
  then have fit: "\<forall>e \<in> set es. envelope_fits e" by blast
  let ?s0 = "\<lparr>sci_nearestUploadsRowValues = [], sci_nearestUploadsLinksRowValues = [], sci_uploadsVisibleAtTipRowValues = [],
    sci_numNearestUploadsRecords = 0, sci_numNearestUploadsLinksRecords = 0, sci_numUploadsVisibleAtTipRecords = 0\<rparr>"
  have read: "read_rows (envelope_rows_from es [] ?s0) = rows"
    using read_envelope_rows [OF fit, of ?s0] es(2) by (simp add: read_rows_def)
  have "\<forall>(c, rds) \<in> set refs. UploadsVisibleAtCommit it g c = Some (the (UploadsVisibleAtCommit it g c))"
  proof safe
    fix c rds
    assume "(c, rds) \<in> set refs"
    then have "c \<in> set (cg_order cg)" using refs by force
    from UploadsVisibleAtCommit_exact [OF it ok new this] show "UploadsVisibleAtCommit it g c = Some (the (UploadsVisibleAtCommit it g c))" by (metis option.sel)
  qed
  from tip_rows_from_eq [OF this, of "max_ages maxBranch maxTag" now "envelope_rows_from es [] ?s0"] read
  obtain s where "tip_rows_from it g (max_ages maxBranch maxTag) now refs (envelope_rows_from es [] ?s0) = Some s" "read_rows s = rows"
    "sci_uploadsVisibleAtTipRowValues s = concat (map (ref_rows (max_ages maxBranch maxTag) now (\<lambda>c. the (UploadsVisibleAtCommit it g c))) refs)"
    by (auto simp: envelope_rows_tip)
  then show ?thesis using that [of s] exact es(1) by (simp add: sanitizeCommitInput_def newUploadMetaListSerializer_def)
qed

end
