(* ===== verification/Spec2Isabelle.thy ===== *)
theory Spec2Isabelle
  imports Query_Findings Update_System Mutable_Limiter Migration_Read Commit_Graph_Rows
begin

text \<open>
  A development about five parts of the code search server: the query language, the scheduler of
  repository updates, the limiter that bounds its work, the definitions of database migrations, and
  the commit graph with its code intelligence uploads.

  \<^bold>\<open>The query language\<close> (\<open>internal/search/query\<close>, \<open>internal/search/filter/select.go\<close>). A query string
  is scanned, parsed into a tree of parameters, patterns and operators, transformed, turned into a
  plan of basic queries, validated, and read by the rest of the server through accessors.
  \<^item> \<open>Prelude\<close>, \<open>Go_Text\<close> and \<open>Go_Strconv\<close>: lemmas on lists, options and sums; runes, spaces and the
    string functions of Go that the sources call; the number functions of \<open>strconv\<close>.
  \<^item> \<open>Query_Types\<close>, \<open>Query_Registry\<close>, \<open>Query_Mapper\<close>: nodes, labels and ranges (\<open>types.go\<close>, \<open>labels.go\<close>,
    \<open>range.go\<close>), fields and aliases (\<open>fields.go\<close>), the predicate registry, visitors and mappers.
  \<^item> \<open>Query_Scan\<close>: the scanners of \<open>parser.go\<close>. \<open>Query_Operator\<close>: \<open>reduce\<close> and \<open>NewOperator\<close>.
    \<open>Query_Hoist\<close>: \<open>Hoist\<close>. \<open>Query_Parser\<close>: the recursive descent parser with its position, balance
    and heuristics as explicit state.
  \<^item> \<open>Query_Transform\<close> and \<open>Query_Plan\<close>: \<open>transformer.go\<close>. \<open>Query_Revs\<close>: \<open>repo_revs.go\<close>, \<open>visibility.go\<close>
    and select paths. \<open>Query_Predicate\<close>: the \<open>Unmarshal\<close> methods of \<open>predicate.go\<close>.
    \<open>Query_Validate\<close>: \<open>validate.go\<close>. \<open>Query_Pipeline\<close>: \<open>query.go\<close>. \<open>Query_Accessors\<close>: the accessors
    of \<open>types.go\<close>. \<open>Query_Findings\<close>: inputs on which the code differs from its comments.
  Strings are lists of bytes; a Go error is the left side of a sum, and a panic is an error value of
  its own or \<open>None\<close>. The parser takes a bound on the depth of its recursion, three times the length
  of the input and three more; it is shown never to be used up, and a larger one gives the same parse.
  The regular-expression, syntax, duration, language and date libraries are the fields of \<open>externals\<close>,
  arguments of validation; nothing is assumed about them.
  Shown: parsing and the whole pipeline end with a result or with an error of the source; parsed trees
  are well formed; a plan is equivalent to its query and has the size that the query determines;
  transformations keep the terms of a query; what is printed or quoted is read back; and the accessors
  cannot panic on a validated plan.

  \<^bold>\<open>The scheduler of repository updates\<close> (\<open>internal/repos/scheduler.go\<close>). Repositories are scheduled by
  due time; the schedule loop moves due repositories into a priority queue; the update loop takes them
  from there and starts a worker for each, which asks the git server for an update, changes the
  interval of the repository and removes it from the queue.
  \<^item> \<open>Go_Heap\<close>: \<open>container/heap\<close>, for any implementation of its interface (locale \<open>heap_interface\<close>).
    \<open>Indexed_Heap\<close>: heaps of pointers with stored positions and an index by identifier (locales
    \<open>indexed_heap\<close> and \<open>pointer_heap\<close>), whose operations are shown to change a table of entries.
  \<^item> \<open>Update_Queue\<close>: \<open>updateQueue\<close>, an interpretation of \<open>pointer_heap\<close>; the operations refine the table
    operations \<open>spec_enqueue\<close>, \<open>spec_remove\<close> and \<open>spec_start\<close>.
  \<^item> \<open>Update_Schedule\<close>: \<open>schedule\<close>, the second interpretation, with the timer, the intervals and the
    jitter. Clock readings and random numbers are arguments; times are nanoseconds, the difference of
    two times saturates and products of durations wrap around as in Go.
  \<^item> \<open>Update_Scheduler\<close>: \<open>UpdateScheduler\<close> and its methods, \<open>runSchedule\<close> and what a worker does with the
    interval. The number of iterations of \<open>runSchedule\<close> is an argument; one more than the number of
    scheduled repositories is shown to be enough.
  \<^item> \<open>Update_System\<close>: both loops, the workers, the timer and the clients as a step relation in which a
    step is a section that holds a lock, with an invariant of all reachable states.
  Shown: every operation keeps heap, positions, index and timer consistent and does not panic for a
  repository with an identifier; queue and schedule implement tables; updates start by priority and
  arrival; no repository has two workers; no wakeup of either loop is lost; a run of the schedule ends
  and queues what is due; intervals stay in bounds. The step relation leaves out the restart of the
  loops after a change of the configuration: \<open>restart_updates_twice\<close> shows that the exclusion of two
  workers is lost there.

  \<^bold>\<open>The limiter\<close> (\<open>internal/limiter/mutable.go\<close>): \<open>Mutable_Limiter\<close> has the state of its goroutine and one
  operation for each case of its \<open>select\<close>. Shown: it never exceeds its limit, it cancels exactly what it
  does not hold, and it cancels the oldest first.

  \<^bold>\<open>Database migrations\<close> (\<open>internal/database/migration/definition\<close>). The directories of a schema are read
  into definitions, which name their parents; the definitions are ordered, and the migrator asks which
  of them to apply or to undo.
  \<^item> \<open>Graph_Order\<close>: lists in which the parents of a node come before it, positions and paths.
    \<open>Go_Strings\<close>: trimming and splitting of strings.
  \<^item> \<open>Migration_Definitions\<close>: \<open>NewDefinitions\<close> with \<open>reorderDefinitions\<close>, \<open>findDefinitionOrder\<close> and its depth-first
    search, whose depth is bounded by one more than the number of definitions.
  \<^item> \<open>Migration_Graph\<close>: \<open>Up\<close>, \<open>Down\<close>, \<open>Filter\<close>, \<open>LeafDominator\<close> and \<open>dominators\<close>; the breadth-first \<open>traverse\<close> has
    the contract \<open>traversal\<close>, a locale that is interpreted for the parents (\<open>Up\<close>) and the children (\<open>Down\<close>).
  \<^item> \<open>Migration_Read\<close>: \<open>ReadDefinitions\<close> and what it calls, with the two regular expressions as functions; the
    files, the YAML decoder and the rendering of a query are arguments, and nothing is assumed about them.
  Shown: ordering ends and succeeds exactly for acyclic graphs with one root and known parents, if the
  identifiers are distinct; errors name what is wrong; what is to be applied or undone can be, in that
  order; dominators are those of the paths from the root; definitions agree with their files.

  \<^bold>\<open>The commit graph\<close> (\<open>internal/gitserver/gitdomain/commit_graph.go\<close>,
  \<open>enterprise/internal/codeintel/uploads/internal/commitgraph\<close> and \<open>store/commitgraph.go\<close> beside it). The output of
  git log is parsed into a graph, in which the uploads visible from each commit are found and written
  to tables.
  \<^item> \<open>Commit_Graph\<close>: \<open>ParseCommitGraph\<close>, \<open>NewGraph\<close>, \<open>UploadsVisibleAtCommit\<close>, \<open>Stream\<close> and \<open>Gather\<close>. Distances are 32-bit
    words, the order in which Go ranges over a map is an argument that permutes the map, and the loops
    along single parents are bounded by the number of commits, which is shown to be enough.
  \<^item> \<open>Commit_Graph_Rows\<close>: \<open>scanCommitGraphView\<close>, the serializer of uploads and \<open>sanitizeCommitInput\<close>.
  Shown: the graph of a log is in topological order; the uploads found are the nearest ones, as the
  inductive definition \<open>cand\<close> of the reachable uploads says; and the rows give them back.

  \<^bold>\<open>Not modelled\<close>: \<open>date_format.go\<close>, \<open>helpers.go\<close> and \<open>printer.go\<close> of the query package, which rest on
  tables and parsers of other packages; \<open>DebugDump\<close> and the syncer, which read and write the database;
  the statements and transactions around migrations and commit graphs; metrics, logging and tracing; the request to the git server, whose outcome is an arbitrary value; and
  the other services, stores, clients and the user interface, which are input and output around these
  parts.

  This theory has the properties that span components, each with a witness at a concrete input.
\<close>

section \<open>Sample inputs for the witnesses\<close>

definition sample_leaf :: "string \<Rightarrow> node" where
  "sample_leaf v = Pattern (plain_pattern v zero_annotation)"

definition sample_parameter :: "string \<Rightarrow> string \<Rightarrow> node" where
  "sample_parameter field v =
     Parameter \<lparr>par_Field = field, par_Value = v, par_Negated = False, par_Annotation = zero_annotation\<rparr>"

definition sample_query :: "node list" where
  "sample_query =
     [Operator Or [sample_parameter FieldRepo ''r1'', sample_parameter FieldRepo ''r2''] zero_annotation,
      sample_leaf ''a'']"

definition sample_externals :: externals where
  "sample_externals =
     \<lparr>ext_Compile = (\<lambda>_. True), ext_Syntax = (\<lambda>_. True), ext_Language = (\<lambda>_. True),
      ext_Duration = (\<lambda>_. Some 0), ext_GitDate = (\<lambda>_. True)\<rparr>"

section \<open>Parsing\<close>


text \<open>
  C23: a parsed query is at most one node; every operator has at least two operands, every
  leaf spans bytes of the input, and every parameter has a recognised field (or is the empty
  group).
\<close>

theorem Parse_well_formed:
  assumes "Parse buf t = Inr nodes"
  shows "wf_nodes nodes \<and> length nodes \<le> 1 \<and> list_all (leaf_ok (length buf)) (leaves nodes)"
  using Parse_ok [OF assms] by (simp add: tree_ok_def list_all_iff)

theorem Parse_well_formed_witness:
  "\<exists>nodes. Parse ''repo:a b or c'' SearchTypeRegex = Inr nodes \<and> nodes \<noteq> [] \<and>
     wf_nodes nodes \<and> list_all (leaf_ok 13) (leaves nodes)"
proof -
  have "case Parse ''repo:a b or c'' SearchTypeRegex of Inl _ \<Rightarrow> False | Inr nodes \<Rightarrow> nodes \<noteq> []"
    by code_simp
  then obtain nodes where n: "Parse ''repo:a b or c'' SearchTypeRegex = Inr nodes" "nodes \<noteq> []"
    by (auto split: sum.splits)
  with Parse_well_formed [OF n(1)] show ?thesis by (simp add: eval_nat_numeral)
qed



section \<open>Scanners\<close>

text \<open>
  C27: \<open>ScanField\<close> accepts exactly the prefixes of the form \<open>field:\<close> or \<open>-field:\<close> with a
  recognised field name, and returns the name, the negation and the number of bytes.
\<close>

theorem ScanField_exact:
  "field \<noteq> [] \<Longrightarrow>
     ScanField buf = (field, negated, n) \<longleftrightarrow>
     recognised_field field \<and> n = length (field_syntax negated field) \<and>
     buf = field_syntax negated field @ drop n buf"
  using ScanField_sound [of buf field negated n] ScanField_complete [of field negated "drop n buf"] by auto

theorem ScanField_exact_witness:
  "ScanField ''-Repo:x'' = (''Repo'', True, 6) \<and> recognised_field ''Repo''"
proof -
  have "recognised_field ''Repo''" "field_syntax True ''Repo'' = ''-Repo:''" by code_simp+
  with ScanField_exact [of "''Repo''" "''-Repo:x''" True 6] show ?thesis by simp
qed

text \<open>
  C28: quoting round trip. A value put between delimiters, with a backslash before each
  delimiter and backslash, is read back unchanged by \<open>ScanDelimited\<close>, whatever follows it.
\<close>

theorem ScanDelimited_roundtrip:
  assumes "valid_utf8 s" and "query_delimiter q"
  shows "ScanDelimited (quote_with q s @ rest) strict (of_char q) = Inr (s, length (quote_with q s))"
  using assms by (rule ScanDelimited_quote)

theorem ScanDelimited_roundtrip_witness:
  "ScanDelimited (quote_with CHR 0x22 [CHR ''a'', CHR 0x22, CHR 0x5C] @ '' b'') True (of_char CHR 0x22) =
     Inr ([CHR ''a'', CHR 0x22, CHR 0x5C], 7)"
proof -
  have "valid_utf8 [CHR ''a'', CHR 0x22, CHR 0x5C]" "query_delimiter CHR 0x22"
    "length (quote_with CHR 0x22 [CHR ''a'', CHR 0x22, CHR 0x5C]) = 7" by code_simp+
  with ScanDelimited_roundtrip [of "[CHR ''a'', CHR 0x22, CHR 0x5C]" "CHR 0x22" "'' b''" True]
  show ?thesis by simp
qed

text \<open>
  C29: a pattern accepted by \<open>ScanBalancedPattern\<close> is balanced: reading it from the left, no
  closing parenthesis lacks a partner and none stays open; it is a prefix of the buffer.
\<close>

theorem ScanBalancedPattern_balanced:
  assumes "ScanBalancedPattern buf = (s, n, True)" and "valid_utf8 buf"
  shows "s = take n buf \<and> n \<le> length buf \<and> (\<exists>rs. s = string_of_runes rs \<and> paren_depth 0 rs = Some 0)"
proof -
  obtain rs where loop: "ScanBalancedPattern_loop buf 0 0 [] = Some (rs, n, 0)" and s: "s = string_of_runes rs"
    using assms(1) by (auto simp: ScanBalancedPattern_def split: option.splits prod.splits if_splits)
  from ScanBalancedPattern_loop_spec [OF loop] have "string_of_runes rs = take n buf" "n \<le> length buf"
    "paren_depth 0 rs = Some 0" using assms(2) by auto
  with s show ?thesis by metis
qed

theorem ScanBalancedPattern_balanced_witness:
  "\<exists>rs. ''(a (b))'' = string_of_runes rs \<and> paren_depth 0 rs = Some 0"
proof -
  have "ScanBalancedPattern ''(a (b)) c'' = (''(a (b))'', 7, True)" "valid_utf8 ''(a (b)) c''" by code_simp+
  from ScanBalancedPattern_balanced [OF this] show ?thesis by blast
qed

section \<open>Query trees\<close>

text \<open>
  C26: joining nodes keeps their meaning. \<open>NewOperator\<close> with \<open>And\<close> means the conjunction of the
  nodes in every interpretation in which a leaf with an empty value holds.
\<close>

theorem NewOperator_conjunction:
  assumes "empty_holds V"
  shows "list_all (sat V C) (NewOperator nodes And) \<longleftrightarrow> list_all (sat V C) nodes"
  using assms by (rule NewOperator_sat_And)

theorem NewOperator_conjunction_witness:
  "list_all (sat (\<lambda>n. empty_leaf n) (\<lambda>_. True)) (NewOperator [sample_leaf ''a'', sample_leaf ''b''] And) \<longleftrightarrow> False"
  using NewOperator_conjunction [of empty_leaf "\<lambda>_. True" "[sample_leaf ''a'', sample_leaf ''b'']"]
  by (simp add: empty_holds_def sample_leaf_def plain_pattern_def)

text \<open>
  Normal form. On non-empty input \<open>NewOperator\<close> returns one node: a node of the input, or
  an operator of the given kind with at least two operands, taken from the input, that a
  further pass would leave unchanged.
\<close>

theorem NewOperator_normal_form:
  assumes "nodes \<noteq> []"
  shows "(\<exists>n \<in> set (subnodes nodes). NewOperator nodes kind = [n]) \<or>
         (\<exists>ops. NewOperator nodes kind = [Operator kind ops zero_annotation] \<and> 2 \<le> length ops \<and>
                stable kind ops \<and> set ops \<subseteq> set (subnodes nodes))"
  using assms by (rule NewOperator_normal)

theorem NewOperator_normal_form_witness:
  "\<exists>ops. NewOperator [sample_leaf ''a'', sample_leaf ''b''] Or = [Operator Or ops zero_annotation] \<and> stable Or ops"
proof -
  have "NewOperator [sample_leaf ''a'', sample_leaf ''b''] Or =
      [Operator Or [sample_leaf ''a'', sample_leaf ''b''] zero_annotation]"
    by code_simp
  with NewOperator_normal_form [of "[sample_leaf ''a'', sample_leaf ''b'']" Or]
  show ?thesis by (auto simp: sample_leaf_def)
qed

text \<open>
  Grouping the terms of a query loses nothing: \<open>partitionParameters\<close>, which puts the
  parameters before the patterns and concatenates the patterns, keeps every term that has a
  value, and the order among parameters and among patterns.
\<close>

theorem partitionParameters_keeps_terms:
  "terms (partitionParameters nodes) =
     terms (filter (\<lambda>n. \<not> is_ordered_node n) nodes) @ terms (filter is_ordered_node nodes)"
  by (rule partitionParameters_terms)

text \<open>
  C30: hoisting moves parameters out of an or-expression without losing or inventing terms:
  the result is a list of parameters followed by at most one pattern expression, with the
  terms of the input, each pattern marked as hoisted.
\<close>

theorem Hoist_keeps_terms:
  assumes "Hoist nodes = Inr ns"
  shows "mset (terms ns) = mset (map hoisted_leaf (terms nodes)) \<and>
         (\<exists>ps qs. ns = map Parameter ps @ qs \<and> isPatternExpression qs \<and> length qs \<le> 1)"
  using Hoist_terms(1,2) [OF assms] by simp

theorem Hoist_keeps_terms_witness:
  "\<exists>nodes ns. Hoist nodes = Inr ns \<and> length ns = 2 \<and> mset (terms ns) = mset (map hoisted_leaf (terms nodes))"
proof -
  let ?run = "parseOr (parse_fuel ''repo:r a or b'') (new_parser ''repo:r a or b'' parensAsPatterns SearchTypeRegex)"
  have "case ?run of Inl _ \<Rightarrow> False
      | Inr (nodes, _) \<Rightarrow> (case Hoist nodes of Inl _ \<Rightarrow> False | Inr ns \<Rightarrow> length ns = 2)"
    by code_simp
  then obtain nodes ns where ns: "Hoist nodes = Inr ns" "length ns = 2" by (auto split: sum.splits prod.splits)
  with Hoist_keeps_terms [OF ns(1)] show ?thesis by blast
qed

text \<open>
  C31: a successful partition into scope and pattern means the query: the parameters and the
  pattern together hold exactly when the query does, and the pattern has no parameter in it.
\<close>

theorem ToBasicQuery_equivalent:
  assumes "ToBasicQuery nodes = Inr b"
  shows "(sat_basic V C b \<longleftrightarrow> list_all (sat V C) nodes) \<and> basic_ok b"
proof -
  obtain ps q where part: "PartitionSearchPattern nodes = Inr (ps, q)"
    and b: "b = \<lparr>bas_Parameters = ps, bas_Pattern = q\<rparr>"
    using assms by (auto simp: ToBasicQuery_def split: sum.splits)
  show ?thesis
    using PartitionSearchPattern_sat [OF part] by (auto simp: b sat_basic_def basic_ok_def split: option.splits)
qed

theorem ToBasicQuery_equivalent_witness:
  "\<exists>b. ToBasicQuery [sample_parameter ''repo'' ''r'', sample_leaf ''a''] = Inr b \<and> basic_ok b"
proof -
  let ?q = "[sample_parameter ''repo'' ''r'', sample_leaf ''a'']"
  have "case ToBasicQuery ?q of Inl _ \<Rightarrow> False | Inr _ \<Rightarrow> True" by code_simp
  then obtain b where "ToBasicQuery ?q = Inr b" by (auto split: sum.splits)
  with ToBasicQuery_equivalent [of ?q b] show ?thesis by blast
qed

section \<open>Plans\<close>

text \<open>
  C3: a plan is equivalent to its query: the query holds exactly when one of the basic queries
  of \<open>BuildPlan\<close> does, in every interpretation in which a leaf with an empty value holds.
\<close>

theorem BuildPlan_equivalent:
  assumes "empty_holds V" and "wf_nodes nodes" and "nodes \<noteq> []"
  shows "list_ex (sat_basic V C) (BuildPlan nodes) \<longleftrightarrow> list_all (sat V C) nodes"
  using distribute_sat [OF assms(1,2), of C "[]"] distribute_nonempty [OF assms(2), of "[]"] assms(3)
  by (simp add: BuildPlan_def sat_prefixes_def)

theorem BuildPlan_equivalent_witness:
  "list_ex (sat_basic (\<lambda>n. node_value n \<noteq> ''r1'') (\<lambda>_. True)) (BuildPlan sample_query) \<longleftrightarrow>
   list_all (sat (\<lambda>n. node_value n \<noteq> ''r1'') (\<lambda>_. True)) sample_query"
proof -
  have "empty_leaf n \<Longrightarrow> node_value n \<noteq> ''r1''" for n by (cases n) auto
  then have V: "empty_holds (\<lambda>n. node_value n \<noteq> ''r1'')" by (simp add: empty_holds_def)
  have "wf_nodes sample_query" "sample_query \<noteq> []" by code_simp+
  from BuildPlan_equivalent [OF V this] show ?thesis .
qed

text \<open>
  The size of a plan is the number of ways to choose one alternative of each
  or-expression that contains a parameter: sums over alternatives, products over conjuncts.
\<close>

theorem BuildPlan_size:
  assumes "wf_nodes nodes" and "nodes \<noteq> []"
  shows "length (BuildPlan nodes) = choices nodes"
  using length_distribute [OF assms(1), of "[]"] assms(2) by (simp add: BuildPlan_def)

theorem BuildPlan_size_witness: "length (BuildPlan sample_query) = 2"
proof -
  have "wf_nodes sample_query" "sample_query \<noteq> []" "choices sample_query = 2" by code_simp+
  with BuildPlan_size [of sample_query] show ?thesis by simp
qed

text \<open>
  C32: the basic queries of a plan are well formed: the pattern of each contains no parameter,
  and its parameters occur in the query.
\<close>

theorem BuildPlan_basic:
  assumes "b \<in> set (BuildPlan nodes)"
  shows "basic_ok b \<and> set (bas_Parameters b) \<subseteq> set (VisitParameter nodes)"
  using distribute_basic_ok [of "[]" nodes] assms
    BuildPlan_parameters [OF assms, of "\<lambda>p. p \<in> set (VisitParameter nodes)"]
  by (auto simp: BuildPlan_def list_all_iff)

theorem BuildPlan_basic_witness:
  "\<exists>b. b \<in> set (BuildPlan sample_query) \<and> basic_ok b \<and> bas_Parameters b \<noteq> []"
proof -
  have "case BuildPlan sample_query of [] \<Rightarrow> False | b # _ \<Rightarrow> bas_Parameters b \<noteq> []" by code_simp
  then obtain b where "b \<in> set (BuildPlan sample_query)" "bas_Parameters b \<noteq> []"
    by (auto split: list.splits)
  with BuildPlan_basic [of b sample_query] show ?thesis by blast
qed


section \<open>Normalisation\<close>

text \<open>
  C24: what \<open>Init\<close> hands to the planner: every parameter has the canonical lower-case name of a
  field and no alias, no concatenation is left, and every parameter labelled as a predicate
  names a predicate of the registry for that field.
\<close>

theorem Init_normal_form:
  assumes "Init qm buf t nodes0 = Inr nodes"
  shows "canonical_parameters nodes \<and> no_concat nodes \<and> list_all predicate_known (VisitParameter nodes)"
  using Init_ok [OF assms] by simp

theorem Init_normal_form_witness:
  "\<exists>nodes. Init id ''R:a Path:b c d'' SearchTypeStandard [] = Inr nodes \<and> canonical_parameters nodes \<and> no_concat nodes"
proof -
  have "case Init id ''R:a Path:b c d'' SearchTypeStandard [] of Inl _ \<Rightarrow> False | Inr _ \<Rightarrow> True" by code_simp
  then obtain nodes where n: "Init id ''R:a Path:b c d'' SearchTypeStandard [] = Inr nodes" by (auto split: sum.splits)
  with Init_normal_form [OF n] show ?thesis by blast
qed

text \<open>
  Escaping parentheses is safe and idempotent: the result has no unescaped empty group and
  no unescaped trailing parenthesis, and escaping it again changes nothing.
\<close>

theorem escapeParens_idempotent:
  "paren_safe (escapeParens s) \<and> escapeParens (escapeParens s) = escapeParens s"
  using escapeParens_safe escapeParens_id by simp

text \<open>
  The standard concatenation joins neighbouring literals with spaces and keeps regular
  expressions apart: joined again with spaces, the result spells the input, and its regular
  expressions are those of the input, unchanged and in order.
\<close>

theorem standard_joins:
  assumes "ps \<noteq> []"
  shows "strings_Join (map node_value (standard ps)) '' '' = strings_Join (map pat_Value ps) '' '' \<and>
         filter is_regexp_node (standard ps) = map Pattern (filter is_regexp ps)"
  using standard_values [OF assms] standard_regexps by simp

theorem standard_joins_witness:
  "strings_Join (map node_value (standard [plain_pattern ''a'' zero_annotation, plain_pattern ''b'' zero_annotation])) '' '' = ''a b''"
  using standard_joins [of "[plain_pattern ''a'' zero_annotation, plain_pattern ''b'' zero_annotation]"]
  by (simp add: plain_pattern_def)

section \<open>Values\<close>



text \<open>
  C35: \<open>RevisionSpecifier.Less\<close> is a strict linear order, as sorting revisions with it requires.
\<close>

theorem RevisionSpecifier_Less_linear:
  "\<not> RevisionSpecifier_Less r r \<and>
   (RevisionSpecifier_Less r1 r2 \<and> RevisionSpecifier_Less r2 r3 \<longrightarrow> RevisionSpecifier_Less r1 r3) \<and>
   (RevisionSpecifier_Less r1 r2 \<or> r1 = r2 \<or> RevisionSpecifier_Less r2 r1)"
  unfolding less_RevisionSpecifier_def [symmetric] by (meson less_irrefl less_linear less_trans)

theorem RevisionSpecifier_Less_linear_witness:
  "RevisionSpecifier_Less (RevisionSpecifier ''a'' [] []) (RevisionSpecifier ''c'' [] [])"
proof -
  have "RevisionSpecifier_Less (RevisionSpecifier ''a'' [] []) (RevisionSpecifier ''b'' [] [])"
    "RevisionSpecifier_Less (RevisionSpecifier ''b'' [] []) (RevisionSpecifier ''c'' [] [])"
    by (simp_all add: RevisionSpecifier_Less_def)
  with RevisionSpecifier_Less_linear [of "RevisionSpecifier [] [] []" "RevisionSpecifier ''a'' [] []"
      "RevisionSpecifier ''b'' [] []" "RevisionSpecifier ''c'' [] []"]
  show ?thesis by blast
qed

text \<open>
  A select path that is accepted is printed back as it was written.
\<close>

theorem select_path_roundtrip:
  assumes "SelectPathFromString s = Some sp"
  shows "SelectPath_String sp = s"
  using assms by (rule SelectPath_roundtrip)

theorem select_path_roundtrip_witness: "SelectPath_String [''symbol'', ''enum-member''] = ''symbol.enum-member''"
proof -
  have "SelectPathFromString ''symbol.enum-member'' = Some [''symbol'', ''enum-member'']" by code_simp
  then show ?thesis by (rule select_path_roundtrip)
qed

text \<open>
  C36: quoted keys and values of \<open>repo:has(...)\<close> and \<open>repo:has.meta(...)\<close> are read back
  unchanged.
\<close>

theorem predicate_arguments_roundtrip:
  assumes "valid_utf8 key" and "valid_utf8 v" and "key \<noteq> []" and "literal_quote q" and "literal_quote q'"
  shows "Unmarshal_RepoHasKVP (quote_with q key @ '':'' @ quote_with q' v) negated = Inr (RepoHasKVP key v negated) \<and>
         Unmarshal_RepoHasMeta (quote_with q key @ '':'' @ quote_with q' v) negated =
           Inr (RepoHasMeta key (if v \<noteq> [] then Some v else None) negated False)"
  using key_value_quoted [OF assms] by simp

theorem predicate_arguments_roundtrip_witness:
  "Unmarshal_RepoHasKVP (quote_with CHR 0x22 ''a:b'' @ '':'' @ quote_with CHR 0x27 ''c d'') False =
     Inr (RepoHasKVP ''a:b'' ''c d'' False)"
proof -
  have "valid_utf8 ''a:b''" "valid_utf8 ''c d''" by code_simp+
  with predicate_arguments_roundtrip [of "''a:b''" "''c d''" "CHR 0x22" "CHR 0x27" False]
  show ?thesis by (simp add: literal_quote_def)
qed

text \<open>
  \<open>MapCount\<close> sets the count: afterwards \<open>Count\<close> reads the given number if the query had a
  \<open>count:\<close> filter, and nothing otherwise; the pattern stays.
\<close>

theorem MapCount_sets_Count:
  assumes "- (2 ^ 63) \<le> c" and "c < 2 ^ 63" and "MapCount b c = Some b'"
  shows "Count (toNodes (bas_Parameters b')) =
           Some (if list_ex (\<lambda>p. par_Field p = FieldCount) (bas_Parameters b) then Some c else None) \<and>
         bas_Pattern b' = bas_Pattern b"
  using MapCount_Count [OF assms] by simp

theorem MapCount_sets_Count_witness:
  "\<exists>b b'. MapCount b 7 = Some b' \<and> Count (toNodes (bas_Parameters b')) = Some (Some 7)"
proof -
  let ?b = "\<lparr>bas_Parameters = [\<lparr>par_Field = ''count'', par_Value = ''5'', par_Negated = False,
      par_Annotation = zero_annotation\<rparr>], bas_Pattern = None\<rparr>"
  have "case MapCount ?b 7 of None \<Rightarrow> False | Some _ \<Rightarrow> True" by code_simp
  then obtain b' where "MapCount ?b 7 = Some b'" by (auto split: option.splits)
  with MapCount_sets_Count [of 7 ?b b'] show ?thesis by (intro exI [of _ ?b] exI [of _ b']) simp
qed

section \<open>The pipeline\<close>



text \<open>
  C1: on every basic query of a plan that \<open>Pipeline\<close> returns, for any list of steps, no accessor
  panics: what validation accepted, the accessors can read, also after the revisions were
  attached.
\<close>

theorem Pipeline_accessors_safe:
  assumes "Pipeline ext steps = Inr plan" and "b \<in> set plan"
  shows "accessors_total ext (bas_Parameters b)"
  using Pipeline_valid [OF assms] by (rule accessors_valid)

theorem Pipeline_accessors_safe_witness:
  "\<exists>b :: Basic. bas_Parameters b \<noteq> [] \<and> accessors_total sample_externals (bas_Parameters b)"
proof -
  let ?run = "Pipeline sample_externals [Init id ''(repo:a or repo:b) rev:v1 count:all foo'' SearchTypeStandard]"
  have "case ?run of Inl _ \<Rightarrow> False | Inr plan \<Rightarrow> plan \<noteq> [] \<and> bas_Parameters (hd plan) \<noteq> []" by code_simp
  then obtain plan where p: "?run = Inr plan" "plan \<noteq> []" "bas_Parameters (hd plan) \<noteq> []" by (auto split: sum.splits)
  from Pipeline_accessors_safe [OF p(1) hd_in_set [OF p(2)]] p(3) show ?thesis by blast
qed



section \<open>Scheduling of repository updates\<close>

text \<open>A run in which one repository is queued and a worker for it is started.\<close>

definition sample_repo :: configuredRepo where
  "sample_repo = \<lparr>cr_ID = 7, cr_Name = ''r7''\<rparr>"


definition sample_queued :: system where
  "sample_queued = set_queue (snd (the (enqueue sample_repo priorityLow new_updateQueue))) initial_system"

definition sample_woken :: system where
  "sample_woken = (set_queue ((queue_of sample_queued)\<lparr>uq_notify := False\<rparr>) sample_queued)\<lparr>sy_draining := True\<rparr>"

definition sample_started :: system where
  "sample_started =
     (set_queue (snd (the (acquireNext (queue_of sample_woken)))) sample_woken)\<lparr>sy_workers := [(sample_repo, Requesting)]\<rparr>"

definition sample_scheduled :: system where
  "sample_scheduled = set_schedule (snd (the (sc_upsert sample_repo 0 0 new_schedule))) initial_system"

definition sample_diff :: Diff where
  "sample_diff = \<lparr>df_Added = [\<lparr>tr_ID = 1, tr_Name = ''a'', tr_DeletedAt = None\<rparr>], df_Deleted = [],
     df_Modified = [], df_Unmodified = [\<lparr>tr_ID = 2, tr_Name = ''b'', tr_DeletedAt = None\<rparr>,
       \<lparr>tr_ID = 3, tr_Name = ''c'', tr_DeletedAt = Some 5\<rparr>]\<rparr>"

lemma sample_queued_step: "system_step initial_system sample_queued"
proof -
  have "enqueue sample_repo priorityLow new_updateQueue \<noteq> None" by code_simp
  then have "enqueue sample_repo priorityLow (queue_of initial_system) =
      Some (fst (the (enqueue sample_repo priorityLow new_updateQueue)), snd (the (enqueue sample_repo priorityLow new_updateQueue)))"
    by (simp add: initial_system_def NewUpdateScheduler_def)
  then show ?thesis unfolding sample_queued_def by (rule system_step.client_enqueue)
qed

lemma sample_woken_step: "system_step sample_queued sample_woken"
proof -
  have "\<not> sy_draining sample_queued" "uq_notify (queue_of sample_queued)" by code_simp+
  then show ?thesis unfolding sample_woken_def by (rule system_step.update_wake)
qed

lemma sample_started_step: "system_step sample_woken sample_started"
proof -
  have "case acquireNext (queue_of sample_woken) of None \<Rightarrow> False | Some (r, _) \<Rightarrow> r = Some sample_repo" by code_simp
  then have "acquireNext (queue_of sample_woken) = Some (Some sample_repo, snd (the (acquireNext (queue_of sample_woken))))"
    by (auto split: option.splits)
  moreover have "sy_draining sample_woken" "sy_workers sample_woken = []"
    by (simp_all add: sample_woken_def sample_queued_def initial_system_def)
  ultimately show ?thesis using system_step.update_start [of sample_woken] by (simp add: sample_started_def)
qed

lemma sample_scheduled_step: "system_step initial_system sample_scheduled"
proof -
  have "sc_upsert sample_repo 0 0 new_schedule \<noteq> None" by code_simp
  then have "sc_upsert sample_repo 0 0 (schedule_of initial_system) =
      Some (fst (the (sc_upsert sample_repo 0 0 new_schedule)), snd (the (sc_upsert sample_repo 0 0 new_schedule)))"
    by (simp add: initial_system_def NewUpdateScheduler_def)
  moreover have "sy_schedule_pc initial_system \<noteq> InRun" by (simp add: initial_system_def)
  ultimately show ?thesis unfolding sample_scheduled_def by (rule system_step.client_upsert [rotated])
qed

lemma sample_reachable:
  "system_step\<^sup>*\<^sup>* initial_system sample_queued" "system_step\<^sup>*\<^sup>* initial_system sample_started"
  "system_step\<^sup>*\<^sup>* initial_system sample_scheduled"
  using sample_queued_step sample_woken_step sample_started_step sample_scheduled_step
  by (auto intro: rtranclp.rtrancl_into_rtrancl)


lemma sample_scheduled_entry:
  "sc.entries (schedule_of sample_scheduled) 7 = Some (sc_contents (schedule_of sample_scheduled) 0)"
proof -
  have "sc_index (schedule_of sample_scheduled) 7 = Some 0" by code_simp
  then show ?thesis by (simp add: sc_entries_index)
qed

lemma new_updateQueue_abs: "uq.entries new_updateQueue = Map.empty" "uq_seq new_updateQueue = 0"
  by (simp_all add: uq_entries_index new_updateQueue_def fun_eq_iff)




text \<open>
  C9: no reachable state lets an operation panic: the positions stored in the elements are inside
  the heaps and the identifiers are not zero, so the only panics left are calls with the zero
  identifier.
\<close>

theorem scheduler_never_panics:
  assumes "system_step\<^sup>*\<^sup>* initial_system y"
  shows "acquireNext (queue_of y) \<noteq> None \<and> 0 \<notin> set (worker_ids y) \<and>
    (sc_heap (schedule_of y) \<noteq> [] \<longrightarrow> runSchedule_body now1 (sy_us y) \<noteq> None) \<and>
    (cr_ID repo \<noteq> 0 \<longrightarrow> enqueue repo p (queue_of y) \<noteq> None \<and> uq_remove repo b (queue_of y) \<noteq> None) \<and>
    (cr_ID repo \<noteq> 0 \<and> sy_schedule_pc y \<noteq> InRun \<longrightarrow>
       sc_upsert repo now1 now2 (schedule_of y) \<noteq> None \<and> sc_remove repo now1 (schedule_of y) \<noteq> None \<and>
       updateInterval repo d r now1 now2 (schedule_of y) \<noteq> None \<and> prioritiseUncloned rs now1 now2 (schedule_of y) \<noteq> None)"
  using system_no_panic [OF reachable_ok [OF assms]] by blast

theorem scheduler_never_panics_witness:
  "enqueue \<lparr>cr_ID = 7, cr_Name = ''renamed''\<rparr> priorityHigh (queue_of sample_started) \<noteq> None"
  using scheduler_never_panics [OF sample_reachable(2), where repo = "\<lparr>cr_ID = 7, cr_Name = ''renamed''\<rparr>"] by simp



text \<open>
  C8: no wakeup of the schedule loop is lost: while a repository is scheduled and the loop does not
  run, there is a timer for the time at which the first repository is due, and if it has fired the
  loop has been woken.
\<close>

theorem schedule_has_timer:
  assumes "system_step\<^sup>*\<^sup>* initial_system y" and "sy_schedule_pc y \<noteq> InRun" and "sc.entries (schedule_of y) x = Some u"
  shows "\<exists>t d. sc_timer (schedule_of y) = Some t \<and> first_due (sc.entries (schedule_of y)) d \<and>
    tm_delay t = time_Sub d (tm_start t) \<and> (tm_fired t \<longrightarrow> sc_wakeup (schedule_of y) \<or> sy_schedule_pc y = Woken)"
  using schedule_part_timer [of "schedule_of y" "sy_schedule_pc y"] reachable_ok [OF assms(1)] assms(2,3)
  by (auto simp: system_ok_def)

theorem schedule_has_timer_witness:
  "\<exists>t d. sc_timer (schedule_of sample_scheduled) = Some t \<and> first_due (sc.entries (schedule_of sample_scheduled)) d \<and>
    tm_delay t = time_Sub d (tm_start t)"
proof -
  have "sy_schedule_pc sample_scheduled \<noteq> InRun" by code_simp
  from schedule_has_timer [OF sample_reachable(3) this sample_scheduled_entry] show ?thesis by blast
qed

text \<open>
  C38: the intervals between the updates of a repository stay between 42.75 seconds and 8 hours
  and 24 minutes: the limits of the source with the jitter on either side.
\<close>

theorem interval_bounds:
  assumes "system_step\<^sup>*\<^sup>* initial_system y" and "sc.entries (schedule_of y) x = Some u"
  shows "42750000000 \<le> su_Interval u \<and> su_Interval u < 30240000000000"
proof -
  have "intervals_ok (sc.entries (schedule_of y))" using reachable_ok [OF assms(1)] by (simp add: system_ok_def schedule_part_ok_def)
  with assms(2) have "lowInterval \<le> su_Interval u \<and> su_Interval u < highInterval" by (simp add: intervals_ok_def)
  then show ?thesis by (simp add: lowInterval_def highInterval_def minDelay_def maxDelay_def)
qed

theorem interval_bounds_witness:
  "su_Interval (sc_contents (schedule_of sample_scheduled) 0) < 30240000000000"
  using interval_bounds [OF sample_reachable(3) sample_scheduled_entry] by simp

text \<open>
  C11: the queue implements a table of entries by repository: for a repository with an identifier,
  \<open>enqueue\<close> and \<open>remove\<close> return what the table returns and leave the heap, the positions and the
  index consistent with the changed table. In the table, a repository that is being updated is not
  queued again, a waiting one is updated in place, and a higher priority moves it behind the
  entries of that priority.
\<close>

theorem queue_implements_table:
  assumes "queue_ok q" and "cr_ID repo \<noteq> 0"
  shows "(\<exists>q'. enqueue repo p q = Some (fst (spec_enqueue repo p (uq_abs q)), q') \<and> queue_ok q' \<and>
            uq_abs q' = snd (spec_enqueue repo p (uq_abs q))) \<and>
         (\<exists>q'. uq_remove repo b q = Some (fst (spec_remove repo b (uq_abs q)), q') \<and> queue_ok q' \<and>
            uq_abs q' = snd (spec_remove repo b (uq_abs q)))"
  using enqueue_refines [OF assms, of p] uq_remove_refines [OF assms, of b] by metis

theorem queue_implements_table_witness:
  "\<exists>q'. enqueue sample_repo priorityHigh new_updateQueue = Some (False, q') \<and>
     qt_entries (uq_abs q') 7 = Some ((new_repoUpdate sample_repo 1)\<lparr>ru_Seq := 1\<rparr>)"
proof -
  have "cr_ID sample_repo \<noteq> 0" by (simp add: sample_repo_def)
  from queue_implements_table [OF new_updateQueue_ok this, of priorityHigh True]
  obtain q' where q': "enqueue sample_repo priorityHigh new_updateQueue =
      Some (fst (spec_enqueue sample_repo priorityHigh (uq_abs new_updateQueue)), q')"
    "uq_abs q' = snd (spec_enqueue sample_repo priorityHigh (uq_abs new_updateQueue))" by blast
  have "qt_entries (uq_abs q') 7 = Some ((new_repoUpdate sample_repo 1)\<lparr>ru_Seq := 1\<rparr>)"
    unfolding q'(2) by (simp add: spec_enqueue_def Let_def new_updateQueue_abs sample_repo_def)
  then show ?thesis using q'(1) by (simp add: spec_enqueue_def Let_def new_updateQueue_abs sample_repo_def)
qed

text \<open>
  C12: \<open>acquireNext\<close> implements the choice of the next entry: it never panics, it returns nothing only
  when no entry waits, and otherwise it marks as updating, and returns, a waiting entry that no other
  entry precedes by priority and then by arrival.
\<close>

theorem acquireNext_implements:
  assumes "queue_ok q"
  shows "\<exists>r q'. acquireNext q = Some (r, q') \<and> queue_ok q' \<and>
    (case r of None \<Rightarrow> q' = q \<and> waiting (uq_abs q) = {}
     | Some repo \<Rightarrow> next_entry (uq_abs q) repo \<and> uq_abs q' = spec_start repo (uq_abs q))"
  using acquireNext_refines [OF assms] by metis

theorem acquireNext_implements_witness:
  "\<exists>r q'. acquireNext (queue_of sample_queued) = Some (Some r, q') \<and> next_entry (uq_abs (queue_of sample_queued)) r"
proof -
  have ok: "queue_ok (queue_of sample_queued)"
    using reachable_ok [OF sample_reachable(1)] by (simp add: system_ok_def queue_part_ok_def)
  have "case acquireNext (queue_of sample_queued) of None \<Rightarrow> False | Some (r, _) \<Rightarrow> r \<noteq> None" by code_simp
  with acquireNext_implements [OF ok] show ?thesis by (auto split: option.splits)
qed



text \<open>
  C22: after a diff is applied, the schedule has the repositories it had, without the deleted ones
  and with the added, the modified and the unmodified ones that are not marked as deleted; of the
  added and modified ones those that are not being updated wait in the queue, and deleted ones
  wait no longer.
\<close>

theorem UpdateFromDiff_exact:
  assumes "scheduler_ok u"
    and "\<forall>r \<in> set (df_Deleted d @ df_Added d @ ReposModified_Repos (df_Modified d) @ df_Unmodified d). tr_ID r \<noteq> 0"
    and "\<forall>r \<in> set (df_Unmodified d). \<forall>r' \<in> set (df_Unmodified d). tr_ID r = tr_ID r' \<longrightarrow> IsDeleted r = IsDeleted r'"
  defines "del \<equiv> tr_ID ` set (df_Deleted d)"
    and "new \<equiv> tr_ID ` set (df_Added d) \<union> tr_ID ` set (ReposModified_Repos (df_Modified d))"
    and "gone \<equiv> tr_ID ` {r \<in> set (df_Unmodified d). IsDeleted r}"
    and "kept \<equiv> tr_ID ` {r \<in> set (df_Unmodified d). \<not> IsDeleted r}"
  shows "\<exists>u'. UpdateFromDiff d clock u = Some u' \<and> scheduler_ok u' \<and>
    dom (us_entries u') = (dom (us_entries u) - del \<union> new \<union> kept) - gone \<and>
    waiting (us_table u') = (waiting (us_table u) - del \<union> (new - updating (us_table u))) - gone \<and>
    updating (us_table u') = updating (us_table u)"
  using UpdateFromDiff_sets [OF _ assms(2,3), of u "dom (us_entries u)" "waiting (us_table u)" "updating (us_table u)" clock] assms(1)
  unfolding del_def new_def gone_def kept_def by (simp add: same_sets_def)

theorem UpdateFromDiff_exact_witness:
  "\<exists>u'. UpdateFromDiff sample_diff (\<lambda>_. 0) NewUpdateScheduler = Some u' \<and> dom (us_entries u') = {1, 2} \<and>
     waiting (us_table u') = {1}"
proof -
  have start: "dom (us_entries NewUpdateScheduler) = {}" "waiting (us_table NewUpdateScheduler) = {}"
    "updating (us_table NewUpdateScheduler) = {}"
    by (auto simp: NewUpdateScheduler_def sc_entries_index uq_entries_index waiting_def updating_def new_schedule_def new_updateQueue_def)
  have "{r \<in> set (df_Unmodified sample_diff). IsDeleted r} = {\<lparr>tr_ID = 3, tr_Name = ''c'', tr_DeletedAt = Some 5\<rparr>}"
    "{r \<in> set (df_Unmodified sample_diff). \<not> IsDeleted r} = {\<lparr>tr_ID = 2, tr_Name = ''b'', tr_DeletedAt = None\<rparr>}"
    by (auto simp: sample_diff_def IsDeleted_def)
  with UpdateFromDiff_exact [OF NewUpdateScheduler_ok, of sample_diff "\<lambda>_. 0"] show ?thesis
    by (auto simp: start sample_diff_def IsDeleted_def ReposModified_Repos_def)
qed

text \<open>
  C14: a run of the schedule ends, with as many iterations as there are repositories and one more, if
  the readings of the clock during the run differ by less than the shortest interval; then every
  repository that was due is in the queue or being updated, no repository is due, none was lost, and
  the timer is set again.
\<close>

theorem runSchedule_returns:
  assumes "scheduler_ok u" and "us_entries u 0 = None" and "intervals_ok (us_entries u)"
    and "\<And>i. T \<le> clock i \<and> clock i + Millisecond \<le> T + lowInterval" and "length (sc_heap (us_schedule u)) < n"
  shows "\<exists>u'. runSchedule n clock u = Returned u' \<and> scheduler_ok u' \<and> dom (us_entries u') = dom (us_entries u) \<and>
    due_before (T + Millisecond) (us_entries u') = {} \<and> updating (us_table u') = updating (us_table u) \<and>
    waiting (us_table u) \<union> (due_before (T + Millisecond) (us_entries u) - updating (us_table u)) \<subseteq> waiting (us_table u')"
  by (rule runSchedule_terminates [OF assms])

theorem runSchedule_returns_witness:
  "\<exists>u'. runSchedule 2 (\<lambda>_. 45000000000) (sy_us sample_scheduled) = Returned u' \<and> 7 \<in> waiting (us_table u')"
proof -
  let ?u = "sy_us sample_scheduled"
  have ok: "scheduler_ok ?u" "us_entries ?u 0 = None" "intervals_ok (us_entries ?u)"
    using reachable_ok [OF sample_reachable(3)]
    by (simp_all add: scheduler_ok_def system_ok_def queue_part_ok_def schedule_part_ok_def schedule_ok_def
        sample_scheduled_def initial_system_def)
  have len: "length (sc_heap (us_schedule ?u)) < 2" by code_simp
  have "su_Due (sc_contents (us_schedule ?u) 0) = 45000000000" by code_simp
  then have due: "7 \<in> due_before (45000000000 + Millisecond) (us_entries ?u)"
    using sample_scheduled_entry by (simp add: due_before_def)
  have upd: "updating (us_table ?u) = {}"
    by (auto simp: sample_scheduled_def set_schedule_def initial_system_def NewUpdateScheduler_def updating_def uq_entries_index new_updateQueue_def)
  from runSchedule_returns [OF ok, of 45000000000 "\<lambda>_. 45000000000" 2] len due upd show ?thesis
    by (auto simp: lowInterval_def minDelay_def)
qed

section \<open>The limiter\<close>

text \<open>
  C39: whatever the order of requests, releases and changes of the limit, the limiter holds at most as
  many contexts as a limit that is not negative allows, and of the contexts that it handed out it has
  canceled exactly those that it does not hold.
\<close>

theorem limiter_never_exceeds:
  assumes "limiter_step\<^sup>*\<^sup>* (NewMutable limit) l"
  shows "(0 \<le> ml_limit l \<longrightarrow> int (length (ml_held l)) \<le> ml_limit l) \<and>
    set (ml_canceled l) = {..< ml_next l} - set (ml_held l)"
  using limiter_reachable_ok [OF assms] by (auto simp: limiter_ok_def)

theorem limiter_never_exceeds_witness:
  "set (ml_canceled (SetLimit 0 (snd (the (Acquire (NewMutable 1)))))) = {0}"
proof -
  have "Acquire (NewMutable 1) = Some (the (Acquire (NewMutable 1)))" by (simp add: Acquire_def NewMutable_def)
  then have "limiter_step (NewMutable 1) (snd (the (Acquire (NewMutable 1))))" by (metis limiter_step.acquire prod.collapse)
  then have r: "limiter_step\<^sup>*\<^sup>* (NewMutable 1) (SetLimit 0 (snd (the (Acquire (NewMutable 1)))))"
    by (meson limiter_step.adjust r_into_rtranclp rtranclp.rtrancl_into_rtrancl)
  have "ml_next (SetLimit 0 (snd (the (Acquire (NewMutable 1))))) = 1" "ml_held (SetLimit 0 (snd (the (Acquire (NewMutable 1))))) = []"
    by code_simp+
  with limiter_never_exceeds [OF r] show ?thesis by auto
qed

text \<open>
  Lowering the limit cancels the contexts that were acquired first: the limiter keeps the newest
  ones, as many as the new limit allows, and every context that it cancels is older than every context
  that it keeps.
\<close>

theorem SetLimit_cancels_oldest:
  assumes "limiter_ok l" and "0 \<le> limit"
  shows "ml_held (SetLimit limit l) = drop (length (ml_held l) - nat limit) (ml_held l) \<and>
    (\<forall>x \<in> set (ml_held l) - set (ml_held (SetLimit limit l)). \<forall>y \<in> set (ml_held (SetLimit limit l)). x < y)"
proof -
  let ?k = "length (ml_held l) - nat limit"
  have h: "ml_held (SetLimit limit l) = drop ?k (ml_held l)" using assms(2) by (simp add: SetLimit_def release_down_split Let_def)
  have "sorted_wrt (<) (take ?k (ml_held l) @ drop ?k (ml_held l))" using assms(1) by (simp add: limiter_ok_def)
  then have "\<forall>x \<in> set (take ?k (ml_held l)). \<forall>y \<in> set (drop ?k (ml_held l)). x < y"
    unfolding sorted_wrt_append by blast
  moreover have "set (ml_held l) \<subseteq> set (take ?k (ml_held l)) \<union> set (drop ?k (ml_held l))" by (metis append_take_drop_id set_append order_refl)
  ultimately show ?thesis unfolding h by blast
qed

theorem SetLimit_cancels_oldest_witness:
  "ml_held (SetLimit 1 \<lparr>ml_limit = 3, ml_held = [0, 1, 2], ml_next = 3, ml_canceled = []\<rparr>) = [2]"
proof -
  have "{0, 1, 2} = {..< 3 :: nat}" by auto
  then have "limiter_ok \<lparr>ml_limit = 3, ml_held = [0, 1, 2], ml_next = 3, ml_canceled = []\<rparr>" by (simp add: limiter_ok_def)
  from SetLimit_cancels_oldest [OF this, of 1] show ?thesis by simp
qed

section \<open>Database migrations\<close>

text \<open>A migration after which two others, and one that joins them.\<close>

definition sample_migration :: "int \<Rightarrow> int list \<Rightarrow> Definition" where
  "sample_migration x parents =
     \<lparr>mg_ID = x, mg_Name = [], mg_UpQuery = [], mg_DownQuery = [], mg_Privileged = False, mg_NonIdempotent = False,
      mg_Parents = parents, mg_IsCreateIndexConcurrently = False, mg_IndexMetadata = None\<rparr>"

definition sample_migrations :: "Definition list" where
  "sample_migrations =
     [sample_migration 4 [2, 3], sample_migration 3 [1], sample_migration 2 [1], sample_migration 1 []]"

definition sample_definitions :: Definitions where
  "sample_definitions = newDefinitions (rev [sample_migration 4 [2, 3], sample_migration 3 [1], sample_migration 2 [1], sample_migration 1 []])"

lemma sample_ordered: "NewDefinitions sample_migrations = Inr sample_definitions"
proof -
  have "reorderDefinitions sample_migrations = Inr (rev sample_migrations)" by code_simp
  then show ?thesis by (simp add: NewDefinitions_def sample_definitions_def sample_migrations_def)
qed

text \<open>
  C5: migrations with distinct identifiers are ordered, or an error says what is wrong with them. The
  order is a permutation of the migrations in which every migration comes after its parents. An unknown
  parent that is reported is referenced and unknown; no roots or several are reported only if it is so;
  and a reported cycle is a cycle of the graph. In particular the search never reaches its panics.
\<close>

theorem NewDefinitions_correct:
  assumes "distinct (mg_ids defs)" and "defs \<noteq> []"
  shows "case NewDefinitions defs of
      Inr ds \<Rightarrow> mset (ds_definitions ds) = mset defs \<and> parents_first (parents_of defs) [] (mg_ids (ds_definitions ds))
    | Inl e \<Rightarrow>
        (\<exists>p x. e = UnknownMigration p (Some x) \<and> p \<notin> set (mg_ids defs) \<and> (p, x) \<in> migration_edges defs) \<or>
        (e = NoRoots \<and> (\<forall>d \<in> set defs. mg_Parents d \<noteq> [])) \<or>
        (\<exists>roots. e = MultipleRoots roots \<and> 2 \<le> length roots \<and> roots = mg_ids (filter (\<lambda>d. mg_Parents d = []) defs)) \<or>
        (\<exists>c. e = DependencyCycle c \<and> is_cycle (visit_order defs) c \<and> \<not> acyclic (migration_edges defs))"
proof (cases "NewDefinitions defs")
  case (Inl e)
  from NewDefinitions_error [OF assms(1) Inl] show ?thesis
    unfolding Inl sum.case using migration_root_error [of defs e] cycle_not_acyclic [of defs] by blast
next
  case (Inr ds)
  then show ?thesis using NewDefinitions_ok(1) [OF Inr] NewDefinitions_graph(1) [OF Inr] definitions_okD(3) [OF NewDefinitions_graph(5) [OF Inr]] by simp
qed

theorem NewDefinitions_correct_witness:
  "distinct (mg_ids sample_migrations) \<and> mset (ds_definitions sample_definitions) = mset sample_migrations"
proof -
  have d: "distinct (mg_ids sample_migrations)" "sample_migrations \<noteq> []" by code_simp+
  from NewDefinitions_correct [OF this] d show ?thesis by (simp add: sample_ordered)
qed

text \<open>
  C16: the migrations that \<open>Up\<close> returns are the ancestors of the targets, and the targets, that have not
  been applied; and each can be applied in turn: its parents have been applied before, or come before it.
\<close>

theorem Up_applicable:
  assumes "NewDefinitions defs = Inr ds" and "set targets \<subseteq> set (mg_ids defs)"
  shows "\<exists>up. Definitions_Up ds applied targets = Inr up \<and> set up \<subseteq> set defs \<and> distinct (mg_ids up) \<and>
    set (mg_ids up) = {x. x \<notin> set applied \<and> (\<exists>t \<in> set targets. (x, t) \<in> (migration_edges defs)\<^sup>*)} \<and>
    parents_first (parents_of defs) applied (mg_ids up)"
proof -
  note g = NewDefinitions_graph [OF assms(1)]
  have "set targets \<subseteq> known ds" using assms(2) g(3) by simp
  then obtain up where u: "Definitions_Up ds applied targets = Inr up" "distinct (mg_ids up)" "set up \<subseteq> set (ds_definitions ds)"
    "\<And>x. x \<in> set (mg_ids up) \<longleftrightarrow> x \<notin> set applied \<and> (\<exists>t \<in> set targets. (x, t) \<in> (ds_edges ds)\<^sup>*)"
    "parents_first (ds_parents ds) applied (mg_ids up)"
    using Definitions_Up_exact [OF g(5)] by blast
  have "set (mg_ids up) = {x. x \<notin> set applied \<and> (\<exists>t \<in> set targets. (x, t) \<in> (migration_edges defs)\<^sup>*)}"
    unfolding set_eq_iff mem_Collect_eq u(4) g(2) by blast
  then show ?thesis using u(1,2,3,5) g(1,4) by auto
qed

theorem Up_applicable_witness:
  "map_sum id mg_ids (Definitions_Up sample_definitions [1] [4]) = Inr [2, 3, 4] \<and>
   parents_first (parents_of sample_migrations) [1] [2, 3, 4]"
proof -
  have t: "set [4] \<subseteq> set (mg_ids sample_migrations)" by code_simp
  have run: "map_sum id mg_ids (Definitions_Up sample_definitions [1] [4]) = Inr [2, 3, 4]" by code_simp
  with Up_applicable [OF sample_ordered t, of "[1]"] show ?thesis by auto
qed

text \<open>
  C17: if no target is a descendant of another, the migrations that \<open>Down\<close> returns are the applied
  descendants of the targets; and each can be undone in turn: it is applied then, and none of its
  children is. If the applied migrations had all of their parents before, they have them after it.
\<close>

theorem Down_undoable:
  assumes "NewDefinitions defs = Inr ds" and "set targets \<subseteq> set (mg_ids defs)"
    and "\<forall>t \<in> set targets. \<forall>t' \<in> set targets. (t, t') \<notin> (migration_edges defs)\<^sup>+"
  shows "\<exists>down. Definitions_Down ds applied targets = Inr down \<and> distinct (mg_ids down) \<and>
    set (mg_ids down) = {x \<in> set applied. \<exists>t \<in> set targets. (t, x) \<in> (migration_edges defs)\<^sup>+} \<and>
    undo_order ds (set applied) (mg_ids down) \<and>
    (parent_closed ds (set applied) \<longrightarrow> parent_closed ds (set applied - set (mg_ids down)))"
proof -
  note g = NewDefinitions_graph [OF assms(1)]
  have k: "set targets \<subseteq> known ds" using assms(2) g(3) by simp
  have a: "(t, t') \<notin> (ds_edges ds)\<^sup>+" if "t \<in> set targets" "t' \<in> set targets" for t t' using assms(3) that g(2) by simp
  obtain down where d: "Definitions_Down ds applied targets = Inr down" "distinct (mg_ids down)"
    "\<And>x. x \<in> set (mg_ids down) \<longleftrightarrow> x \<in> set applied \<and> (\<exists>t \<in> set targets. (t, x) \<in> (ds_edges ds)\<^sup>+)"
    "undo_order ds (set applied) (mg_ids down)"
    using Definitions_Down_exact [OF g(5) k a] by blast
  have "set (mg_ids down) = {x \<in> set applied. \<exists>t \<in> set targets. (t, x) \<in> (migration_edges defs)\<^sup>+}"
    unfolding set_eq_iff mem_Collect_eq d(3) g(2) by blast
  then show ?thesis using d(1,2,4) parent_closed_undo [OF d(4)] by blast
qed

theorem Down_undoable_witness:
  "map_sum id mg_ids (Definitions_Down sample_definitions [1, 2, 3, 4] [1]) = Inr [4, 3, 2] \<and>
   undo_order sample_definitions {1, 2, 3, 4} [4, 3, 2]"
proof -
  have "acyclic (migration_edges sample_migrations)"
    using NewDefinitions_iff [of sample_migrations] sample_ordered by (simp add: sample_migrations_def sample_migration_def)
  then have a: "\<forall>t \<in> set [1]. \<forall>t' \<in> set [1]. (t, t') \<notin> (migration_edges sample_migrations)\<^sup>+" by (simp add: acyclic_def)
  have t: "set [1] \<subseteq> set (mg_ids sample_migrations)" by code_simp
  have run: "map_sum id mg_ids (Definitions_Down sample_definitions [1, 2, 3, 4] [1]) = Inr [4, 3, 2]" by code_simp
  with Down_undoable [OF sample_ordered t a, of "[1, 2, 3, 4]"] show ?thesis by auto
qed

text \<open>
  C18: \<open>LeafDominator\<close> returns the deepest common dominator of the leaves and the given migrations: a
  migration lies on every path from the root to it exactly if it lies on every path from the root to
  each of them.
\<close>

theorem LeafDominator_nearest:
  assumes "NewDefinitions defs = Inr ds" and "defs \<noteq> []" and "set extraIDs \<subseteq> set (mg_ids defs)"
  shows "\<exists>d \<in> set defs. LeafDominator ds extraIDs = Some d \<and>
    (\<forall>x. dominates ds x (mg_ID d) \<longleftrightarrow> (\<forall>n \<in> mg_ID ` set (Leaves ds) \<union> set extraIDs. dominates ds x n))"
proof -
  note g = NewDefinitions_graph [OF assms(1)]
  have "ds_definitions ds \<noteq> []" "set extraIDs \<subseteq> known ds" using assms(2,3) g(3,4) by auto
  from LeafDominator_eq [OF g(5) this] g(4) show ?thesis by auto
qed

theorem LeafDominator_nearest_witness:
  "map_option mg_ID (LeafDominator sample_definitions [2, 3]) = Some 1 \<and>
   (\<forall>x. dominates sample_definitions x 1 \<longleftrightarrow> dominates sample_definitions x 2 \<and> dominates sample_definitions x 3 \<and> dominates sample_definitions x 4)"
proof -
  have t: "sample_migrations \<noteq> []" "set [2, 3] \<subseteq> set (mg_ids sample_migrations)" by code_simp+
  have run: "map_option mg_ID (LeafDominator sample_definitions [2, 3]) = Some 1" "mg_ids (Leaves sample_definitions) = [4]" by code_simp+
  have l: "mg_ID ` set (Leaves sample_definitions) = {4}" unfolding set_map [symmetric] run(2) by simp
  from LeafDominator_nearest [OF sample_ordered t, unfolded l]
  obtain d where d: "LeafDominator sample_definitions [2, 3] = Some d"
    "\<forall>x. dominates sample_definitions x (mg_ID d) \<longleftrightarrow> (\<forall>n \<in> {4} \<union> set [2, 3]. dominates sample_definitions x n)" by blast
  then have "mg_ID d = 1" using run(1) by simp
  with d(2) run(1) show ?thesis by simp
qed

text \<open>
  C19: cutting migrations away gives ordered definitions of exactly the migrations that were kept, or an
  error that names one that was kept and a parent of it that was not.
\<close>

theorem Filter_closed:
  assumes "NewDefinitions defs = Inr ds"
  shows "case Definitions_Filter ds ids of
      Inr ds' \<Rightarrow> definitions_ok ds' \<and> ds_definitions ds' = filter (\<lambda>d. mg_ID d \<in> set ids) (ds_definitions ds)
    | Inl e \<Rightarrow> \<exists>x p. e = IllegalFilter x p \<and> x \<in> set ids \<and> p \<notin> set ids \<and> (p, x) \<in> migration_edges defs"
proof (cases "Definitions_Filter ds ids")
  case (Inl e)
  with Definitions_Filter_error [OF NewDefinitions_graph(5) [OF assms] Inl] NewDefinitions_graph(2) [OF assms] show ?thesis by simp
next
  case (Inr ds')
  with Definitions_Filter_ok [OF NewDefinitions_graph(5) [OF assms] Inr] show ?thesis by simp
qed

theorem Filter_closed_witness:
  "\<exists>ds'. Definitions_Filter sample_definitions [1, 3] = Inr ds' \<and> definitions_ok ds'"
proof -
  have run: "case Definitions_Filter sample_definitions [1, 3] of Inl _ \<Rightarrow> False | Inr _ \<Rightarrow> True" by code_simp
  then obtain ds' where r: "Definitions_Filter sample_definitions [1, 3] = Inr ds'" by (auto split: sum.splits)
  from Filter_closed [OF sample_ordered, of "[1, 3]"] r show ?thesis by simp
qed

text \<open>
  C20: whatever the files hold, definitions that are read are in an order that can be applied, are
  exactly the migrations whose directories have a version as their name, and have flags that agree
  with their queries. If the versions are distinct, an error of the ordering is never a panic.
\<close>

theorem ReadDefinitions_validated:
  assumes "distinct (versions files)"
  shows "case ReadDefinitions (Inr files) fs unmarshal Query of
      Inr ds \<Rightarrow>
        definitions_ok ds \<and> mset (mg_ids (ds_definitions ds)) = mset (versions files) \<and>
        (\<forall>d \<in> set (ds_definitions ds). flags_agree Query d \<and>
          (\<exists>file \<in> set files. ParseRawVersion file = Inr (mg_ID d) \<and> readDefinition fs unmarshal Query (mg_ID d) file = Inr d))
    | Inl e \<Rightarrow> e \<notin> {ReorderError MigrationPanic, ReorderError DepthExceeded}"
proof (cases "readDefinitions_from fs unmarshal Query files")
  case (Inl e)
  from readDefinitions_from_error [OF this] obtain f e' where "e = MalformedDefinition f e'" by blast
  with Inl show ?thesis by (auto simp: ReadDefinitions_def readDefinitions_def)
next
  case (Inr defs)
  note r = ReadDefinitions_NewDefinitions [OF Inr]
  have ids: "mg_ids defs = versions files" by (rule readDefinitions_from_ids [OF Inr])
  show ?thesis
  proof (cases "NewDefinitions (sort_key mg_ID defs)")
    case (Inl e)
    have "mset (mg_ids (sort_key mg_ID defs)) = mset (versions files)" unfolding ids [symmetric] by simp
    then have "distinct (mg_ids (sort_key mg_ID defs))" using assms mset_eq_imp_distinct_iff by blast
    from NewDefinitions_error [OF this Inl] migration_root_error have "e \<noteq> MigrationPanic" "e \<noteq> DepthExceeded" by auto
    then show ?thesis by (simp add: r Inl)
  next
    case (Inr ds)
    note ok = NewDefinitions_ok [OF Inr]
    have m: "mset (ds_definitions ds) = mset defs" using ok(1) by simp
    then have "mset (mg_ids (ds_definitions ds)) = mset (versions files)" unfolding ids [symmetric] by simp
    moreover have "set (ds_definitions ds) = set defs" using m by (rule mset_eq_setD)
    ultimately show ?thesis
      using ok(2) readDefinitions_from_ok [OF \<open>readDefinitions_from fs unmarshal Query files = Inr defs\<close>] readDefinition_ok(2)
      by (fastforce simp: r Inr)
  qed
qed

text \<open>A file system with two migrations.\<close>

definition sample_Unmarshal :: "string \<Rightarrow> string + payload" where
  "sample_Unmarshal s =
     Inr \<lparr>pl_Name = ''m'', pl_Parent = (if s = ''1_a/metadata.yaml'' then 0 else 1), pl_Parents = [],
          pl_CreateIndexConcurrently = False, pl_Privileged = False, pl_NonIdempotent = False\<rparr>"

theorem ReadDefinitions_validated_witness:
  "\<exists>ds. ReadDefinitions (Inr [''2_b'', ''README'', ''1_a'']) Inr sample_Unmarshal (\<lambda>s. s) = Inr ds \<and>
     mg_ids (ds_definitions ds) = [1, 2] \<and> definitions_ok ds"
proof -
  let ?files = "[''2_b'', ''README'', ''1_a'']"
  have "map_sum (\<lambda>_. ()) (\<lambda>ds. mg_ids (ds_definitions ds)) (ReadDefinitions (Inr ?files) Inr sample_Unmarshal (\<lambda>s. s)) = Inr [1, 2]" by code_simp
  then obtain ds where r: "ReadDefinitions (Inr ?files) Inr sample_Unmarshal (\<lambda>s. s) = Inr ds" "mg_ids (ds_definitions ds) = [1, 2]"
    by (cases "ReadDefinitions (Inr ?files) Inr sample_Unmarshal (\<lambda>s. s)") simp_all
  have "distinct (versions ?files)" by code_simp
  from ReadDefinitions_validated [OF this, where fs = Inr and unmarshal = sample_Unmarshal and Query = "\<lambda>s. s"] r show ?thesis by simp
qed

text \<open>Two directories with the same version reach the panic of the search.\<close>

lemma duplicate_versions_panic:
  "ReadDefinitions (Inr [''1_a'', ''2_b'', ''2_c'']) Inr sample_Unmarshal (\<lambda>s. s) = Inl (ReorderError MigrationPanic)"
proof -
  have "map_sum id (\<lambda>_. ()) (ReadDefinitions (Inr [''1_a'', ''2_b'', ''2_c'']) Inr sample_Unmarshal (\<lambda>s. s)) = Inl (ReorderError MigrationPanic)"
    by code_simp
  then show ?thesis by (cases "ReadDefinitions (Inr [''1_a'', ''2_b'', ''2_c'']) Inr sample_Unmarshal (\<lambda>s. s)") simp_all
qed

section \<open>The commit graph\<close>

text \<open>A commit with an upload, a second one, and one that merges the second with the first.\<close>

definition sample_log :: "(string \<times> string list) list" where
  "sample_log = [(''a'', [''b'', ''c'']), (''b'', [''c'']), (''c'', [''d''])]"

definition sample_view :: CommitGraphView where
  "sample_view = scanCommitGraphView [(1, ''d'', ''t1'', 0), (2, ''b'', ''t2'', 0), (3, ''c'', ''t2'', 0)] NewCommitGraphView"

definition sample_commits :: CommitGraph where
  "sample_commits = ParseCommitGraph (map log_line sample_log)"

definition sample_range :: range_order where
  "sample_range c m = rev m"

lemma sample_log_ok: "log_ok sample_log"
  by code_simp

lemma sample_range_permutes: "permutes sample_range"
  by (simp add: permutes_def sample_range_def)

lemma sample_view_meta: "meta_at sample_view c = (if c = ''d'' then [\<lparr>um_UploadID = 1, um_Distance = 0\<rparr>]
    else if c = ''b'' then [\<lparr>um_UploadID = 2, um_Distance = 0\<rparr>] else if c = ''c'' then [\<lparr>um_UploadID = 3, um_Distance = 0\<rparr>] else [])"
  by (simp add: sample_view_def View_Add_def NewCommitGraphView_def meta_at_def)

lemma sample_fits: "distances_fit (cg_graph sample_commits) sample_view (cg_order sample_commits)" "view_fits sample_view"
proof -
  have "length (cg_order sample_commits) = 4" by code_simp
  then show "distances_fit (cg_graph sample_commits) sample_view (cg_order sample_commits)"
    by (auto simp: distances_fit_def sample_view_meta split: if_splits)
  show "view_fits sample_view" by (auto simp: view_fits_def ids_fit_def sample_view_meta split: if_splits)
qed

text \<open>
  C21: the commit graph of a log in which every commit is listed before its parents has exactly the
  listed commits and their parents, each once and after its own parents, and the listed parents.
\<close>

theorem ParseCommitGraph_topological:
  assumes "log_ok es"
  shows "distinct (cg_order (ParseCommitGraph (map log_line es))) \<and>
    set (cg_order (ParseCommitGraph (map log_line es))) = fst ` set es \<union> (\<Union>e \<in> set es. set (snd e)) \<and>
    parents_first (graph_at (cg_graph (ParseCommitGraph (map log_line es)))) [] (cg_order (ParseCommitGraph (map log_line es))) \<and>
    (\<forall>c. graph_at (cg_graph (ParseCommitGraph (map log_line es))) c = (case map_of es c of None \<Rightarrow> [] | Some ps \<Rightarrow> ps))"
proof -
  note p = ParseCommitGraph_ok [OF assms refl]
  have "graph_at (cg_graph (ParseCommitGraph (map log_line es))) c = (case map_of es c of None \<Rightarrow> [] | Some ps \<Rightarrow> ps)" for c
  proof (cases "map_of es c")
    case None
    then have "c \<notin> set (map fst es)" by (simp add: map_of_eq_None_iff)
    with p(6) None show ?thesis by simp
  next
    case (Some ps)
    with p(5) map_of_SomeD [OF Some] show ?thesis by simp
  qed
  with p(1,2,4) show ?thesis by simp
qed

theorem ParseCommitGraph_topological_witness:
  "cg_order sample_commits = [''d'', ''c'', ''b'', ''a''] \<and>
   parents_first (graph_at (cg_graph sample_commits)) [] [''d'', ''c'', ''b'', ''a'']"
proof -
  have "cg_order sample_commits = [''d'', ''c'', ''b'', ''a'']" by code_simp
  moreover have "parents_first (graph_at (cg_graph sample_commits)) [] (cg_order sample_commits)"
    using ParseCommitGraph_topological [OF sample_log_ok] unfolding sample_commits_def by blast
  ultimately show ?thesis by simp
qed



text \<open>
  C15: the rows that are written for the commits of a graph give back the visible uploads of each of
  them: those of its own row, or those of the row it links to with the distance of the link added. The
  rows for the tips are the visible uploads of the commits with a reference that is not stale.
\<close>

theorem rows_reconstruct:
  assumes "permutes it" and "log_ok es" and "distances_fit (cg_graph (ParseCommitGraph (map log_line es))) view (cg_order (ParseCommitGraph (map log_line es)))"
    and "view_fits view" and "fst ` set refs \<subseteq> fst ` set es"
  shows "\<exists>g cg' s. NewGraph it (ParseCommitGraph (map log_line es)) view = Some (g, cg') \<and>
    sanitizeCommitInput it now g refs maxBranch maxTag = Some s \<and>
    (\<forall>e \<in> set es. set (reconstruct (read_rows s) (fst e)) = {u. visible (cg_graph (ParseCommitGraph (map log_line es))) view (fst e) u}) \<and>
    sci_uploadsVisibleAtTipRowValues s =
      concat (map (ref_rows (max_ages maxBranch maxTag) now (\<lambda>c. the (UploadsVisibleAtCommit it g c))) refs)"
proof -
  let ?cg = "ParseCommitGraph (map log_line es)"
  note p = ParseCommitGraph_ok [OF assms(2) refl]
  have ok: "graph_ok ?cg view" using p(1-3) assms(3) by (simp add: graph_ok_def)
  obtain g cg' where g: "NewGraph it ?cg view = Some (g, cg')" using NewGraph_ok [OF assms(1) ok] by blast
  have "fst ` set refs \<subseteq> set (cg_order ?cg)" using assms(5) p(4) by auto
  from sanitizeCommitInput_exact [OF assms(1) ok assms(4) g this] obtain s where s: "sanitizeCommitInput it now g refs maxBranch maxTag = Some s"
    "\<And>c u. c \<in> set (cg_order ?cg) \<Longrightarrow> u \<in> set (reconstruct (read_rows s) c) \<longleftrightarrow> visible (cg_graph ?cg) view c u"
    "sci_uploadsVisibleAtTipRowValues s = concat (map (ref_rows (max_ages maxBranch maxTag) now (\<lambda>c. the (UploadsVisibleAtCommit it g c))) refs)" by blast
  have "set (reconstruct (read_rows s) (fst e)) = {u. visible (cg_graph ?cg) view (fst e) u}" if "e \<in> set es" for e
    using s(2) [of "fst e"] that p(4) by auto
  then show ?thesis using g s(1,3) by blast
qed

theorem rows_reconstruct_witness:
  "\<exists>g cg' s. NewGraph sample_range sample_commits sample_view = Some (g, cg') \<and> sanitizeCommitInput sample_range 0 g [] 0 0 = Some s \<and>
     set (reconstruct (read_rows s) ''a'') = {u. visible (cg_graph sample_commits) sample_view ''a'' u}"
proof -
  have r: "fst ` set [] \<subseteq> fst ` set sample_log" by simp
  have "(''a'', [''b'', ''c'']) \<in> set sample_log" by (simp add: sample_log_def)
  with rows_reconstruct [OF sample_range_permutes sample_log_ok sample_fits(1) [unfolded sample_commits_def] sample_fits(2) r, of 0 0 0]
  show ?thesis unfolding sample_commits_def by fastforce
qed

text \<open>The encoding of a list of uploads that is stored in a row is decoded to the list.\<close>

theorem Serialize_roundtrip:
  assumes "ids_fit us"
  shows "decode_metas (fst (Serialize us newUploadMetaListSerializer)) = Some us \<and> snd (Serialize us newUploadMetaListSerializer) = newUploadMetaListSerializer"
  using decode_Serialize [OF assms] by (simp add: newUploadMetaListSerializer_def Serialize_eq)

theorem Serialize_roundtrip_witness:
  "fst (Serialize [\<lparr>um_UploadID = 51, um_Distance = 3\<rparr>] newUploadMetaListSerializer) = CHR ''{'' # CHR 0x22 # ''51'' @ CHR 0x22 # '':3}'' \<and>
   decode_metas (CHR ''{'' # CHR 0x22 # ''51'' @ CHR 0x22 # '':3}'') = Some [\<lparr>um_UploadID = 51, um_Distance = 3\<rparr>]"
proof -
  have f: "ids_fit [\<lparr>um_UploadID = 51, um_Distance = 3\<rparr>]" by (simp add: ids_fit_def)
  have "fst (Serialize [\<lparr>um_UploadID = 51, um_Distance = 3\<rparr>] newUploadMetaListSerializer) = CHR ''{'' # CHR 0x22 # ''51'' @ CHR 0x22 # '':3}''" by code_simp
  with Serialize_roundtrip [OF f] show ?thesis by simp
qed

text \<open>
  \<open>NewGraph\<close> sorts the commits of the graph it is given. A second decorated graph made from the same
  commit graph sees a commit before its parent, and loses the upload of the parent.
\<close>

definition visible_at :: "CommitGraph \<Rightarrow> string \<Rightarrow> (UploadMeta list \<times> CommitGraph) option" where
  "visible_at cg c =
     Option.bind (NewGraph sample_range cg sample_view) (\<lambda>(g, cg'). map_option (\<lambda>us. (us, cg')) (UploadsVisibleAtCommit sample_range g c))"

lemma second_graph_loses_upload:
  "map_option fst (visible_at (ParseCommitGraph [''b d'', ''d'']) ''b'') =
     Some [\<lparr>um_UploadID = 1, um_Distance = 1\<rparr>, \<lparr>um_UploadID = 2, um_Distance = 0\<rparr>] \<and>
   map_option fst (Option.bind (visible_at (ParseCommitGraph [''b d'', ''d'']) ''b'') (\<lambda>(_, cg). visible_at cg ''b'')) =
     Some [\<lparr>um_UploadID = 2, um_Distance = 0\<rparr>]"
  by code_simp

text \<open>Of two uploads of one commit with the same token and distance the later is kept, not the one with the smaller identifier.\<close>

lemma own_upload_last:
  "own_upload (scanCommitGraphView [(1, ''a'', ''t'', 0), (2, ''a'', ''t'', 0)] NewCommitGraphView) ''a'' ''t'' =
     Some \<lparr>um_UploadID = 2, um_Distance = 0\<rparr>"
  by code_simp

end
